(* ===== verification/Prelude.thy ===== *)
theory Prelude
  imports Main "HOL-Library.Word" "HOL-Library.Monad_Syntax"
begin

text \<open>
  Shared vocabulary of the development: the machine integer types of the C++ sources, reads and
  writes of fixed-size arrays and of flat byte memory whose out-of-range case is the value
  \<open>None\<close> (undefined behaviour of the source), little-endian encodings, and the lemmas about them
  that the component theories use.
\<close>

unbundle bit_operations_syntax

type_synonym u8 = "8 word"
type_synonym u16 = "16 word"
type_synonym u32 = "32 word"
type_synonym u64 = "64 word"
type_synonym bytes = "u8 list"

named_theorems arr_simps "reads and writes of arrays and memory that are in range"

section \<open>Arrays indexed by machine words\<close>

text \<open>An array access of the source. Reading or writing past the end is undefined in C++ and is
  \<open>None\<close> here.\<close>

definition rd :: "'a list \<Rightarrow> u32 \<Rightarrow> 'a option" where
  "rd xs i = (if unat i < length xs then Some (xs ! unat i) else None)"

definition wr :: "'a list \<Rightarrow> u32 \<Rightarrow> 'a \<Rightarrow> 'a list option" where
  "wr xs i x = (if unat i < length xs then Some (xs[unat i := x]) else None)"

lemma rd_in [arr_simps]: "unat i < length xs \<Longrightarrow> rd xs i = Some (xs ! unat i)"
  by (simp add: rd_def)

lemma wr_in [arr_simps]: "unat i < length xs \<Longrightarrow> wr xs i x = Some (xs[unat i := x])"
  by (simp add: wr_def)

lemma rd_out: "length xs \<le> unat i \<Longrightarrow> rd xs i = None"
  by (simp add: rd_def)

lemma rd_SomeD: "rd xs i = Some x \<Longrightarrow> unat i < length xs \<and> x = xs ! unat i"
  by (simp add: rd_def split: if_splits)

lemma wr_SomeD: "wr xs i x = Some ys \<Longrightarrow> unat i < length xs \<and> ys = xs[unat i := x]"
  by (auto simp: wr_def split: if_splits)

lemma unat_inj_index: "(unat (i :: u32) = unat j) = (i = j)"
  by (simp add: word_unat_eq_iff)

lemma upd_other [arr_simps]: "c \<noteq> d \<Longrightarrow> xs[unat (d :: u32) := v] ! unat (c :: u32) = xs ! unat c"
  by (metis nth_list_update_neq unat_inj_index)

section \<open>Unsigned arithmetic that does not wrap\<close>

named_theorems u32_arith "32-bit operations read as natural numbers, where they do not wrap"

lemma unat_lt_u32: "unat (x :: u32) < 2 ^ 32"
  using unsigned_less [of x] by simp

lemma unat_lt_u32_numeral [simp]: "unat (x :: u32) < 4294967296"
  using unat_lt_u32 [of x] by simp

lemma unat_of_nat_u32 [u32_arith]: "n < 2 ^ 32 \<Longrightarrow> unat (of_nat n :: u32) = n"
  by (simp add: unat_of_nat)

lemma unat_ucast_u64: "unat (ucast (x :: u32) :: u64) = unat x"
  by (subst unsigned_ucast_eq, rule take_bit_nat_eq_self, rule order_less_trans [OF unat_lt_u32_numeral]) simp

lemma unat_add_u32 [u32_arith]: "unat a + unat b < 2 ^ 32 \<Longrightarrow> unat (a + b :: u32) = unat a + unat b"
  by (simp add: unat_word_ariths)

lemma unat_add_below: "unat (a :: u32) + n \<le> unat (b :: u32) \<Longrightarrow> unat c \<le> n \<Longrightarrow> unat (a + c) = unat a + unat c"
  by (rule unat_add_u32) (use unat_lt_u32 [of b] in linarith)

lemma unat_mult_u32 [u32_arith]: "unat a * unat b < 2 ^ 32 \<Longrightarrow> unat (a * b :: u32) = unat a * unat b"
  by (simp add: unat_word_ariths)

lemma unat_sub_u32 [u32_arith]: "unat b \<le> unat a \<Longrightarrow> unat (a - b :: u32) = unat a - unat b"
  by (simp add: unat_sub word_le_nat_alt)

section \<open>Counted loops\<close>

text \<open>\<open>for (i = a; i < a + k; ++i) body\<close>, where the body may be undefined.\<close>

primrec for_opt :: "nat \<Rightarrow> nat \<Rightarrow> (nat \<Rightarrow> 's \<Rightarrow> 's option) \<Rightarrow> 's \<Rightarrow> 's option" where
  "for_opt a 0 body s = Some s"
| "for_opt a (Suc k) body s = do { s' \<leftarrow> body a s; for_opt (Suc a) k body s' }"

text \<open>The invariant rule: a predicate on the counter and the state that every turn keeps.\<close>

lemma for_opt_rule:
  assumes "I a s"
    and "\<And>i t. a \<le> i \<Longrightarrow> i < a + k \<Longrightarrow> I i t \<Longrightarrow> \<exists>t'. body i t = Some t' \<and> I (Suc i) t'"
  shows "\<exists>s'. for_opt a k body s = Some s' \<and> I (a + k) s'"
  using assms
proof (induction k arbitrary: a s)
  case 0
  then show ?case by simp
next
  case (Suc k)
  from Suc.prems(2) [of a s] Suc.prems(1) obtain t where t: "body a s = Some t" "I (Suc a) t"
    by auto
  have "\<exists>s'. for_opt (Suc a) k body t = Some s' \<and> I (Suc a + k) s'"
    using t(2) Suc.prems(2) by (intro Suc.IH) auto
  with t(1) show ?case by simp
qed

section \<open>Flat byte memory\<close>

text \<open>\<open>mem_rd m o n\<close> and \<open>mem_wr m o d\<close> are the two ends of a \<open>memcpy\<close>: \<open>n\<close> bytes read at offset
  \<open>o\<close>, or the bytes \<open>d\<close> written there, \<open>None\<close> when the range leaves the memory.\<close>

definition mem_rd :: "'a list \<Rightarrow> nat \<Rightarrow> nat \<Rightarrow> 'a list option" where
  "mem_rd m ofs n = (if ofs + n \<le> length m then Some (take n (drop ofs m)) else None)"

definition mem_wr :: "'a list \<Rightarrow> nat \<Rightarrow> 'a list \<Rightarrow> 'a list option" where
  "mem_wr m ofs d = (if ofs + length d \<le> length m
     then Some (take ofs m @ d @ drop (ofs + length d) m) else None)"

lemma mem_rd_in [arr_simps]: "ofs + n \<le> length m \<Longrightarrow> mem_rd m ofs n = Some (take n (drop ofs m))"
  by (simp add: mem_rd_def)

lemma mem_wr_in [arr_simps]:
  "ofs + length d \<le> length m \<Longrightarrow> mem_wr m ofs d = Some (take ofs m @ d @ drop (ofs + length d) m)"
  by (simp add: mem_wr_def)

lemma mem_wr_SomeD: "mem_wr m ofs d = Some m' \<Longrightarrow>
  ofs + length d \<le> length m \<and> m' = take ofs m @ d @ drop (ofs + length d) m"
  by (auto simp: mem_wr_def split: if_splits)

lemma mem_wr_length: "mem_wr m ofs d = Some m' \<Longrightarrow> length m' = length m"
  by (auto dest!: mem_wr_SomeD)

text \<open>What a write leaves: the bytes written in its range, everything else outside it.\<close>

lemma take_drop_written: "ofs + length d \<le> length m \<Longrightarrow>
  take (length d) (drop ofs (take ofs m @ d @ drop (ofs + length d) m)) = d"
  by simp

lemma take_drop_before: "a + n \<le> ofs \<Longrightarrow> ofs + length d \<le> length m \<Longrightarrow>
  take n (drop a (take ofs m @ d @ drop (ofs + length d) m)) = take n (drop a m)"
  by (simp add: drop_take min_absorb2 min_absorb1)

lemma take_drop_after: "ofs + length d \<le> a \<Longrightarrow> ofs + length d \<le> length m \<Longrightarrow>
  take n (drop a (take ofs m @ d @ drop (ofs + length d) m)) = take n (drop a m)"
  by (simp add: min_def)

lemma take_drop_split: "take (a + b) (drop ofs m) = take a (drop ofs m) @ take b (drop (ofs + a) m)"
  by (simp add: take_add add.commute)

section \<open>Little-endian words\<close>

text \<open>The bytes of an integer of \<open>k\<close> bytes in memory order, and the integer read back
  (\<open>*reinterpret_cast<uint32_t *>(p)\<close> on the little-endian hosts the code runs on).\<close>

definition le_bytes :: "nat \<Rightarrow> 'a::len word \<Rightarrow> bytes" where
  "le_bytes k w = map (\<lambda>i. ucast (drop_bit (8 * i) w)) [0..<k]"

definition le_word :: "bytes \<Rightarrow> 'a::len word" where
  "le_word bs = foldr (\<lambda>b acc. push_bit 8 acc OR ucast b) bs 0"

lemma length_le_bytes [simp]: "length (le_bytes k w) = k"
  by (simp add: le_bytes_def)

lemma le_word_Nil [simp]: "le_word [] = 0"
  by (simp add: le_word_def)

lemma le_word_Cons: "le_word (b # bs) = push_bit 8 (le_word bs) OR ucast b"
  by (simp add: le_word_def)

lemma bit_le_word: "bit (le_word bs :: 'a::len word) n \<longleftrightarrow>
  n < LENGTH('a) \<and> n div 8 < length bs \<and> bit (bs ! (n div 8)) (n mod 8)"
proof (induction bs arbitrary: n)
  case Nil
  then show ?case by simp
next
  case (Cons b bs)
  show ?case
  proof (cases "n < 8")
    case True
    then show ?thesis by (auto simp: le_word_Cons bit_simps dest: bit_imp_le_length)
  next
    case False
    then have "\<not> bit b n" and "n div 8 = Suc ((n - 8) div 8)" and "n mod 8 = (n - 8) mod 8"
      by (auto dest: bit_imp_le_length simp: le_div_geq le_mod_geq)
    with False show ?thesis by (auto simp: le_word_Cons bit_simps Cons.IH)
  qed
qed

lemma le_word_bytes: "LENGTH('a) \<le> 8 * k \<Longrightarrow> le_word (le_bytes k (w :: 'a::len word)) = w"
  by (rule bit_word_eqI) (auto simp: bit_le_word le_bytes_def bit_simps less_mult_imp_div_less)

lemma le_word_bytes32 [simp]: "le_word (le_bytes 4 (w :: u32)) = w"
  by (simp add: le_word_bytes)

lemma le_word_bytes64 [simp]: "le_word (le_bytes 8 (w :: u64)) = w"
  by (simp add: le_word_bytes)

section \<open>Numerals in a base\<close>

text \<open>The digits of a number, most significant first, as \<open>printf\<close> and the output streams write them.\<close>

definition digit :: "nat \<Rightarrow> char" where
  "digit d = char_of (if d < 10 then 48 + d else 87 + d)"

fun show_num :: "nat \<Rightarrow> nat \<Rightarrow> string" where
  "show_num base n = (if n < base \<or> base < 2 then [digit n] else show_num base (n div base) @ [digit (n mod base)])"

declare show_num.simps [simp del]

lemma show_num_Nil [simp]: "show_num base n \<noteq> []"
  by (subst show_num.simps) simp

text \<open>\<open>%i\<close> of an \<open>int\<close>.\<close>

definition show_int :: "int \<Rightarrow> string" where
  "show_int i = (if i < 0 then CHR ''-'' # show_num 10 (nat (- i)) else show_num 10 (nat i))"

end
