(* ===== verification/Block_Pool.thy ===== *)
theory Block_Pool
  imports Prelude
begin

text \<open>
  The interface between the free list and the block store: a pool of blocks from which one is taken and to
  which one is given back, last in, first out. The lemmas for clients are proved inside the locale; the
  free list is shown to satisfy it in \<open>Shm_List\<close>.
\<close>

datatype pool_op = Op_take | Op_give u32

text \<open>The pool as a stack: taking from an empty one answers \<open>none\<close>, giving answers the block that was on
  top.\<close>

definition top_of :: "u32 \<Rightarrow> u32 list \<Rightarrow> u32" where
  "top_of none F = (case F of [] \<Rightarrow> none | c # _ \<Rightarrow> c)"

fun stack_step :: "u32 \<Rightarrow> u32 list \<Rightarrow> pool_op \<Rightarrow> u32 \<times> u32 list" where
  "stack_step none F Op_take = (top_of none F, tl F)"
| "stack_step none F (Op_give i) = (top_of none F, i # F)"

fun stack_run :: "u32 \<Rightarrow> u32 list \<Rightarrow> pool_op list \<Rightarrow> u32 list \<times> u32 list" where
  "stack_run none F [] = ([], F)"
| "stack_run none F (c # cs) =
     (let (r, F) = stack_step none F c; (rs, F) = stack_run none F cs in (r # rs, F))"

text \<open>Only blocks that are out may be given back.\<close>

fun op_allowed :: "(u32 \<Rightarrow> bool) \<Rightarrow> u32 list \<Rightarrow> pool_op \<Rightarrow> bool" where
  "op_allowed block F Op_take = True"
| "op_allowed block F (Op_give i) = (block i \<and> i \<notin> set F)"

fun run_allowed :: "u32 \<Rightarrow> (u32 \<Rightarrow> bool) \<Rightarrow> u32 list \<Rightarrow> pool_op list \<Rightarrow> bool" where
  "run_allowed none block F [] = True"
| "run_allowed none block F (c # cs) =
     (op_allowed block F c \<and> run_allowed none block (snd (stack_step none F c)) cs)"

fun pool_step :: "('s \<Rightarrow> (u32 \<times> 's) option) \<Rightarrow> ('s \<Rightarrow> u32 \<Rightarrow> (u32 \<times> 's) option) \<Rightarrow> 's \<Rightarrow> pool_op \<Rightarrow> (u32 \<times> 's) option" where
  "pool_step take_one give s Op_take = take_one s"
| "pool_step take_one give s (Op_give i) = give s i"

fun pool_run :: "('s \<Rightarrow> (u32 \<times> 's) option) \<Rightarrow> ('s \<Rightarrow> u32 \<Rightarrow> (u32 \<times> 's) option) \<Rightarrow> 's \<Rightarrow> pool_op list \<Rightarrow>
    (u32 list \<times> 's) option" where
  "pool_run take_one give s [] = Some ([], s)"
| "pool_run take_one give s (c # cs) = do {
     (r, s) \<leftarrow> pool_step take_one give s c;
     (rs, s) \<leftarrow> pool_run take_one give s cs;
     Some (r # rs, s)
   }"

locale block_pool =
  fixes rep :: "'s \<Rightarrow> u32 list \<Rightarrow> bool"
    and block :: "u32 \<Rightarrow> bool"
    and none :: u32
    and take_one :: "'s \<Rightarrow> (u32 \<times> 's) option"
    and give :: "'s \<Rightarrow> u32 \<Rightarrow> (u32 \<times> 's) option"
  assumes rep_blocks: "rep s F \<Longrightarrow> distinct F \<and> (\<forall>i \<in> set F. block i) \<and> none \<notin> set F"
    and take_ok: "rep s F \<Longrightarrow> \<exists>s'. take_one s = Some (top_of none F, s') \<and> rep s' (tl F)"
    and give_ok: "rep s F \<Longrightarrow> block i \<Longrightarrow> i \<notin> set F \<Longrightarrow> \<exists>s'. give s i = Some (top_of none F, s') \<and> rep s' (i # F)"
begin

lemma step_ok: "rep s F \<Longrightarrow> op_allowed block F c \<Longrightarrow>
  \<exists>s'. pool_step take_one give s c = Some (fst (stack_step none F c), s') \<and> rep s' (snd (stack_step none F c))"
  using take_ok give_ok by (cases c) auto

lemma run_ok: "rep s F \<Longrightarrow> run_allowed none block F cs \<Longrightarrow>
  \<exists>s'. pool_run take_one give s cs = Some (fst (stack_run none F cs), s') \<and> rep s' (snd (stack_run none F cs))"
proof (induction cs arbitrary: s F)
  case Nil
  then show ?case by simp
next
  case (Cons c cs)
  then obtain s1 where 1: "pool_step take_one give s c = Some (fst (stack_step none F c), s1)"
    "rep s1 (snd (stack_step none F c))" using step_ok [of s F c] by auto
  with Cons.IH [OF 1(2)] Cons.prems(2) show ?case by (auto simp: Let_def split: prod.splits)
qed

text \<open>What is given comes back first, and what is taken is not in the pool any more.\<close>

lemma give_take: "rep s F \<Longrightarrow> block i \<Longrightarrow> i \<notin> set F \<Longrightarrow>
  \<exists>r s1 s2. give s i = Some (r, s1) \<and> take_one s1 = Some (i, s2) \<and> rep s2 F"
  using give_ok [of s F i] take_ok [of _ "i # F"] by (fastforce simp: top_of_def)

lemma take_fresh: "rep s F \<Longrightarrow> F \<noteq> [] \<Longrightarrow> \<exists>i s'. take_one s = Some (i, s') \<and> i \<noteq> none \<and> rep s' (tl F) \<and> i \<notin> set (tl F)"
  using take_ok [of s F] rep_blocks [of s F] by (cases F) (auto simp: top_of_def)

end

end
