(* ===== verification/Shm_List.thy ===== *)
theory Shm_List
  imports Block_Pool
begin

text \<open>
  \<open>CncrLst\<close> of \<open>shm_lib/simdb.hpp\<close>: the free list of block indices. It is an array \<open>s_lv\<close> in which
  the entry of a free block is the index of the next free block, and a 64-bit head (a version and
  an index) that is only changed by compare-and-swap. The operations are given with their
  compare-and-swap loops over one shared state; the theory \<open>Shm_List_Conc\<close> interleaves them.
  \<open>free_rep s F\<close> says that the array and head of \<open>s\<close> hold the list \<open>F\<close>.
\<close>

section \<open>State and operations\<close>

record head =
  hd_ver :: u32
  hd_idx :: u32

record cncr_lst =
  cl_lv :: "u32 list"
  cl_head :: head

definition LIST_END :: u32 where "LIST_END = 0xFFFFFFFF"
definition NXT_VER_SPECIAL :: u32 where "NXT_VER_SPECIAL = 0xFFFFFFFF"

definition incVersion :: "u32 \<Rightarrow> u32" where
  "incVersion v = (if v = NXT_VER_SPECIAL then 1 else v + 1)"

text \<open>The owner's constructor links \<open>0, 1, \<dots>, size - 1\<close>; \<open>mem\<close> is what the shared memory held.\<close>

definition CncrLst_init :: "u32 \<Rightarrow> u32 list \<Rightarrow> cncr_lst option" where
  "CncrLst_init sz mem = do {
     lv \<leftarrow> for_opt 0 (unat (sz - 1)) (\<lambda>i lv. wr lv (of_nat i) (of_nat i + 1)) mem;
     lv \<leftarrow> wr lv (sz - 1) LIST_END;
     Some \<lparr>cl_lv = lv, cl_head = \<lparr>hd_ver = 0, hd_idx = 0\<rparr>\<rparr>
   }"

text \<open>\<open>compare_exchange_strong\<close>: on success the head is replaced, on failure the expected value is
  replaced by the head found.\<close>

definition cas_head :: "cncr_lst \<Rightarrow> head \<Rightarrow> head \<Rightarrow> bool \<times> head \<times> cncr_lst" where
  "cas_head s expected desired =
     (if cl_head s = expected then (True, expected, s\<lparr>cl_head := desired\<rparr>)
      else (False, cl_head s, s))"

partial_function (option) nxt_loop :: "cncr_lst \<Rightarrow> head \<Rightarrow> (u32 \<times> cncr_lst) option" where
  "nxt_loop s cur =
     (if hd_idx cur = LIST_END then Some (LIST_END, s)
      else do {
        n \<leftarrow> rd (cl_lv s) (hd_idx cur);
        (case cas_head s cur \<lparr>hd_ver = incVersion (hd_ver cur), hd_idx = n\<rparr> of
           (ok, cur', s') \<Rightarrow> if ok then Some (hd_idx cur, s') else nxt_loop s' cur')
      })"

definition lst_nxt :: "cncr_lst \<Rightarrow> (u32 \<times> cncr_lst) option" where
  "lst_nxt s = nxt_loop s (cl_head s)"

text \<open>\<open>free(st, en)\<close> gives back the run of indices from \<open>st\<close> to \<open>en\<close>; \<open>free(idx)\<close> one index.\<close>

partial_function (option) free_loop :: "cncr_lst \<Rightarrow> u32 \<Rightarrow> u32 \<Rightarrow> head \<Rightarrow> (u32 \<times> cncr_lst) option" where
  "free_loop s st en cur = do {
     lv \<leftarrow> wr (cl_lv s) en (hd_idx cur);
     (case cas_head (s\<lparr>cl_lv := lv\<rparr>) cur \<lparr>hd_ver = hd_ver cur + 1, hd_idx = st\<rparr> of
        (ok, cur', s') \<Rightarrow> if ok then Some (hd_idx cur, s') else free_loop s' st en cur')
   }"

definition lst_free :: "cncr_lst \<Rightarrow> u32 \<Rightarrow> u32 \<Rightarrow> (u32 \<times> cncr_lst) option" where
  "lst_free s st en = free_loop s st en (cl_head s)"

definition lst_free1 :: "cncr_lst \<Rightarrow> u32 \<Rightarrow> (u32 \<times> cncr_lst) option" where
  "lst_free1 s i = free_loop s i i (cl_head s)"

definition lst_count :: "cncr_lst \<Rightarrow> u32" where "lst_count s = hd_ver (cl_head s)"
definition lst_idx :: "cncr_lst \<Rightarrow> u32" where "lst_idx s = hd_idx (cl_head s)"

partial_function (option) lnkCnt_loop :: "u32 list \<Rightarrow> u32 \<Rightarrow> u32 \<Rightarrow> u32 option" where
  "lnkCnt_loop lv cur cnt =
     (if cur \<noteq> LIST_END then do { n \<leftarrow> rd lv cur; lnkCnt_loop lv n (cnt + 1) } else Some cnt)"

definition lst_lnkCnt :: "cncr_lst \<Rightarrow> u32 option" where
  "lst_lnkCnt s = lnkCnt_loop (cl_lv s) (lst_idx s) 0"

text \<open>The loops as code equations, to evaluate them on concrete states.\<close>

declare nxt_loop.simps [code] free_loop.simps [code] lnkCnt_loop.simps [code]

section \<open>The list a state holds\<close>

text \<open>\<open>lv_path lv i cs e\<close>: following the links from \<open>i\<close> visits the indices \<open>cs\<close> and arrives at \<open>e\<close>.\<close>

primrec lv_path :: "u32 list \<Rightarrow> u32 \<Rightarrow> u32 list \<Rightarrow> u32 \<Rightarrow> bool" where
  "lv_path lv i [] e \<longleftrightarrow> i = e"
| "lv_path lv i (c # cs) e \<longleftrightarrow> i = c \<and> unat c < length lv \<and> lv_path lv (lv ! unat c) cs e"

definition free_rep :: "cncr_lst \<Rightarrow> u32 list \<Rightarrow> bool" where
  "free_rep s F \<longleftrightarrow> length (cl_lv s) < 2 ^ 32 \<and> distinct F \<and>
     lv_path (cl_lv s) (hd_idx (cl_head s)) F LIST_END"

lemma unat_LIST_END [simp]: "unat LIST_END = 2 ^ 32 - 1"
  by (simp add: LIST_END_def)

lemma lv_path_append: "lv_path lv i (as @ bs) e \<longleftrightarrow> (\<exists>j. lv_path lv i as j \<and> lv_path lv j bs e)"
  by (induction as arbitrary: i) auto

lemma lv_path_bound: "lv_path lv i cs e \<Longrightarrow> c \<in> set cs \<Longrightarrow> unat c < length lv"
  by (induction cs arbitrary: i) auto

lemma lv_path_upd: "u \<notin> set cs \<Longrightarrow> lv_path (lv[unat u := v]) i cs e \<longleftrightarrow> lv_path lv i cs e"
  by (induction cs arbitrary: i) (auto simp: nth_list_update unat_inj_index)

lemma not_LIST_END: "unat c < n \<Longrightarrow> n < 2 ^ 32 \<Longrightarrow> c \<noteq> LIST_END"
  by auto

lemma lv_path_det: "lv_path lv i as LIST_END \<Longrightarrow> lv_path lv i bs LIST_END \<Longrightarrow>
  length lv < 2 ^ 32 \<Longrightarrow> as = bs"
proof (induction as arbitrary: i bs)
  case Nil
  then show ?case by (cases bs) (auto dest: not_LIST_END)
next
  case (Cons a as)
  then show ?case by (cases bs) (auto dest: not_LIST_END)
qed

lemma free_rep_Nil: "free_rep s [] \<longleftrightarrow> length (cl_lv s) < 2 ^ 32 \<and> hd_idx (cl_head s) = LIST_END"
  by (auto simp: free_rep_def)

lemma free_rep_Cons: "free_rep s (c # F) \<longleftrightarrow> length (cl_lv s) < 2 ^ 32 \<and> unat c < length (cl_lv s) \<and>
  c \<notin> set F \<and> distinct F \<and> hd_idx (cl_head s) = c \<and> lv_path (cl_lv s) (cl_lv s ! unat c) F LIST_END"
  by (auto simp: free_rep_def)

lemma free_rep_bound: "free_rep s F \<Longrightarrow> c \<in> set F \<Longrightarrow> unat c < length (cl_lv s)"
  by (auto simp: free_rep_def dest: lv_path_bound)

lemma free_rep_length: "free_rep s F \<Longrightarrow> length F \<le> length (cl_lv s)"
proof -
  assume r: "free_rep s F"
  then have "unat ` set F \<subseteq> {..<length (cl_lv s)}"
    by (auto dest: free_rep_bound)
  moreover from r have "card (unat ` set F) = length F"
    by (simp add: card_image inj_on_def unat_inj_index distinct_card free_rep_def)
  ultimately show ?thesis
    by (metis card_lessThan card_mono finite_lessThan)
qed

section \<open>What the operations do to the list\<close>

lemma nxt_empty: "free_rep s [] \<Longrightarrow> lst_nxt s = Some (LIST_END, s)"
  by (simp add: lst_nxt_def nxt_loop.simps free_rep_Nil)

definition popped :: "cncr_lst \<Rightarrow> u32 \<Rightarrow> cncr_lst" where
  "popped s c = s\<lparr>cl_head := \<lparr>hd_ver = incVersion (hd_ver (cl_head s)), hd_idx = cl_lv s ! unat c\<rparr>\<rparr>"

lemma popped_lv [simp]: "cl_lv (popped s c) = cl_lv s"
  by (simp add: popped_def)

lemma nxt_Cons: "free_rep s (c # F) \<Longrightarrow> lst_nxt s = Some (c, popped s c) \<and> free_rep (popped s c) F"
  by (auto simp: lst_nxt_def nxt_loop.simps free_rep_Cons cas_head_def popped_def arr_simps
      free_rep_def dest: not_LIST_END)

definition pushed :: "cncr_lst \<Rightarrow> u32 \<Rightarrow> u32 \<Rightarrow> cncr_lst" where
  "pushed s st en = \<lparr>cl_lv = (cl_lv s)[unat en := hd_idx (cl_head s)],
     cl_head = \<lparr>hd_ver = hd_ver (cl_head s) + 1, hd_idx = st\<rparr>\<rparr>"

lemma lst_free_eq: "unat en < length (cl_lv s) \<Longrightarrow>
  lst_free s st en = Some (hd_idx (cl_head s), pushed s st en)"
  by (simp add: lst_free_def free_loop.simps arr_simps cas_head_def pushed_def)

lemma free_rep_pushed:
  assumes "free_rep s F" and "lv_path (cl_lv s) st cs en" and "unat en < length (cl_lv s)"
    and "distinct (cs @ en # F)"
  shows "free_rep (pushed s st en) (cs @ en # F)"
  using assms by (auto simp: free_rep_def pushed_def lv_path_append lv_path_upd)

lemma free_single: "free_rep s F \<Longrightarrow> unat i < length (cl_lv s) \<Longrightarrow> i \<notin> set F \<Longrightarrow>
  lst_free1 s i = Some (hd_idx (cl_head s), pushed s i i) \<and> free_rep (pushed s i i) (i # F)"
  using free_rep_pushed [of s F i "[]" i]
  by (simp add: lst_free1_def free_loop.simps arr_simps cas_head_def pushed_def free_rep_def)

lemma lnkCnt_path: "lv_path lv i F LIST_END \<Longrightarrow> length lv < 2 ^ 32 \<Longrightarrow>
  lnkCnt_loop lv i cnt = Some (cnt + of_nat (length F))"
proof (induction F arbitrary: i cnt)
  case Nil
  then show ?case by (simp add: lnkCnt_loop.simps)
next
  case (Cons c F)
  then show ?case by (auto simp: lnkCnt_loop.simps [of lv c] arr_simps ac_simps dest: not_LIST_END)
qed

lemma lst_lnkCnt_eq: "free_rep s F \<Longrightarrow> lst_lnkCnt s = Some (of_nat (length F))"
  using lnkCnt_path [of "cl_lv s" "hd_idx (cl_head s)" F 0]
  by (auto simp: lst_lnkCnt_def lst_idx_def free_rep_def)

text \<open>A list of \<open>n\<close> blocks is a pool of the blocks below \<open>n\<close>.\<close>

interpretation lst: block_pool "\<lambda>s F. free_rep s F \<and> length (cl_lv s) = n" "\<lambda>i. unat i < n" LIST_END lst_nxt lst_free1 for n
proof unfold_locales
  show "distinct F \<and> (\<forall>i \<in> set F. unat i < n) \<and> LIST_END \<notin> set F" if r: "free_rep s F \<and> length (cl_lv s) = n" for s F
  proof -
    have "i \<noteq> LIST_END \<and> unat i < n" if "i \<in> set F" for i
      using r free_rep_bound [of s F i] that not_LIST_END [of i n] by (simp add: free_rep_def)
    then show ?thesis using r by (auto simp: free_rep_def)
  qed
  show "\<exists>s'. lst_nxt s = Some (top_of LIST_END F, s') \<and> free_rep s' (tl F) \<and> length (cl_lv s') = n"
    if r: "free_rep s F \<and> length (cl_lv s) = n" for s F
    using r nxt_empty [of s] nxt_Cons [of s] by (cases F) (auto simp: top_of_def)
  show "\<exists>s'. lst_free1 s i = Some (top_of LIST_END F, s') \<and> free_rep s' (i # F) \<and> length (cl_lv s') = n"
    if r: "free_rep s F \<and> length (cl_lv s) = n" and "unat i < n" "i \<notin> set F" for s F i
    using that free_single [of s F i] by (cases F) (auto simp: top_of_def free_rep_Nil free_rep_Cons pushed_def)
qed

section \<open>The list after construction\<close>

lemma linked_path:
  assumes "\<And>j. j + 1 < n \<Longrightarrow> lv ! j = of_nat j + 1" and "lv ! (n - 1) = LIST_END"
    and "length lv = n" and "n < 2 ^ 32" and "k < n"
  shows "lv_path lv (of_nat k) (map of_nat [k..<n]) LIST_END"
  using \<open>k < n\<close>
proof (induction "n - k" arbitrary: k)
  case 0
  then show ?case by simp
next
  case (Suc d)
  have uk: "unat (of_nat k :: u32) = k"
    using Suc.prems \<open>n < 2 ^ 32\<close> by (simp add: u32_arith)
  show ?case
  proof (cases "Suc k < n")
    case True
    with Suc have "lv_path lv (of_nat (Suc k)) (map of_nat [Suc k..<n]) LIST_END"
      by (intro Suc.hyps(1)) auto
    with True uk assms(1) [of k] assms(3) show ?thesis
      by (simp add: upt_conv_Cons [of k n] ac_simps)
  next
    case False
    with Suc.prems have "n = Suc k" by simp
    with uk assms(2,3) show ?thesis by simp
  qed
qed

lemma CncrLst_init_free_rep:
  assumes "length mem = unat sz" and "0 < unat sz"
  shows "\<exists>s. CncrLst_init sz mem = Some s \<and> length (cl_lv s) = unat sz \<and>
    free_rep s (map of_nat [0..<unat sz])"
proof -
  let ?n = "unat sz"
  let ?I = "\<lambda>i lv. length lv = ?n \<and> (\<forall>j<i. lv ! j = (of_nat j + 1 :: u32))"
  let ?body = "\<lambda>i lv. wr lv (of_nat i) (of_nat i + 1 :: u32)"
  have n32: "?n < 2 ^ 32" by simp
  have pred: "unat (sz - 1) = ?n - 1"
    using assms(2) by (simp add: u32_arith)
  have idx: "unat (of_nat i :: u32) = i" if "i < ?n" for i
    using order_less_trans [OF that n32] by (rule unat_of_nat_u32)
  have inj: "distinct (map of_nat [0..<?n] :: u32 list)"
    unfolding distinct_map inj_on_def using idx by (metis atLeastLessThan_iff distinct_upt set_upt)
  have "\<exists>lv. for_opt 0 (?n - 1) ?body mem = Some lv \<and> ?I (0 + (?n - 1)) lv"
    using assms(1)
    by (intro for_opt_rule [where I = ?I]) (auto simp: wr_def idx nth_list_update less_Suc_eq)
  then obtain lv where lv: "for_opt 0 (?n - 1) ?body mem = Some lv" "?I (?n - 1) lv" by auto
  let ?s = "\<lparr>cl_lv = lv[?n - 1 := LIST_END], cl_head = \<lparr>hd_ver = 0, hd_idx = 0\<rparr>\<rparr>"
  have "CncrLst_init sz mem = Some ?s"
    using lv pred assms(2) by (simp add: CncrLst_init_def wr_def)
  moreover have "lv_path (lv[?n - 1 := LIST_END]) (of_nat 0) (map of_nat [0..<?n]) LIST_END"
    using lv(2) assms(2) n32 by (intro linked_path) auto
  ultimately show ?thesis
    using lv(2) inj by (auto simp: free_rep_def)
qed

end
