(* ===== verification/Shm_Store.thy ===== *)
theory Shm_Store
  imports Shm_List
begin

text \<open>
  \<open>CncrStr\<close> of \<open>shm_lib/simdb.hpp\<close>: the block store. A value is kept in a chain of fixed-size
  blocks; block \<open>i\<close> has a \<open>BlkLst\<close> record (link, version, lengths, hash, reader count) in \<open>s_bls\<close> and
  its bytes at offset \<open>i * m_blockSize\<close> of the block space. The operations take the store and return
  it with their result; \<open>None\<close> is undefined behaviour of the source (an access outside an array, the
  block space or a caller's buffer) or a loop that does not end.
\<close>

section \<open>Data\<close>

record key_readers =
  kr_isKey :: bool
  kr_isDeleted :: bool
  kr_readers :: "30 word"

record blk_lst =
  bl_kr :: key_readers
  bl_idx :: u32
  bl_version :: u32
  bl_len :: u32
  bl_klen :: u32
  bl_hash :: u32

record ver_idx =
  vi_idx :: u32
  vi_version :: u32

record cncr_str =
  cs_cl :: cncr_lst
  cs_bls :: "blk_lst list"
  cs_blks :: bytes
  cs_version :: u64
  cs_blockSize :: u32

definition BlkLst :: "bool \<Rightarrow> 30 word \<Rightarrow> u32 \<Rightarrow> u32 \<Rightarrow> u32 \<Rightarrow> u32 \<Rightarrow> u32 \<Rightarrow> blk_lst" where
  "BlkLst k r i v l kl h = \<lparr>bl_kr = \<lparr>kr_isKey = k, kr_isDeleted = False, kr_readers = r\<rparr>,
     bl_idx = i, bl_version = v, bl_len = l, bl_klen = kl, bl_hash = h\<rparr>"

definition BlkLst0 :: blk_lst where "BlkLst0 = BlkLst False 0 0 0 0 0 0"

definition List_End :: ver_idx where "List_End = \<lparr>vi_idx = LIST_END, vi_version = 0\<rparr>"

definition IsListEnd :: "ver_idx \<Rightarrow> bool" where "IsListEnd vi \<longleftrightarrow> vi = List_End"

datatype match = MATCH_FALSE | MATCH_TRUE | MATCH_REMOVED

section \<open>Construction\<close>

text \<open>The owner clears every \<open>BlkLst\<close>, links the free list and sets the version counter to 1.
  \<open>assert(blockSize > sizeof(i32))\<close> makes smaller block sizes undefined.\<close>

definition CncrStr_init :: "u32 \<Rightarrow> u32 \<Rightarrow> u32 list \<Rightarrow> bytes \<Rightarrow> cncr_str option" where
  "CncrStr_init blockSize blockCount lmem bmem = do {
     cl \<leftarrow> CncrLst_init blockCount lmem;
     (if 4 < blockSize
      then Some \<lparr>cs_cl = cl, cs_bls = replicate (unat blockCount) BlkLst0, cs_blks = bmem,
             cs_version = 1, cs_blockSize = blockSize\<rparr>
      else None)
   }"

section \<open>Reader counts\<close>

definition cas_kr :: "cncr_str \<Rightarrow> u32 \<Rightarrow> key_readers \<Rightarrow> key_readers \<Rightarrow>
    (bool \<times> key_readers \<times> cncr_str) option" where
  "cas_kr s i expected desired = do {
     bl \<leftarrow> rd (cs_bls s) i;
     if bl_kr bl = expected then do {
       bls \<leftarrow> wr (cs_bls s) i (bl\<lparr>bl_kr := desired\<rparr>);
       Some (True, expected, s\<lparr>cs_bls := bls\<rparr>)
     } else Some (False, bl_kr bl, s)
   }"

partial_function (option) incReaders_loop ::
    "cncr_str \<Rightarrow> u32 \<Rightarrow> u32 \<Rightarrow> key_readers \<Rightarrow> (blk_lst \<times> cncr_str) option" where
  "incReaders_loop s i version cur = do {
     bl \<leftarrow> rd (cs_bls s) i;
     if bl_version bl \<noteq> version \<or> sint (kr_readers cur) < 0 \<or> kr_isDeleted cur then Some (BlkLst0, s)
     else do {
       r \<leftarrow> cas_kr s i cur (cur\<lparr>kr_readers := kr_readers cur + 1\<rparr>);
       (case r of (ok, cur', s') \<Rightarrow>
          if ok then do { bl' \<leftarrow> rd (cs_bls s') i; Some (bl', s') }
          else incReaders_loop s' i version cur')
     }
   }"

definition incReaders :: "cncr_str \<Rightarrow> u32 \<Rightarrow> u32 \<Rightarrow> (blk_lst \<times> cncr_str) option" where
  "incReaders s i version = do { bl \<leftarrow> rd (cs_bls s) i; incReaders_loop s i version (bl_kr bl) }"

text \<open>Freeing a chain: its records get version 0 and its indices go back to the free list. The loop
  writes the version one step behind the walk, so the last record of a longer chain keeps its own.\<close>

partial_function (option) findEndSetVersion_loop ::
    "blk_lst list \<Rightarrow> u32 \<Rightarrow> u32 \<Rightarrow> u32 \<Rightarrow> (u32 \<times> blk_lst list) option" where
  "findEndSetVersion_loop bls cur prev version =
     (if cur \<noteq> LIST_END then do {
        bp \<leftarrow> rd bls prev;
        bls' \<leftarrow> wr bls prev (bp\<lparr>bl_version := version\<rparr>);
        bc \<leftarrow> rd bls' cur;
        findEndSetVersion_loop bls' (bl_idx bc) cur version
      } else Some (prev, bls))"

definition findEndSetVersion :: "cncr_str \<Rightarrow> u32 \<Rightarrow> u32 \<Rightarrow> (u32 \<times> cncr_str) option" where
  "findEndSetVersion s blkIdx version = do {
     (en, bls) \<leftarrow> findEndSetVersion_loop (cs_bls s) blkIdx blkIdx version;
     Some (en, s\<lparr>cs_bls := bls\<rparr>)
   }"

definition str_doFree :: "cncr_str \<Rightarrow> u32 \<Rightarrow> cncr_str option" where
  "str_doFree s blkIdx = do {
     (listEnd, s) \<leftarrow> findEndSetVersion s blkIdx 0;
     (_, cl) \<leftarrow> lst_free (cs_cl s) blkIdx listEnd;
     Some (s\<lparr>cs_cl := cl\<rparr>)
   }"

partial_function (option) decReadersOrDel_loop ::
    "cncr_str \<Rightarrow> u32 \<Rightarrow> u32 \<Rightarrow> bool \<Rightarrow> key_readers \<Rightarrow> (bool \<times> cncr_str) option" where
  "decReadersOrDel_loop s i version del cur = do {
     bl \<leftarrow> rd (cs_bls s) i;
     if bl_version bl \<noteq> version then Some (False, s)
     else
       (let doDelete = (if del then kr_readers cur = 0 \<and> \<not> kr_isDeleted cur
                        else kr_readers cur = 1 \<and> kr_isDeleted cur);
            nxt = (if del then cur\<lparr>kr_isDeleted := True\<rparr>
                   else cur\<lparr>kr_readers := kr_readers cur - 1\<rparr>)
        in do {
          r \<leftarrow> cas_kr s i cur nxt;
          (case r of (ok, cur', s') \<Rightarrow>
             if ok then (if doDelete then do { s'' \<leftarrow> str_doFree s' i; Some (False, s'') }
                         else Some (True, s'))
             else decReadersOrDel_loop s' i version del cur')
        })
   }"

definition decReadersOrDel :: "cncr_str \<Rightarrow> u32 \<Rightarrow> u32 \<Rightarrow> bool \<Rightarrow> (bool \<times> cncr_str) option" where
  "decReadersOrDel s i version del = do {
     bl \<leftarrow> rd (cs_bls s) i;
     decReadersOrDel_loop s i version del (bl_kr bl)
   }"

definition str_free :: "cncr_str \<Rightarrow> u32 \<Rightarrow> u32 \<Rightarrow> (bool \<times> cncr_str) option" where
  "str_free s blkIdx version = decReadersOrDel s blkIdx version True"

section \<open>Blocks\<close>

definition nxtBlock :: "cncr_str \<Rightarrow> u32 \<Rightarrow> ver_idx option" where
  "nxtBlock s blkIdx = do {
     bl \<leftarrow> rd (cs_bls s) blkIdx;
     Some \<lparr>vi_idx = bl_idx bl, vi_version = bl_version bl\<rparr>
   }"

definition blockFreePtr :: "cncr_str \<Rightarrow> u32 \<Rightarrow> nat" where
  "blockFreePtr s blkIdx = unat (blkIdx * cs_blockSize s)"

definition blocksNeeded :: "cncr_str \<Rightarrow> u32 \<Rightarrow> u32" where
  "blocksNeeded s l = l div cs_blockSize s + (if l mod cs_blockSize s \<noteq> 0 then 1 else 0)"

text \<open>\<open>writeBlock\<close> copies from a pointer \<open>src\<close> (the bytes from it to the end of its buffer); a length
  of 0 stands for a whole block.\<close>

definition writeBlock :: "cncr_str \<Rightarrow> u32 \<Rightarrow> bytes \<Rightarrow> u32 \<Rightarrow> u32 \<Rightarrow> (u32 \<times> cncr_str) option" where
  "writeBlock s blkIdx src l ofst =
     (let cpyLen = (if l = 0 then cs_blockSize s else l)
      in do {
        d \<leftarrow> mem_rd src 0 (unat cpyLen);
        m \<leftarrow> mem_wr (cs_blks s) (blockFreePtr s blkIdx + unat ofst) d;
        Some (cpyLen, s\<lparr>cs_blks := m\<rparr>)
      })"

text \<open>\<open>readBlock\<close> copies into the caller's buffer \<open>out\<close> at position \<open>b\<close>.\<close>

definition readBlock :: "cncr_str \<Rightarrow> u32 \<Rightarrow> u32 \<Rightarrow> bytes \<Rightarrow> nat \<Rightarrow> u32 \<Rightarrow> u32 \<Rightarrow>
    (u32 \<times> bytes \<times> cncr_str) option" where
  "readBlock s blkIdx version out b ofst l = do {
     (bl, s) \<leftarrow> incReaders s blkIdx version;
     if bl_version bl = 0 then Some (0, out, s)
     else
       (let cpyLen = (if l = 0 then cs_blockSize s - ofst else l)
        in do {
          d \<leftarrow> mem_rd (cs_blks s) (blockFreePtr s blkIdx + unat ofst) (unat cpyLen);
          out' \<leftarrow> mem_wr out b d;
          (_, s') \<leftarrow> decReadersOrDel s blkIdx version False;
          Some (cpyLen, out', s')
        })
   }"

section \<open>Allocation\<close>

text \<open>The loop that takes the \<open>blocks - 1\<close> further blocks and links them; \<open>None\<close> in the first
  component of the result says the free list ran out.\<close>

primrec alloc_loop :: "nat \<Rightarrow> cncr_str \<Rightarrow> u32 \<Rightarrow> u32 \<Rightarrow> u32 \<Rightarrow> (u32 option \<times> cncr_str) option" where
  "alloc_loop 0 s ver sz cur = Some (Some cur, s)"
| "alloc_loop (Suc k) s ver sz cur = do {
     (nxt, cl) \<leftarrow> lst_nxt (cs_cl s);
     let s = s\<lparr>cs_cl := cl\<rparr>;
     if nxt = LIST_END then Some (None, s)
     else do {
       bls \<leftarrow> wr (cs_bls s) cur (BlkLst False 0 nxt ver sz 0 0);
       alloc_loop k (s\<lparr>cs_bls := bls\<rparr>) ver sz nxt
     }
   }"

text \<open>\<open>alloc\<close>; its \<open>out_blocks\<close> is the null pointer of its only caller.\<close>

definition str_alloc :: "cncr_str \<Rightarrow> u32 \<Rightarrow> u32 \<Rightarrow> u32 \<Rightarrow> (ver_idx \<times> cncr_str) option" where
  "str_alloc s sz klen hash = do {
     (st, cl) \<leftarrow> lst_nxt (cs_cl s);
     let blocks = blocksNeeded s sz;
     let s = s\<lparr>cs_cl := cl\<rparr>;
     if st = LIST_END then Some (List_End, s)
     else do {
       let ver = ucast (cs_version s);
       let s = s\<lparr>cs_version := cs_version s + 1\<rparr>;
       (last_blk, s) \<leftarrow> alloc_loop (unat (blocks - 1)) s ver sz st;
       (case last_blk of
          None \<Rightarrow> do { (_, s) \<leftarrow> str_free s st ver; Some (\<lparr>vi_idx = LIST_END, vi_version = 0\<rparr>, s) }
        | Some cur \<Rightarrow> do {
            bls \<leftarrow> wr (cs_bls s) cur (BlkLst False 0 LIST_END ver sz 0 0);
            b \<leftarrow> rd bls st;
            bls \<leftarrow> wr bls st (b\<lparr>bl_kr := (bl_kr b)\<lparr>kr_isKey := True, kr_isDeleted := False\<rparr>,
                              bl_hash := hash, bl_len := sz, bl_klen := klen\<rparr>);
            Some (\<lparr>vi_idx = st, vi_version = ver\<rparr>, s\<lparr>cs_bls := bls\<rparr>)
          })
     }
   }"

section \<open>Writing a key and a value\<close>

text \<open>The loops over whole blocks; \<open>b\<close> is the source pointer, advanced by each block written.\<close>

primrec put_blocks :: "nat \<Rightarrow> cncr_str \<Rightarrow> u32 \<Rightarrow> bytes \<Rightarrow> (u32 \<times> bytes \<times> cncr_str) option" where
  "put_blocks 0 s cur b = Some (cur, b, s)"
| "put_blocks (Suc k) s cur b = do {
     (n, s) \<leftarrow> writeBlock s cur b 0 0;
     nx \<leftarrow> nxtBlock s cur;
     put_blocks k s (vi_idx nx) (drop (unat n) b)
   }"

definition str_put :: "cncr_str \<Rightarrow> u32 \<Rightarrow> bytes \<Rightarrow> u32 \<Rightarrow> bytes \<Rightarrow> u32 \<Rightarrow> cncr_str option" where
  "str_put s blkIdx kbytes klen vbytes vlen =
     (let bs = cs_blockSize s;
          kjagged = (klen mod bs \<noteq> 0);
          kblocks = (if kjagged then blocksNeeded s klen - 1 else blocksNeeded s klen);
          remklen = klen - kblocks * bs;
          fillvlen = min vlen (bs - remklen);
          tailvlen = vlen - fillvlen;
          vjagged = (tailvlen mod bs \<noteq> 0);
          vblocks = (if vjagged then blocksNeeded s tailvlen - 1 else blocksNeeded s tailvlen);
          remvlen = max 0 (tailvlen - vblocks * bs)
      in do {
        (cur, b, s) \<leftarrow> put_blocks (unat kblocks) s blkIdx kbytes;
        (cur, b, s) \<leftarrow>
          (if kjagged then do {
             (_, s) \<leftarrow> writeBlock s cur b remklen 0;
             (n, s) \<leftarrow> writeBlock s cur vbytes fillvlen remklen;
             nx \<leftarrow> nxtBlock s cur;
             Some (vi_idx nx, drop (unat n) vbytes, s)
           } else Some (cur, b, s));
        (cur, b, s) \<leftarrow> put_blocks (unat vblocks) s cur b;
        (if vjagged \<and> remvlen > 0 then do { (_, s) \<leftarrow> writeBlock s cur b remvlen 0; Some s }
         else Some s)
      })"

section \<open>Reading\<close>

text \<open>The walk over the key's whole blocks: \<open>None\<close> inside is the jump to \<open>read_failure\<close>.\<close>

primrec get_skip :: "nat \<Rightarrow> cncr_str \<Rightarrow> u32 \<Rightarrow> u32 \<Rightarrow> u32 option option" where
  "get_skip 0 s version cur = Some (Some cur)"
| "get_skip (Suc k) s version cur = do {
     nx \<leftarrow> nxtBlock s cur;
     if vi_version nx \<noteq> version then Some None else get_skip k s version (vi_idx nx)
   }"

partial_function (option) get_loop ::
    "cncr_str \<Rightarrow> u32 \<Rightarrow> bytes \<Rightarrow> u32 \<Rightarrow> u32 \<Rightarrow> ver_idx \<Rightarrow> (u32 \<times> bytes \<times> cncr_str) option" where
  "get_loop s version out maxlen len nx =
     (if len < maxlen \<and> vi_idx nx \<noteq> LIST_END \<and> vi_version nx = version then
        (let vrdLen = min (cs_blockSize s) (maxlen - len); cur = vi_idx nx
         in do {
           r \<leftarrow> readBlock s cur version out (unat len) 0 vrdLen;
           (case r of (rdLen, out', s') \<Rightarrow>
              if rdLen = 0 then Some (len, out', s')
              else do {
                nx' \<leftarrow> nxtBlock s' cur;
                get_loop s' version out' maxlen (len + rdLen) nx'
              })
         })
      else Some (len, out, s))"

text \<open>\<open>get\<close>: the value returned, the caller's buffer, what \<open>out_readlen\<close> was set to, and the store.\<close>

definition str_get :: "cncr_str \<Rightarrow> u32 \<Rightarrow> u32 \<Rightarrow> bytes \<Rightarrow> u32 \<Rightarrow>
    (u32 \<times> bytes \<times> u32 option \<times> cncr_str) option" where
  "str_get s blkIdx version out maxlen =
     (if blkIdx = LIST_END then Some (0, out, None, s)
      else do {
        (bl, s) \<leftarrow> incReaders s blkIdx version;
        let vlen = bl_len bl - bl_klen bl;
        if bl_len bl = 0 \<or> vlen > maxlen then Some (0, out, None, s)
        else do {
          let kblks = bl_klen bl div cs_blockSize s;
          let krem = bl_klen bl mod cs_blockSize s;
          skipped \<leftarrow> get_skip (unat kblks) s version blkIdx;
          (len, out, readlen, s) \<leftarrow>
            (case skipped of
               None \<Rightarrow> Some (0, out, None, s)
             | Some cur \<Rightarrow> do {
                 (rdLen, out, s) \<leftarrow>
                   readBlock s cur version out 0 krem (min (cs_blockSize s - krem) vlen);
                 nx \<leftarrow> nxtBlock s cur;
                 if vi_version nx \<noteq> version then Some (rdLen, out, None, s)
                 else do {
                   (len, out, s) \<leftarrow> get_loop s version out maxlen rdLen nx;
                   Some (len, out, Some len, s)
                 }
               });
          (_, s) \<leftarrow> decReadersOrDel s blkIdx version False;
          Some (len, out, readlen, s)
        }
      })"

text \<open>\<open>getKey\<close>: the loop over whole blocks; \<open>None\<close> inside is the jump to \<open>read_failure\<close>, the
  number is the length read so far.\<close>

primrec getKey_loop :: "nat \<Rightarrow> cncr_str \<Rightarrow> u32 \<Rightarrow> bytes \<Rightarrow> u32 \<Rightarrow> ver_idx \<Rightarrow>
    (ver_idx option \<times> u32 \<times> bytes \<times> cncr_str) option" where
  "getKey_loop 0 s version out len vi = Some (Some vi, len, out, s)"
| "getKey_loop (Suc k) s version out len vi =
     (if vi_idx vi \<noteq> LIST_END \<and> vi_version vi = version then do {
        (rdLen, out, s) \<leftarrow> readBlock s (vi_idx vi) version out (unat len) 0 0;
        if rdLen = 0 then Some (None, len, out, s)
        else do {
          nx \<leftarrow> nxtBlock s (vi_idx vi);
          getKey_loop k s version out (len + rdLen) nx
        }
      } else Some (Some vi, len, out, s))"

definition str_getKey :: "cncr_str \<Rightarrow> u32 \<Rightarrow> u32 \<Rightarrow> bytes \<Rightarrow> u32 \<Rightarrow> (u32 \<times> bytes \<times> cncr_str) option" where
  "str_getKey s blkIdx version out maxlen =
     (if blkIdx = LIST_END then Some (0, out, s)
      else do {
        (bl, s) \<leftarrow> incReaders s blkIdx version;
        if bl_len bl = 0 \<or> bl_klen bl > maxlen then Some (0, out, s)
        else do {
          let kblks = bl_klen bl div cs_blockSize s;
          let krem = bl_klen bl mod cs_blockSize s;
          (vi, len, out, s) \<leftarrow>
            getKey_loop (unat kblks) s version out 0 \<lparr>vi_idx = blkIdx, vi_version = version\<rparr>;
          (len, out, s) \<leftarrow>
            (case vi of
               None \<Rightarrow> Some (len, out, s)
             | Some vi \<Rightarrow> do {
                 (rdLen, out, s) \<leftarrow> readBlock s (vi_idx vi) version out (unat len) 0 krem;
                 Some (len + rdLen, out, s)
               });
          (_, s) \<leftarrow> decReadersOrDel s blkIdx version False;
          Some (len, out, s)
        }
      })"

section \<open>Comparing a key\<close>

text \<open>\<open>memcmpBlk\<close> and \<open>compare\<close>: the block compared is \<open>blkIdx\<close> itself (\<open>p\<close> is its address), \<open>buf\<close> the
  key from the current pointer on.\<close>

definition memcmpBlk :: "cncr_str \<Rightarrow> u32 \<Rightarrow> u32 \<Rightarrow> bytes \<Rightarrow> u32 \<Rightarrow> (match \<times> cncr_str) option" where
  "memcmpBlk s blkIdx version buf l = do {
     (bl, s) \<leftarrow> incReaders s blkIdx version;
     if bl_len bl = 0 then Some (MATCH_REMOVED, s)
     else do {
       x \<leftarrow> mem_rd buf 0 (unat l);
       y \<leftarrow> mem_rd (cs_blks s) (blockFreePtr s blkIdx) (unat l);
       (kept, s) \<leftarrow> decReadersOrDel s blkIdx version False;
       Some (if \<not> kept then MATCH_REMOVED else if x = y then MATCH_TRUE else MATCH_FALSE, s)
     }
   }"

partial_function (option) compare_loop ::
    "cncr_str \<Rightarrow> u32 \<Rightarrow> bytes \<Rightarrow> u32 \<Rightarrow> u32 \<Rightarrow> ver_idx \<Rightarrow> (match \<times> cncr_str) option" where
  "compare_loop s version curbuf curlen curidx nx =
     (if cs_blockSize s > curlen then memcmpBlk s curidx version curbuf curlen
      else do {
        r \<leftarrow> memcmpBlk s curidx version curbuf (cs_blockSize s);
        (case r of (cmp, s') \<Rightarrow>
           if cmp \<noteq> MATCH_TRUE then Some (cmp, s')
           else do {
             nx' \<leftarrow> nxtBlock s' (vi_idx nx);
             if vi_version nx' \<noteq> version then Some (MATCH_FALSE, s')
             else compare_loop s' version (drop (unat (cs_blockSize s')) curbuf)
                    (curlen - cs_blockSize s') (vi_idx nx) nx'
           })
      })"

definition str_compare :: "cncr_str \<Rightarrow> u32 \<Rightarrow> u32 \<Rightarrow> bytes \<Rightarrow> u32 \<Rightarrow> u32 \<Rightarrow> (match \<times> cncr_str) option" where
  "str_compare s blkIdx version buf len hash = do {
     bl \<leftarrow> rd (cs_bls s) blkIdx;
     if bl_hash bl \<noteq> hash then Some (MATCH_FALSE, s)
     else do {
       nx \<leftarrow> nxtBlock s blkIdx;
       if vi_version nx \<noteq> version then Some (MATCH_FALSE, s)
       else if bl_klen bl \<noteq> len then Some (MATCH_FALSE, s)
       else compare_loop s version buf len blkIdx nx
     }
   }"

text \<open>\<open>len\<close>: the total length, and the value length when \<open>out_vlen\<close> is written.\<close>

definition str_len :: "cncr_str \<Rightarrow> u32 \<Rightarrow> u32 \<Rightarrow> (u32 \<times> u32 option) option" where
  "str_len s blkIdx version = do {
     bl \<leftarrow> rd (cs_bls s) blkIdx;
     Some (if version = bl_version bl \<and> bl_len bl > 0
           then (bl_len bl, Some (bl_len bl - bl_klen bl)) else (0, None))
   }"

text \<open>The loops as code equations, to evaluate them on concrete states.\<close>

declare incReaders_loop.simps [code] decReadersOrDel_loop.simps [code] findEndSetVersion_loop.simps [code]
  get_loop.simps [code] compare_loop.simps [code]

end
