(* ===== verification/Shm_Store_Inv.thy ===== *)
theory Shm_Store_Inv
  imports Shm_Store
begin

text \<open>
  What the block store promises. \<open>str_inv s F L\<close> says that the store \<open>s\<close> holds the free list \<open>F\<close>
  and the blobs \<open>L\<close> (each a version, a chain of blocks, a hash, a key and a value), with no block in
  two places; the lemmas say what allocation, writing, comparing, reading and freeing do to \<open>F\<close> and
  \<open>L\<close> when no other thread interferes.
\<close>

named_theorems live_simps "operations on blocks of a live chain"

section \<open>Reader counts of a live block\<close>

definition live :: "cncr_str \<Rightarrow> u32 \<Rightarrow> u32 \<Rightarrow> bool" where
  "live s ver c \<longleftrightarrow> unat c < length (cs_bls s) \<and>
     (let b = cs_bls s ! unat c in bl_version b = ver \<and> \<not> kr_isDeleted (bl_kr b) \<and>
        0 \<le> sint (kr_readers (bl_kr b)) \<and> bl_len b \<noteq> 0)"

definition bump :: "30 word \<Rightarrow> blk_lst \<Rightarrow> blk_lst" where
  "bump d b = b\<lparr>bl_kr := (bl_kr b)\<lparr>kr_readers := kr_readers (bl_kr b) + d\<rparr>\<rparr>"

definition bumped :: "30 word \<Rightarrow> u32 \<Rightarrow> cncr_str \<Rightarrow> cncr_str" where
  "bumped d i s = s\<lparr>cs_bls := (cs_bls s)[unat i := bump d (cs_bls s ! unat i)]\<rparr>"

lemma bump_fields [simp]:
  "bl_idx (bump d b) = bl_idx b" "bl_version (bump d b) = bl_version b"
  "bl_len (bump d b) = bl_len b" "bl_klen (bump d b) = bl_klen b" "bl_hash (bump d b) = bl_hash b"
  "kr_isKey (bl_kr (bump d b)) = kr_isKey (bl_kr b)"
  "kr_isDeleted (bl_kr (bump d b)) = kr_isDeleted (bl_kr b)"
  "kr_readers (bl_kr (bump d b)) = kr_readers (bl_kr b) + d"
  by (simp_all add: bump_def)

lemma bump_back [simp]: "bump (- d) (bump d b) = b"
  by (simp add: bump_def)

lemma bumped_fields [simp]:
  "cs_cl (bumped d i s) = cs_cl s" "cs_blks (bumped d i s) = cs_blks s"
  "cs_version (bumped d i s) = cs_version s" "cs_blockSize (bumped d i s) = cs_blockSize s"
  "length (cs_bls (bumped d i s)) = length (cs_bls s)"
  by (simp_all add: bumped_def)

lemma bumped_nth: "unat c < length (cs_bls s) \<Longrightarrow>
  cs_bls (bumped d i s) ! unat c = (if c = i then bump d (cs_bls s ! unat c) else cs_bls s ! unat c)"
  by (auto simp: bumped_def nth_list_update unat_inj_index)

lemma bumped_back [simp]: "unat i < length (cs_bls s) \<Longrightarrow> bumped (- d) i (bumped d i s) = s"
  by (simp add: bumped_def)

lemma bumped_back1 [simp]: "unat i < length (cs_bls s) \<Longrightarrow> bumped (- 1) i (bumped 1 i s) = s"
  by (rule bumped_back)

lemma bump_def': "b\<lparr>bl_kr := (bl_kr b)\<lparr>kr_readers := kr_readers (bl_kr b) + d\<rparr>\<rparr> = bump d b"
  by (simp add: bump_def)

lemma live_bound: "live s ver c \<Longrightarrow> unat c < length (cs_bls s)"
  by (simp add: live_def)

lemma incReaders_live [live_simps]: "live s ver i \<Longrightarrow>
  incReaders s i ver = Some (bump 1 (cs_bls s ! unat i), bumped 1 i s)"
  by (simp add: incReaders_def incReaders_loop.simps live_def Let_def cas_kr_def arr_simps bumped_def
      bump_def not_less)

lemma decReaders_live: "unat i < length (cs_bls s) \<Longrightarrow> bl_version (cs_bls s ! unat i) = ver \<Longrightarrow>
  \<not> kr_isDeleted (bl_kr (cs_bls s ! unat i)) \<Longrightarrow>
  decReadersOrDel s i ver False = Some (True, bumped (- 1) i s)"
  by (simp add: decReadersOrDel_def decReadersOrDel_loop.simps cas_kr_def arr_simps bumped_def
      bump_def)

lemma decReaders_bumped [live_simps]: "live s ver i \<Longrightarrow>
  decReadersOrDel (bumped 1 i s) i ver False = Some (True, s)"
  by (simp add: decReaders_live live_def Let_def bumped_nth)

lemma nxtBlock_in: "unat c < length (cs_bls s) \<Longrightarrow> nxtBlock s c =
  Some \<lparr>vi_idx = bl_idx (cs_bls s ! unat c), vi_version = bl_version (cs_bls s ! unat c)\<rparr>"
  by (simp add: nxtBlock_def arr_simps)

lemma blockFreePtr_bumped [simp]: "blockFreePtr (bumped d i s) c = blockFreePtr s c"
  by (simp add: blockFreePtr_def)

lemma memcmpBlk_live:
  assumes "live s ver c" and "unat l \<le> length buf" and "blockFreePtr s c + unat l \<le> length (cs_blks s)"
  shows "memcmpBlk s c ver buf l =
    Some (if take (unat l) buf = take (unat l) (drop (blockFreePtr s c) (cs_blks s))
          then MATCH_TRUE else MATCH_FALSE, s)"
  using assms by (simp add: memcmpBlk_def live_simps arr_simps) (simp add: live_def Let_def)

lemma readBlock_live:
  assumes "live s ver c" and "ver \<noteq> 0" and "l \<noteq> 0"
    and "blockFreePtr s c + unat ofst + unat l \<le> length (cs_blks s)"
    and "b + unat l \<le> length out"
  shows "readBlock s c ver out b ofst l =
    Some (l, take b out @ take (unat l) (drop (blockFreePtr s c + unat ofst) (cs_blks s)) @
      drop (b + unat l) out, s)"
  using assms by (simp add: readBlock_def live_simps arr_simps) (simp add: live_def Let_def)

section \<open>Chains and blobs\<close>

text \<open>\<open>bl_path bls i cs\<close>: the chain of records from \<open>i\<close> visits \<open>cs\<close> and ends.\<close>

primrec bl_path :: "blk_lst list \<Rightarrow> u32 \<Rightarrow> u32 list \<Rightarrow> bool" where
  "bl_path bls i [] \<longleftrightarrow> i = LIST_END"
| "bl_path bls i (c # cs) \<longleftrightarrow> i = c \<and> unat c < length bls \<and> bl_path bls (bl_idx (bls ! unat c)) cs"

definition block :: "cncr_str \<Rightarrow> u32 \<Rightarrow> bytes" where
  "block s c = take (unat (cs_blockSize s)) (drop (unat c * unat (cs_blockSize s)) (cs_blks s))"

definition contents :: "cncr_str \<Rightarrow> u32 list \<Rightarrow> bytes" where
  "contents s cs = concat (map (block s) cs)"

record blob =
  bo_ver :: u32
  bo_chain :: "u32 list"
  bo_hash :: u32
  bo_key :: bytes
  bo_val :: bytes

definition bo_head :: "blob \<Rightarrow> u32" where "bo_head o' = hd (bo_chain o')"
definition bo_size :: "blob \<Rightarrow> nat" where "bo_size o' = length (bo_key o') + length (bo_val o')"

definition ceil_div :: "nat \<Rightarrow> nat \<Rightarrow> nat" where
  "ceil_div a b = a div b + (if a mod b \<noteq> 0 then 1 else 0)"

definition rec_ok :: "cncr_str \<Rightarrow> u32 \<Rightarrow> u32 \<Rightarrow> bool" where
  "rec_ok s ver c \<longleftrightarrow> (let b = cs_bls s ! unat c in bl_version b = ver \<and>
     \<not> kr_isDeleted (bl_kr b) \<and> kr_readers (bl_kr b) = 0 \<and> bl_len b \<noteq> 0)"

definition head_ok :: "cncr_str \<Rightarrow> blob \<Rightarrow> bool" where
  "head_ok s o' \<longleftrightarrow> (let b = cs_bls s ! unat (bo_head o') in bl_hash b = bo_hash o' \<and>
     unat (bl_len b) = bo_size o' \<and> unat (bl_klen b) = length (bo_key o'))"

definition blob_ok :: "cncr_str \<Rightarrow> blob \<Rightarrow> bool" where
  "blob_ok s o' \<longleftrightarrow> bo_ver o' \<noteq> 0 \<and> bo_chain o' \<noteq> [] \<and> bo_key o' \<noteq> [] \<and> bo_val o' \<noteq> [] \<and>
     bl_path (cs_bls s) (bo_head o') (bo_chain o') \<and>
     lv_path (cl_lv (cs_cl s)) (bo_head o') (butlast (bo_chain o')) (last (bo_chain o')) \<and>
     (\<forall>c \<in> set (bo_chain o'). rec_ok s (bo_ver o') c) \<and> head_ok s o' \<and>
     bo_size o' < 2 ^ 32 \<and>
     length (bo_chain o') = ceil_div (bo_size o') (unat (cs_blockSize s)) \<and>
     take (bo_size o') (contents s (bo_chain o')) = bo_key o' @ bo_val o'"

text \<open>The sizes of the arrays, for a store of \<open>n\<close> blocks whose byte addresses fit 32 bits.\<close>

definition str_wf :: "cncr_str \<Rightarrow> bool" where
  "str_wf s \<longleftrightarrow> 0 < unat (cs_blockSize s) \<and> cs_bls s \<noteq> [] \<and>
     length (cl_lv (cs_cl s)) = length (cs_bls s) \<and>
     length (cs_blks s) = length (cs_bls s) * unat (cs_blockSize s) \<and>
     length (cs_blks s) < 2 ^ 32"

definition str_inv :: "cncr_str \<Rightarrow> u32 list \<Rightarrow> blob list \<Rightarrow> bool" where
  "str_inv s F L \<longleftrightarrow> str_wf s \<and> free_rep (cs_cl s) F \<and> (\<forall>o' \<in> set L. blob_ok s o') \<and>
     distinct (F @ concat (map bo_chain L))"

lemma str_wf_count: "str_wf s \<Longrightarrow> length (cs_bls s) < 2 ^ 32"
proof -
  assume "str_wf s"
  then have "0 < unat (cs_blockSize s)" and "length (cs_bls s) * unat (cs_blockSize s) < 2 ^ 32"
    by (auto simp: str_wf_def)
  then show ?thesis
    by (metis Suc_leI dual_order.strict_trans2 mult.right_neutral mult_le_mono2 One_nat_def)
qed

lemma blockFreePtr_eq:
  assumes "str_wf s" and "unat c < length (cs_bls s)"
  shows "blockFreePtr s c = unat c * unat (cs_blockSize s)"
    and "blockFreePtr s c + unat (cs_blockSize s) \<le> length (cs_blks s)"
proof -
  have "(unat c + 1) * unat (cs_blockSize s) \<le> length (cs_blks s)"
    using assms by (simp add: str_wf_def del: add_mult_distrib) (metis Suc_leI mult_le_mono1 mult_Suc)
  moreover have "length (cs_blks s) < 2 ^ 32" using assms(1) by (simp add: str_wf_def)
  ultimately show "blockFreePtr s c = unat c * unat (cs_blockSize s)"
    and "blockFreePtr s c + unat (cs_blockSize s) \<le> length (cs_blks s)"
    by (auto simp: blockFreePtr_def unat_mult_u32)
qed

lemma length_block:
  "str_wf s \<Longrightarrow> unat c < length (cs_bls s) \<Longrightarrow> length (block s c) = unat (cs_blockSize s)"
  using blockFreePtr_eq [of s c] by (simp add: block_def)

lemma length_contents:
  "str_wf s \<Longrightarrow> \<forall>c \<in> set cs. unat c < length (cs_bls s) \<Longrightarrow>
   length (contents s cs) = length cs * unat (cs_blockSize s)"
  by (induction cs) (auto simp: contents_def length_block)

lemma contents_simps [simp]: "contents s [] = []" "contents s (c # cs) = block s c @ contents s cs"
  by (simp_all add: contents_def)

lemma contents_append: "contents s (as @ bs) = contents s as @ contents s bs"
  by (simp add: contents_def)

lemma bl_path_bound: "bl_path bls i cs \<Longrightarrow> c \<in> set cs \<Longrightarrow> unat c < length bls"
  by (induction cs arbitrary: i) auto

lemma bl_path_cong: "(\<And>c. c \<in> set cs \<Longrightarrow> bl_idx (bls' ! unat c) = bl_idx (bls ! unat c)) \<Longrightarrow>
  length bls' = length bls \<Longrightarrow> bl_path bls' i cs = bl_path bls i cs"
  by (induction cs arbitrary: i) auto

lemma ceil_div_upper: "0 < b \<Longrightarrow> a \<le> ceil_div a b * b"
proof (cases "a mod b = 0")
  case False
  moreover assume "0 < b"
  then have "a mod b < b" by simp
  moreover have "a div b * b + a mod b = a" by (rule div_mult_mod_eq)
  ultimately show ?thesis unfolding ceil_div_def
    by (simp only: add_mult_distrib if_True not_False_eq_True mult_1)
qed (auto simp: ceil_div_def)

lemma ceil_div_lower: "0 < a \<Longrightarrow> 0 < b \<Longrightarrow> (ceil_div a b - 1) * b < a"
proof (cases "a mod b = 0")
  case False
  moreover have "a div b * b + a mod b = a" by (rule div_mult_mod_eq)
  ultimately show ?thesis unfolding ceil_div_def 
    by (simp only: if_True not_False_eq_True add_diff_cancel_right')
qed (auto simp: ceil_div_def diff_mult_distrib)

lemma div_less_ceil: "k < s \<Longrightarrow> 0 < b \<Longrightarrow> k div b < ceil_div s b"
  using ceil_div_upper [of b s] by (simp add: less_mult_imp_div_less)

lemma ceil_div_same:
  assumes "k mod b + v < b" and "0 < v"
  shows "ceil_div (k + v) b = Suc (k div b)"
proof -
  have eq: "k + v = (k mod b + v) + k div b * b" by simp
  have "(k + v) div b = k div b"
    by (subst eq, subst div_mult_self1) (use assms(1) in auto)
  moreover have "(k + v) mod b = k mod b + v"
    by (subst eq, subst mod_mult_self1) (use assms(1) in auto)
  ultimately show ?thesis using assms by (simp add: ceil_div_def)
qed

lemma blob_bound: "blob_ok s o' \<Longrightarrow> c \<in> set (bo_chain o') \<Longrightarrow> unat c < length (cs_bls s)"
  by (auto simp: blob_ok_def dest: bl_path_bound)

lemma bo_head_in: "bo_chain o' \<noteq> [] \<Longrightarrow> bo_head o' \<in> set (bo_chain o')"
  by (simp add: bo_head_def)

lemma blob_live: "blob_ok s o' \<Longrightarrow> c \<in> set (bo_chain o') \<Longrightarrow> live s (bo_ver o') c"
  by (auto simp: live_def blob_ok_def rec_ok_def Let_def dest: bl_path_bound)

section \<open>Comparing a key with a blob\<close>

definition rec_vi :: "cncr_str \<Rightarrow> u32 \<Rightarrow> ver_idx" where
  "rec_vi s c = \<lparr>vi_idx = bl_idx (cs_bls s ! unat c), vi_version = bl_version (cs_bls s ! unat c)\<rparr>"

lemma rec_vi_simps [simp]: "vi_idx (rec_vi s c) = bl_idx (cs_bls s ! unat c)"
  "vi_version (rec_vi s c) = bl_version (cs_bls s ! unat c)"
  by (simp_all add: rec_vi_def)

lemma nxtBlock_rec [live_simps]: "unat c < length (cs_bls s) \<Longrightarrow> nxtBlock s c = Some (rec_vi s c)"
  by (simp add: nxtBlock_in rec_vi_def)

lemma live_version: "live s ver c \<Longrightarrow> bl_version (cs_bls s ! unat c) = ver"
  by (simp add: live_def Let_def)

lemma memcmpBlk_block:
  assumes "str_wf s" and "live s ver c" and "unat l \<le> unat (cs_blockSize s)" and "unat l \<le> length buf"
  shows "memcmpBlk s c ver buf l =
    Some (if take (unat l) buf = take (unat l) (block s c) then MATCH_TRUE else MATCH_FALSE, s)"
proof -
  have "unat c < length (cs_bls s)" using assms(2) by (rule live_bound)
  from blockFreePtr_eq [OF assms(1) this] assms show ?thesis
    by (simp add: memcmpBlk_live block_def min_absorb1)
qed

lemma compare_loop_chain:
  assumes "str_wf s" and "\<forall>c \<in> set cs. live s ver c" and "bl_path (cs_bls s) i cs"
    and "length buf = unat curlen" and "unat curlen < length cs * unat (cs_blockSize s)"
  shows "compare_loop s ver buf curlen i (rec_vi s i) =
    Some (if buf = take (unat curlen) (contents s cs) then MATCH_TRUE else MATCH_FALSE, s)"
  using assms(2-)
proof (induction cs arbitrary: i buf curlen)
  case Nil
  then show ?case by simp
next
  case (Cons c cs)
  let ?bs = "cs_blockSize s"
  have i: "i = c" and c: "unat c < length (cs_bls s)" "live s ver c"
    and path: "bl_path (cs_bls s) (bl_idx (cs_bls s ! unat c)) cs"
    using Cons.prems by auto
  have lb: "length (block s c) = unat ?bs" using assms(1) c(1) by (rule length_block)
  show ?case
  proof (cases "curlen < ?bs")
    case True
    then have "unat curlen < unat ?bs" by (simp add: word_less_nat_alt)
    with True Cons.prems(3) lb i c show ?thesis
      by (simp add: compare_loop.simps [of s] memcmpBlk_block [OF assms(1)])
  next
    case False
    then have le: "unat ?bs \<le> unat curlen" by (simp add: word_le_nat_alt not_less)
    have split: "buf = take (unat curlen) (contents s (c # cs)) \<longleftrightarrow>
        take (unat ?bs) buf = block s c \<and>
        drop (unat ?bs) buf = take (unat (curlen - ?bs)) (contents s cs)"
    proof -
      have "buf = take (unat ?bs) buf @ drop (unat ?bs) buf" by simp
      moreover have "take (unat curlen) (contents s (c # cs)) =
          block s c @ take (unat (curlen - ?bs)) (contents s cs)"
        using le lb by (simp add: unat_sub_u32)
      moreover have "length (take (unat ?bs) buf) = length (block s c)"
        using le lb Cons.prems(3) by simp
      ultimately show ?thesis by (metis append_eq_append_conv)
    qed
    have cmp: "memcmpBlk s c ver buf ?bs =
        Some (if take (unat ?bs) buf = block s c then MATCH_TRUE else MATCH_FALSE, s)"
      using memcmpBlk_block [OF assms(1) c(2), of ?bs buf] le lb Cons.prems(3) by simp
    obtain d cs' where cs: "cs = d # cs'" using Cons.prems(4) le by (cases cs) auto
    with path have d: "bl_idx (cs_bls s ! unat c) = d" "unat d < length (cs_bls s)" by auto
    have IH: "compare_loop s ver (drop (unat ?bs) buf) (curlen - ?bs) d (rec_vi s d) =
        Some (if drop (unat ?bs) buf = take (unat (curlen - ?bs)) (contents s cs)
              then MATCH_TRUE else MATCH_FALSE, s)"
      using Cons.prems path d cs le by (intro Cons.IH) (auto simp: unat_sub_u32)
    have vd: "bl_version (cs_bls s ! unat d) = ver"
      using Cons.prems(1) cs by (auto dest: live_version)
    show ?thesis
      unfolding split using False i cmp d IH vd
      by (cases "take (unat ?bs) buf = block s c")
        (simp_all add: compare_loop.simps [of s ver buf] live_simps)
  qed
qed

text \<open>\<open>compare\<close> decides equality of keys: it leaves the store as it was and answers \<open>MATCH_TRUE\<close>
  exactly when hash, length and bytes agree.\<close>

lemma compare_blob:
  assumes "str_wf s" and "blob_ok s o'" and "length buf = unat l"
  shows "str_compare s (bo_head o') (bo_ver o') buf l hash =
    Some (if bo_hash o' = hash \<and> bo_key o' = buf then MATCH_TRUE else MATCH_FALSE, s)"
proof -
  let ?h = "bo_head o'" and ?K = "length (bo_key o')"
  have o: "bo_chain o' \<noteq> []" "bl_path (cs_bls s) ?h (bo_chain o')" "head_ok s o'"
    "length (bo_chain o') = ceil_div (bo_size o') (unat (cs_blockSize s))"
    "take (bo_size o') (contents s (bo_chain o')) = bo_key o' @ bo_val o'" "bo_val o' \<noteq> []"
    using assms(2) by (auto simp: blob_ok_def)
  have live: "\<forall>c \<in> set (bo_chain o'). live s (bo_ver o') c"
    using assms(2) blob_live by blast
  have h: "live s (bo_ver o') ?h" "unat ?h < length (cs_bls s)"
    using live bo_head_in [OF o(1)] by (auto dest: live_bound)
  have bs: "0 < unat (cs_blockSize s)" using assms(1) by (simp add: str_wf_def)
  have K: "?K < bo_size o'" using o(6) by (simp add: bo_size_def)
  have total: "bo_size o' \<le> length (bo_chain o') * unat (cs_blockSize s)"
    using bs by (simp add: o(4) ceil_div_upper)
  have key: "take ?K (contents s (bo_chain o')) = bo_key o'"
    using o(5) K by (metis append_eq_conv_conj less_imp_le min.absorb1 take_take)
  have len: "bl_klen (cs_bls s ! unat ?h) = l \<longleftrightarrow> ?K = length buf"
    using o(3) assms(3) by (auto simp: head_ok_def Let_def word_unat_eq_iff)
  have hash: "bl_hash (cs_bls s ! unat ?h) = bo_hash o'"
    using o(3) by (simp add: head_ok_def Let_def)
  have "compare_loop s (bo_ver o') buf l ?h (rec_vi s ?h) =
      Some (if buf = bo_key o' then MATCH_TRUE else MATCH_FALSE, s)" if "?K = length buf"
    using compare_loop_chain [OF assms(1) live o(2), of buf l] that assms(3) K total key by simp
  then show ?thesis
    using h len hash live_version [OF h(1)]
    by (auto simp: str_compare_def arr_simps live_simps)
qed

end
