(* ===== verification/Shm_Store_Write.thy ===== *)
theory Shm_Store_Write
  imports Shm_Store_Inv
begin

text \<open>
  Allocating, writing and freeing a blob of the block store: what the three operations do to the free
  list and to the blobs of \<open>str_inv\<close>.
\<close>

section \<open>Framing\<close>

text \<open>A blob is untouched by an operation that leaves the records, links and bytes of its blocks.\<close>

definition same_on :: "u32 set \<Rightarrow> cncr_str \<Rightarrow> cncr_str \<Rightarrow> bool" where
  "same_on C s s' \<longleftrightarrow> cs_blockSize s' = cs_blockSize s \<and> length (cs_bls s') = length (cs_bls s) \<and>
     length (cl_lv (cs_cl s')) = length (cl_lv (cs_cl s)) \<and>
     (\<forall>c \<in> C. cs_bls s' ! unat c = cs_bls s ! unat c \<and> block s' c = block s c \<and>
        cl_lv (cs_cl s') ! unat c = cl_lv (cs_cl s) ! unat c)"

lemma lv_path_cong: "(\<And>c. c \<in> set cs \<Longrightarrow> lv' ! unat c = lv ! unat c) \<Longrightarrow> length lv' = length lv \<Longrightarrow>
  lv_path lv' i cs e = lv_path lv i cs e"
  by (induction cs arbitrary: i) auto

lemma contents_cong: "(\<And>c. c \<in> set cs \<Longrightarrow> block s' c = block s c) \<Longrightarrow> contents s' cs = contents s cs"
  by (induction cs) auto

lemma blob_ok_frame:
  assumes "blob_ok s o'" and "same_on (set (bo_chain o')) s s'"
  shows "blob_ok s' o'"
proof -
  have "bl_path (cs_bls s') i (bo_chain o') = bl_path (cs_bls s) i (bo_chain o')" for i
    using assms(2) by (intro bl_path_cong) (auto simp: same_on_def)
  moreover have "lv_path (cl_lv (cs_cl s')) i (butlast (bo_chain o')) e =
      lv_path (cl_lv (cs_cl s)) i (butlast (bo_chain o')) e" for i e
    using assms(2) by (intro lv_path_cong) (auto simp: same_on_def dest: in_set_butlastD)
  moreover have "contents s' (bo_chain o') = contents s (bo_chain o')"
    using assms(2) by (intro contents_cong) (auto simp: same_on_def)
  ultimately show ?thesis
    using assms bo_head_in [of o'] by (auto simp: blob_ok_def same_on_def rec_ok_def head_ok_def)
qed

section \<open>Allocation\<close>

text \<open>\<open>linked bls cur ds ver sz\<close>: the records after \<open>cur\<close> and the further blocks \<open>ds\<close> were linked.\<close>

primrec linked :: "blk_lst list \<Rightarrow> u32 \<Rightarrow> u32 list \<Rightarrow> u32 \<Rightarrow> u32 \<Rightarrow> blk_lst list" where
  "linked bls cur [] ver sz = bls"
| "linked bls cur (d # ds) ver sz = linked (bls[unat cur := BlkLst False 0 d ver sz 0 0]) d ds ver sz"

definition closed :: "blk_lst list \<Rightarrow> u32 \<Rightarrow> u32 list \<Rightarrow> u32 \<Rightarrow> u32 \<Rightarrow> blk_lst list" where
  "closed bls cur ds ver sz =
     (linked bls cur ds ver sz)[unat (last (cur # ds)) := BlkLst False 0 LIST_END ver sz 0 0]"

lemma linked_length [simp]: "length (linked bls cur ds ver sz) = length bls"
  by (induction ds arbitrary: bls cur) auto

lemma closed_length [simp]: "length (closed bls cur ds ver sz) = length bls"
  by (simp add: closed_def)

lemma closed_Cons: "closed bls cur (d # ds) ver sz =
    closed (bls[unat cur := BlkLst False 0 d ver sz 0 0]) d ds ver sz"
  by (simp add: closed_def)

lemma closed_other: "c \<notin> set (cur # ds) \<Longrightarrow> closed bls cur ds ver sz ! unat c = bls ! unat c"
  by (induction ds arbitrary: bls cur)
    (auto simp: closed_Cons closed_def nth_list_update_neq unat_inj_index)

lemma closed_rec:
  assumes "c \<in> set (cur # ds)" and "distinct (cur # ds)" and "\<forall>c \<in> set (cur # ds). unat c < length bls"
  shows "\<exists>i. closed bls cur ds ver sz ! unat c = BlkLst False 0 i ver sz 0 0"
  using assms
proof (induction ds arbitrary: bls cur)
  case Nil
  then show ?case by (auto simp: closed_def)
next
  case (Cons d ds)
  then show ?case
    by (cases "c = cur") (auto simp: closed_Cons closed_other)
qed

lemma closed_path:
  assumes "distinct (cur # ds)" and "\<forall>c \<in> set (cur # ds). unat c < length bls"
  shows "bl_path (closed bls cur ds ver sz) cur (cur # ds)"
  using assms
proof (induction ds arbitrary: bls cur)
  case Nil
  then show ?case by (simp add: closed_def BlkLst_def)
next
  case (Cons d ds)
  then have "bl_path (closed (bls[unat cur := BlkLst False 0 d ver sz 0 0]) d ds ver sz) d (d # ds)"
    by (intro Cons.IH) auto
  with Cons.prems show ?case
    by (simp add: closed_Cons closed_other) (simp add: BlkLst_def)
qed

text \<open>The loop takes the next \<open>k\<close> indices of the free list.\<close>

lemma alloc_loop_ok:
  assumes "free_rep (cs_cl s) F" and "k \<le> length F" and "unat cur < length (cs_bls s)"
    and "length (cl_lv (cs_cl s)) = length (cs_bls s)"
  shows "\<exists>cl. alloc_loop k s ver sz cur = Some (Some (last (cur # take k F)),
      s\<lparr>cs_cl := cl, cs_bls := linked (cs_bls s) cur (take k F) ver sz\<rparr>) \<and>
    free_rep cl (drop k F) \<and> cl_lv cl = cl_lv (cs_cl s)"
  using assms
proof (induction k arbitrary: s F cur)
  case 0
  then show ?case by (intro exI [of _ "cs_cl s"]) simp
next
  case (Suc k)
  then obtain c F' where F: "F = c # F'" by (cases F) auto
  have nx: "lst_nxt (cs_cl s) = Some (c, popped (cs_cl s) c)" "free_rep (popped (cs_cl s) c) F'"
    using Suc.prems(1) nxt_Cons unfolding F by blast+
  have c: "unat c < length (cl_lv (cs_cl s))" "c \<noteq> LIST_END"
    using Suc.prems(1) F by (auto simp: free_rep_Cons dest: not_LIST_END)
  let ?s = "s\<lparr>cs_cl := popped (cs_cl s) c,
    cs_bls := (cs_bls s)[unat cur := BlkLst False 0 c ver sz 0 0]\<rparr>"
  have "\<exists>cl. alloc_loop k ?s ver sz c = Some (Some (last (c # take k F')),
      ?s\<lparr>cs_cl := cl, cs_bls := linked (cs_bls ?s) c (take k F') ver sz\<rparr>) \<and>
    free_rep cl (drop k F') \<and> cl_lv cl = cl_lv (cs_cl ?s)"
    using Suc.prems nx F c by (intro Suc.IH) simp_all
  then obtain cl where "alloc_loop k ?s ver sz c = Some (Some (last (c # take k F')),
      ?s\<lparr>cs_cl := cl, cs_bls := linked (cs_bls ?s) c (take k F') ver sz\<rparr>)"
    "free_rep cl (drop k F')" "cl_lv cl = cl_lv (cs_cl ?s)" by blast
  with nx c F Suc.prems(3,4) show ?case
    by (intro exI [of _ cl]) (simp add: arr_simps)
qed

definition allocated :: "cncr_str \<Rightarrow> u32 \<Rightarrow> u32 list \<Rightarrow> u32 \<Rightarrow> u32 \<Rightarrow> u32 \<Rightarrow> cncr_lst \<Rightarrow> cncr_str" where
  "allocated s st ds sz klen hash cl =
     (let bls = closed (cs_bls s) st ds (ucast (cs_version s)) sz; b = bls ! unat st
      in s\<lparr>cs_cl := cl, cs_version := cs_version s + 1,
           cs_bls := bls[unat st := b\<lparr>bl_kr := (bl_kr b)\<lparr>kr_isKey := True, kr_isDeleted := False\<rparr>,
             bl_hash := hash, bl_len := sz, bl_klen := klen\<rparr>]\<rparr>)"

lemma blocksNeeded_eq: "0 < unat (cs_blockSize s) \<Longrightarrow>
  unat (blocksNeeded s sz) = ceil_div (unat sz) (unat (cs_blockSize s))"
proof -
  let ?b = "unat (cs_blockSize s)"
  assume b: "0 < ?b"
  have m: "sz mod cs_blockSize s = 0 \<longleftrightarrow> unat sz mod ?b = 0"
    by (simp add: unat_eq_0 [symmetric] unat_mod)
  show ?thesis
  proof (cases "sz mod cs_blockSize s = 0")
    case True
    with m show ?thesis by (simp add: blocksNeeded_def ceil_div_def unat_div)
  next
    case False
    then have "?b \<noteq> 1" using m by auto
    with b have "1 < ?b" by simp
    then have "2 ^ 32 \<le> 2 ^ 31 * ?b" by simp
    then have "unat sz div ?b < 2 ^ 31"
      using unat_lt_u32 [of sz] by (intro less_mult_imp_div_less) linarith
    then have "unat (sz div cs_blockSize s + 1) = unat (sz div cs_blockSize s) + unat (1 :: u32)"
      by (intro unat_add_u32) (simp add: unat_div)
    with False m show ?thesis by (simp add: blocksNeeded_def ceil_div_def unat_div)
  qed
qed

lemma ceil_div_pos: "0 < a \<Longrightarrow> 0 < b \<Longrightarrow> 0 < ceil_div a b"
  using div_less_ceil [of 0 a b] by simp

lemma ceil_div_gt1: "0 < a \<Longrightarrow> 0 < b \<Longrightarrow> Suc (ceil_div a b - 1) = ceil_div a b"
  using ceil_div_pos [of a b] by simp

lemma str_alloc_ok:
  assumes inv: "str_inv s (c # F) L" and sz: "0 < unat sz"
    and need: "n = ceil_div (unat sz) (unat (cs_blockSize s)) - 1" "n \<le> length F"
  shows "\<exists>cl. str_alloc s sz klen hash = Some (\<lparr>vi_idx = c, vi_version = ucast (cs_version s)\<rparr>,
      allocated s c (take n F) sz klen hash cl) \<and>
    free_rep cl (drop n F) \<and> cl_lv cl = cl_lv (cs_cl s)"
proof -
  have wf: "str_wf s" and fr: "free_rep (cs_cl s) (c # F)"
    using inv by (auto simp: str_inv_def)
  have b: "0 < unat (cs_blockSize s)" and len: "length (cl_lv (cs_cl s)) = length (cs_bls s)"
    using wf by (auto simp: str_wf_def)
  have nx: "lst_nxt (cs_cl s) = Some (c, popped (cs_cl s) c)" "free_rep (popped (cs_cl s) c) F"
    using nxt_Cons [OF fr] by auto
  have c: "unat c < length (cs_bls s)" "c \<noteq> LIST_END"
    using fr len by (auto simp: free_rep_Cons dest: not_LIST_END)
  have bound: "\<forall>x \<in> set (c # take n F). unat x < length (cs_bls s)"
    using free_rep_bound [OF fr] len by (auto dest: in_set_takeD)
  then have bl: "unat (last (c # take n F)) < length (cs_bls s)"
    using last_in_set by blast
  have "unat (blocksNeeded s sz) = Suc n"
    using blocksNeeded_eq [OF b, of sz] ceil_div_gt1 [OF sz b] need(1) by simp
  then have blocks: "unat (blocksNeeded s sz - 1) = n"
    by (simp add: unat_sub_u32)
  let ?s = "s\<lparr>cs_cl := popped (cs_cl s) c, cs_version := cs_version s + 1\<rparr>"
  let ?v = "ucast (cs_version s) :: u32"
  obtain cl where loop: "alloc_loop n ?s ?v sz c = Some (Some (last (c # take n F)),
      ?s\<lparr>cs_cl := cl, cs_bls := linked (cs_bls s) c (take n F) ?v sz\<rparr>)"
    and cl: "free_rep cl (drop n F)" "cl_lv cl = cl_lv (cs_cl s)"
    using alloc_loop_ok [of ?s F n c ?v sz] nx(2) need(2) c(1) len by auto
  have "str_alloc s sz klen hash = Some (\<lparr>vi_idx = c, vi_version = ?v\<rparr>,
      allocated s c (take n F) sz klen hash cl)"
    using c bl nx(1) loop blocks
    by (simp add: str_alloc_def Let_def arr_simps allocated_def blocksNeeded_def
        del: last.simps flip: closed_def)
  with cl show ?thesis by blast
qed

lemma str_alloc_empty: "str_inv s [] L \<Longrightarrow> str_alloc s sz klen hash = Some (List_End, s)"
  using nxt_empty [of "cs_cl s"] by (simp add: str_inv_def str_alloc_def Let_def)

section \<open>Writing\<close>

text \<open>\<open>wrote s c d ofst\<close>: the bytes \<open>d\<close> are in block \<open>c\<close> from \<open>ofst\<close> on.\<close>

definition wrote :: "cncr_str \<Rightarrow> u32 \<Rightarrow> bytes \<Rightarrow> nat \<Rightarrow> cncr_str" where
  "wrote s c d ofst = (let a = unat c * unat (cs_blockSize s) + ofst
     in s\<lparr>cs_blks := take a (cs_blks s) @ d @ drop (a + length d) (cs_blks s)\<rparr>)"

lemma wrote_fields [simp]:
  "cs_cl (wrote s c d k) = cs_cl s" "cs_bls (wrote s c d k) = cs_bls s"
  "cs_version (wrote s c d k) = cs_version s" "cs_blockSize (wrote s c d k) = cs_blockSize s"
  by (simp_all add: wrote_def Let_def)

lemma wrote_in:
  assumes "str_wf s" and "unat (c :: u32) < length (cs_bls s)" and "ofst + length d \<le> unat (cs_blockSize s)"
  shows "unat c * unat (cs_blockSize s) + ofst + length d \<le> length (cs_blks s)"
  using blockFreePtr_eq [OF assms(1,2)] assms(3) by simp

lemma wrote_wf:
  assumes "str_wf s" and "unat c < length (cs_bls s)" and "ofst + length d \<le> unat (cs_blockSize s)"
  shows "str_wf (wrote s c d ofst)"
  using assms(1) wrote_in [OF assms] by (simp add: str_wf_def wrote_def Let_def)

lemma writeBlock_ok:
  assumes "str_wf s" and "unat c < length (cs_bls s)" and "0 < unat l" and "unat l \<le> length src"
    and "unat ofst + unat l \<le> unat (cs_blockSize s)"
  shows "writeBlock s c src l ofst = Some (l, wrote s c (take (unat l) src) (unat ofst))"
proof -
  have "l \<noteq> 0" using assms(3) by auto
  then show ?thesis using blockFreePtr_eq [OF assms(1,2)] assms(4-)
    by (simp add: writeBlock_def Let_def arr_simps wrote_def)
qed

lemma writeBlock_whole:
  assumes "str_wf s" and "unat c < length (cs_bls s)" and "unat (cs_blockSize s) \<le> length src"
  shows "writeBlock s c src 0 0 =
    Some (cs_blockSize s, wrote s c (take (unat (cs_blockSize s)) src) 0)"
  using blockFreePtr_eq [OF assms(1,2)] assms(3-)
  by (simp add: writeBlock_def Let_def arr_simps wrote_def)

lemma block_wrote_same:
  assumes "str_wf s" and "unat c < length (cs_bls s)" and "ofst + length d \<le> unat (cs_blockSize s)"
  shows "block (wrote s c d ofst) c =
    take ofst (block s c) @ d @ drop (ofst + length d) (block s c)"
proof -
  let ?b = "unat (cs_blockSize s)" and ?a = "unat c * unat (cs_blockSize s)"
  have len: "?a + ?b \<le> length (cs_blks s)"
    using blockFreePtr_eq [OF assms(1,2)] by simp
  have "drop ?a (take (?a + ofst) (cs_blks s) @ d @ drop (?a + ofst + length d) (cs_blks s)) =
      take ofst (drop ?a (cs_blks s)) @ d @ drop (?a + ofst + length d) (cs_blks s)"
    using len assms(3) by (simp add: drop_take)
  moreover have "take ?b (take ofst (drop ?a (cs_blks s)) @ d @ drop (?a + ofst + length d) (cs_blks s)) =
      take ofst (drop ?a (cs_blks s)) @ d @
      take (?b - (ofst + length d)) (drop (?a + ofst + length d) (cs_blks s))"
    using len assms(3) by (simp add: min_absorb2)
  ultimately show ?thesis
    using assms(3) by (simp add: block_def wrote_def Let_def drop_take min_absorb1 ac_simps)
qed

lemma block_wrote_other:
  assumes "str_wf s" and "unat c < length (cs_bls s)" and "ofst + length d \<le> unat (cs_blockSize s)"
    and "unat x < length (cs_bls s)" and "x \<noteq> c"
  shows "block (wrote s c d ofst) x = block s x"
proof -
  let ?b = "unat (cs_blockSize s)"
  let ?a = "unat c * ?b + ofst"
  have in_range: "?a + length d \<le> length (cs_blks s)"
    using wrote_in [OF assms(1-3)] by simp
  consider "unat x < unat c" | "unat c < unat x"
    using assms(5) unat_inj_index [of x c] by linarith
  then show ?thesis
  proof cases
    case 1
    then have "(unat x + 1) * ?b \<le> unat c * ?b" by (intro mult_le_mono1) simp
    then have "unat x * ?b + ?b \<le> ?a" by simp
    then show ?thesis
      using take_drop_before [OF _ in_range] by (simp add: block_def wrote_def Let_def)
  next
    case 2
    then have "(unat c + 1) * ?b \<le> unat x * ?b" by (intro mult_le_mono1) simp
    then have "?a + length d \<le> unat x * ?b" using assms(3) by simp
    then show ?thesis
      using take_drop_after [OF _ in_range] by (simp add: block_def wrote_def Let_def)
  qed
qed

text \<open>\<open>only_blocks X s s'\<close>: \<open>s'\<close> differs from \<open>s\<close> at most in the bytes of the blocks \<open>X\<close>.\<close>

definition only_blocks :: "u32 set \<Rightarrow> cncr_str \<Rightarrow> cncr_str \<Rightarrow> bool" where
  "only_blocks X s s' \<longleftrightarrow> s' = s\<lparr>cs_blks := cs_blks s'\<rparr> \<and> str_wf s' \<and>
     (\<forall>x. unat x < length (cs_bls s) \<longrightarrow> x \<notin> X \<longrightarrow> block s' x = block s x)"

lemma only_blocks_refl: "str_wf s \<Longrightarrow> only_blocks X s s"
  by (simp add: only_blocks_def)

lemma only_blocks_fields:
  assumes "only_blocks X s s'"
  shows "cs_cl s' = cs_cl s" "cs_bls s' = cs_bls s" "cs_version s' = cs_version s"
    "cs_blockSize s' = cs_blockSize s" "str_wf s'"
proof -
  have s': "s' = s\<lparr>cs_blks := cs_blks s'\<rparr>" and "str_wf s'"
    using assms by (auto simp: only_blocks_def)
  then show "str_wf s'" by simp
  show "cs_cl s' = cs_cl s" "cs_bls s' = cs_bls s" "cs_version s' = cs_version s"
    "cs_blockSize s' = cs_blockSize s" by (subst s', simp)+
qed

lemma only_blocks_trans: "only_blocks X s s' \<Longrightarrow> only_blocks Y s' s'' \<Longrightarrow> only_blocks (X \<union> Y) s s''"
  using only_blocks_fields [of X s s'] unfolding only_blocks_def by (metis UnCI cncr_str.surjective
      cncr_str.update_convs(3) cncr_str.ext_inject)

lemma only_blocks_mono: "only_blocks X s s' \<Longrightarrow> X \<subseteq> Y \<Longrightarrow> only_blocks Y s s'"
  by (auto simp: only_blocks_def)

lemma only_blocks_wrote:
  assumes "str_wf s" and "unat c < length (cs_bls s)" and "ofst + length d \<le> unat (cs_blockSize s)"
  shows "only_blocks {c} s (wrote s c d ofst)"
  using wrote_wf [OF assms] block_wrote_other [OF assms]
  by (simp add: only_blocks_def)

text \<open>The loops over whole blocks fill the next \<open>k\<close> blocks of the chain.\<close>

lemma put_blocks_chain:
  assumes "str_wf s" and "bl_path (cs_bls s) cur cs" and "distinct cs" and "k \<le> length cs"
    and "k * unat (cs_blockSize s) \<le> length b"
  shows "\<exists>cur' s'. put_blocks k s cur b = Some (cur', drop (k * unat (cs_blockSize s)) b, s') \<and>
    bl_path (cs_bls s) cur' (drop k cs) \<and> only_blocks (set (take k cs)) s s' \<and>
    contents s' (take k cs) = take (k * unat (cs_blockSize s)) b"
  using assms
proof (induction k arbitrary: s cur cs b)
  case 0
  then show ?case by (simp add: only_blocks_refl)
next
  case (Suc k)
  then obtain c cs' where cs: "cs = c # cs'" by (cases cs) auto
  let ?b = "unat (cs_blockSize s)"
  let ?s = "wrote s c (take ?b b) 0"
  have c: "cur = c" "unat c < length (cs_bls s)" "bl_path (cs_bls s) (bl_idx (cs_bls s ! unat c)) cs'"
    "c \<notin> set cs'" "distinct cs'"
    using Suc.prems cs by auto
  have len: "?b \<le> length b" using Suc.prems(5) by simp
  have one: "only_blocks {c} s ?s" and wf: "str_wf ?s"
    using only_blocks_wrote wrote_wf Suc.prems(1) c(2) len by simp_all
  have "\<exists>cur' s'. put_blocks k ?s (bl_idx (cs_bls s ! unat c)) (drop ?b b) =
        Some (cur', drop (k * unat (cs_blockSize ?s)) (drop ?b b), s') \<and>
      bl_path (cs_bls ?s) cur' (drop k cs') \<and> only_blocks (set (take k cs')) ?s s' \<and>
      contents s' (take k cs') = take (k * unat (cs_blockSize ?s)) (drop ?b b)"
    using wf c Suc.prems cs by (intro Suc.IH) simp_all
  then obtain cur' s' where put: "put_blocks k ?s (bl_idx (cs_bls s ! unat c)) (drop ?b b) =
        Some (cur', drop (k * ?b) (drop ?b b), s')"
    and s': "bl_path (cs_bls s) cur' (drop k cs')" "only_blocks (set (take k cs')) ?s s'"
      "contents s' (take k cs') = take (k * ?b) (drop ?b b)" by auto
  have "block s' c = block ?s c"
    using s'(2) c(2,4) by (auto simp: only_blocks_def dest: in_set_takeD)
  also have "\<dots> = take ?b b"
    using block_wrote_same [OF Suc.prems(1) c(2), of 0 "take ?b b"] len
      length_block [OF Suc.prems(1) c(2)] by simp
  finally have "contents s' (take (Suc k) cs) = take ((Suc k) * ?b) b"
    using s'(3) cs by (simp add: take_add)
  moreover have "only_blocks (set (take (Suc k) cs)) s s'"
    using only_blocks_trans [OF one s'(2)] cs by simp
  moreover have "put_blocks (Suc k) s cur b = Some (cur', drop ((Suc k) * ?b) b, s')"
    using put c writeBlock_whole [OF Suc.prems(1) c(2) len]
    by (simp add: nxtBlock_in add.commute)
  ultimately show ?case using s'(1) cs by auto
qed

text \<open>The value's last part: whole blocks, then the rest of it at the start of one more block.\<close>

lemma put_tail:
  assumes "str_wf s" and "bl_path (cs_bls s) cur cs" and "distinct cs"
    and "unat pw = length w div unat (cs_blockSize s)" and "unat rw = length w mod unat (cs_blockSize s)"
    and "ceil_div (length w) (unat (cs_blockSize s)) \<le> length cs"
  shows "\<exists>s'. do {
      (cur, b, s) \<leftarrow> put_blocks (unat pw) s cur w;
      (if rw \<noteq> 0 then do { (_, s) \<leftarrow> writeBlock s cur b rw 0; Some s } else Some s)
    } = Some s' \<and> only_blocks (set cs) s s' \<and> take (length w) (contents s' cs) = w"
proof -
  let ?b = "unat (cs_blockSize s)" and ?k = "length w div unat (cs_blockSize s)"
  have b: "0 < ?b" using assms(1) by (simp add: str_wf_def)
  have k: "?k \<le> length cs" using assms(6) by (simp add: ceil_div_def split: if_splits)
  have kb: "?k * ?b \<le> length w" by simp
  obtain cur' s' where put: "put_blocks ?k s cur w = Some (cur', drop (?k * ?b) w, s')"
    and s': "bl_path (cs_bls s) cur' (drop ?k cs)" "only_blocks (set (take ?k cs)) s s'"
      "contents s' (take ?k cs) = take (?k * ?b) w"
    using put_blocks_chain [OF assms(1-3) k kb] by auto
  note f = only_blocks_fields [OF s'(2)]
  have bnd: "\<forall>c \<in> set cs. unat c < length (cs_bls s)" using assms(2) by (auto dest: bl_path_bound)
  show ?thesis
  proof (cases "length w mod ?b = 0")
    case True
    then have "?k * ?b = length w" by auto
    moreover have "contents s' cs = contents s' (take ?k cs) @ contents s' (drop ?k cs)"
      by (metis append_take_drop_id contents_append)
    moreover have "only_blocks (set cs) s s'"
      using s'(2) by (auto simp: only_blocks_def dest: in_set_takeD)
    moreover have "rw = 0" using True assms(5) by (simp add: unat_eq_0)
    ultimately show ?thesis using put s'(3) assms(4) by simp
  next
    case False
    then have "?k < length cs" using assms(6) by (simp add: ceil_div_def)
    then obtain d ds where dr: "drop ?k cs = d # ds" by (cases "drop ?k cs") auto
    with s'(1) have d: "cur' = d" "unat d < length (cs_bls s')" using f by auto
    have tl: "length w - ?k * ?b = length w mod ?b" by (simp add: minus_div_mult_eq_mod)
    let ?t = "drop (?k * ?b) w"
    let ?s = "wrote s' d ?t 0"
    have le: "length ?t < ?b" using b tl by simp
    have "writeBlock s' d ?t rw 0 = Some (rw, ?s)"
      using writeBlock_ok [OF f(5) d(2), of rw ?t 0] False assms(5) tl le f(4) by auto
    moreover have nd: "d \<notin> set (take ?k cs)"
      using assms(3) dr by (metis append_take_drop_id disjoint_insert(1) distinct_append list.simps(15))
    have one: "only_blocks {d} s' ?s"
      using le f d by (intro only_blocks_wrote) simp_all
    then have "contents ?s (take ?k cs) = contents s' (take ?k cs)"
      using nd bnd f by (intro contents_cong) (auto simp: only_blocks_def dest: in_set_takeD)
    moreover have "block ?s d = ?t @ drop (length ?t) (block s' d)"
      using block_wrote_same [OF f(5) d(2), of 0 ?t] le f by simp
    moreover have "contents ?s cs = contents ?s (take ?k cs) @ block ?s d @ contents ?s ds"
      by (metis append_take_drop_id contents_append contents_simps(2) dr)
    moreover have "d \<in> set cs" using dr in_set_dropD [of d ?k cs] by simp
    then have "set (take ?k cs) \<union> {d} \<subseteq> set cs" by (auto dest: in_set_takeD)
    then have "only_blocks (set cs) s ?s"
      by (rule only_blocks_mono [OF only_blocks_trans [OF s'(2) one]])
    moreover have "rw \<noteq> 0" using False assms(5) by auto
    ultimately show ?thesis
      using put s'(3) assms(4) d tl by simp
  qed
qed

text \<open>The key's last part and the value's first part share a block.\<close>

lemma put_mid:
  assumes "str_wf s" and "unat c < length (cs_bls s)" and "0 < length u" and "0 < unat fw"
    and "unat rw = length u" and "unat rw + unat fw \<le> unat (cs_blockSize s)"
    and "unat fw \<le> length v"
  shows "\<exists>s'. do {
      (_, s) \<leftarrow> writeBlock s c u rw 0;
      (n, s) \<leftarrow> writeBlock s c v fw rw;
      nx \<leftarrow> nxtBlock s c;
      Some (vi_idx nx, drop (unat n) v, s)
    } = Some (bl_idx (cs_bls s ! unat c), drop (unat fw) v, s') \<and> only_blocks {c} s s' \<and>
    (\<exists>j. block s' c = u @ take (unat fw) v @ j \<and>
      length j = unat (cs_blockSize s) - (length u + unat fw))"
proof -
  let ?b = "unat (cs_blockSize s)" and ?d = "take (unat fw) v"
  let ?s = "wrote s c u 0"
  let ?s' = "wrote ?s c ?d (length u)"
  have w1: "writeBlock s c u rw 0 = Some (rw, ?s)"
    using writeBlock_ok [OF assms(1,2), of rw u 0] assms(3-6) by auto
  have u: "0 + length u \<le> ?b" using assms(5,6) by simp
  have wf: "str_wf ?s" using wrote_wf [OF assms(1,2) u] .
  have d: "length u + length ?d \<le> ?b" using assms(5-7) by simp
  have w2: "writeBlock ?s c v fw rw = Some (fw, ?s')"
    using writeBlock_ok [OF wf, of c fw v rw] assms by auto
  have "only_blocks ({c} \<union> {c}) s ?s'"
    using assms(1,2) wf u d by (intro only_blocks_trans [of _ s ?s] only_blocks_wrote) simp_all
  moreover have "block ?s c = u @ drop (length u) (block s c)"
    using block_wrote_same [OF assms(1,2) u] by simp
  then have "block ?s' c = u @ ?d @ drop (length u + length ?d) (block s c)"
    using block_wrote_same [OF wf, of c "length u" ?d] assms(2) d by (simp add: add.commute)
  moreover have "length (drop (length u + length ?d) (block s c)) = ?b - (length u + unat fw)"
    using assms(1,2,7) by (simp add: length_block)
  ultimately show ?thesis
    using w1 w2 assms(2) by (intro exI [of _ ?s']) (auto simp: nxtBlock_in)
qed

lemma put_words:
  assumes "0 < unat (cs_blockSize s)" and "unat kw mod unat (cs_blockSize s) \<noteq> 0"
    and "kb = blocksNeeded s kw - 1" and "rw = kw - kb * cs_blockSize s"
  shows "unat kb = unat kw div unat (cs_blockSize s)" and "unat rw = unat kw mod unat (cs_blockSize s)"
proof -
  let ?b = "unat (cs_blockSize s)"
  have n: "unat (blocksNeeded s kw) = Suc (unat kw div ?b)"
    using blocksNeeded_eq [OF assms(1), of kw] assms(2) by (simp add: ceil_div_def)
  then show kb: "unat kb = unat kw div ?b" using assms(3) by (simp add: unat_sub_u32)
  have le: "unat kb * ?b \<le> unat kw" by (simp add: kb)
  then have "unat (kb * cs_blockSize s) = unat kb * ?b"
    by (rule unat_mult_u32 [OF le_less_trans [OF _ unat_lt_u32]])
  then show "unat rw = unat kw mod ?b"
    using assms(4) le by (simp add: unat_sub_u32 kb minus_div_mult_eq_mod)
qed

lemma tail_words:
  assumes "0 < unat (cs_blockSize s)" and "jag \<longleftrightarrow> tw mod cs_blockSize s \<noteq> 0"
    and "vb = (if jag then blocksNeeded s tw - 1 else blocksNeeded s tw)"
    and "rw = max 0 (tw - vb * cs_blockSize s)"
  shows "unat vb = unat tw div unat (cs_blockSize s)" and "unat rw = unat tw mod unat (cs_blockSize s)"
    and "(jag \<and> 0 < rw) = (rw \<noteq> 0)"
proof -
  let ?b = "unat (cs_blockSize s)"
  have jag: "jag \<longleftrightarrow> unat tw mod ?b \<noteq> 0"
    using assms(2) by (metis unat_eq_0 unat_mod)
  have rw: "rw = tw - vb * cs_blockSize s" using assms(4) by (simp add: max_def)
  have "unat vb = unat tw div ?b \<and> unat rw = unat tw mod ?b"
  proof (cases jag)
    case True
    with jag assms(1,3) rw put_words [of s tw vb rw] show ?thesis by simp
  next
    case False
    with jag have m: "unat tw mod ?b = 0" by simp
    then have vb: "unat vb = unat tw div ?b"
      using blocksNeeded_eq [OF assms(1), of tw] assms(3) False by (simp add: ceil_div_def)
    have eq: "unat vb * ?b = unat tw" using m by (auto simp: vb)
    then have "unat (vb * cs_blockSize s) = unat tw"
      using unat_mult_u32 [of vb "cs_blockSize s"] unat_lt_u32 [of tw] by simp
    then have "vb * cs_blockSize s = tw" by (simp add: word_unat_eq_iff)
    with rw vb m show ?thesis by simp
  qed
  then show vb: "unat vb = unat tw div ?b" and r: "unat rw = unat tw mod ?b" by auto
  show "(jag \<and> 0 < rw) = (rw \<noteq> 0)"
    using r jag by (auto simp: word_gt_0 unat_eq_0)
qed

text \<open>\<open>put\<close> for a key that ends inside a block, with its local variables named.\<close>

lemma str_put_eq:
  assumes "kb = blocksNeeded s kw - 1" and "rw = kw - kb * cs_blockSize s"
    and "fw = min vw (cs_blockSize s - rw)" and "tw = vw - fw"
    and "jag \<longleftrightarrow> tw mod cs_blockSize s \<noteq> 0"
    and "vb = (if jag then blocksNeeded s tw - 1 else blocksNeeded s tw)"
    and "rv = max 0 (tw - vb * cs_blockSize s)" and "kw mod cs_blockSize s \<noteq> 0"
  shows "str_put s h key kw val vw = do {
      (cur, b, s) \<leftarrow> put_blocks (unat kb) s h key;
      (cur, b, s) \<leftarrow> do {
        (_, s) \<leftarrow> writeBlock s cur b rw 0;
        (n, s) \<leftarrow> writeBlock s cur val fw rw;
        nx \<leftarrow> nxtBlock s cur;
        Some (vi_idx nx, drop (unat n) val, s)
      };
      (cur, b, s) \<leftarrow> put_blocks (unat vb) s cur b;
      (if jag \<and> 0 < rv then do { (_, s) \<leftarrow> writeBlock s cur b rv 0; Some s } else Some s)
    }"
  using assms(8) unfolding str_put_def Let_def assms(1-7) by (simp only: not_False_eq_True if_True)

lemma str_put_ok:
  assumes wf: "str_wf s" and path: "bl_path (cs_bls s) h cs" and dist: "distinct cs"
    and K: "length key mod unat (cs_blockSize s) \<noteq> 0" and V: "0 < length val"
    and size: "length key + length val < 2 ^ 32"
    and cs: "ceil_div (length key + length val) (unat (cs_blockSize s)) \<le> length cs"
  shows "\<exists>s'. str_put s h key (of_nat (length key)) val (of_nat (length val)) = Some s' \<and>
    only_blocks (set cs) s s' \<and> take (length key + length val) (contents s' cs) = key @ val"
proof -
  let ?bs = "cs_blockSize s"
  let ?b = "unat ?bs" and ?q = "length key div unat ?bs" and ?r = "length key mod unat ?bs"
  define kw vw :: u32 where "kw = of_nat (length key)" and "vw = of_nat (length val)"
  define kb where "kb = blocksNeeded s kw - 1"
  define rw where "rw = kw - kb * ?bs"
  define fw where "fw = min vw (?bs - rw)"
  define tw where "tw = vw - fw"
  define jag where "jag \<longleftrightarrow> tw mod ?bs \<noteq> 0"
  define vb where "vb = (if jag then blocksNeeded s tw - 1 else blocksNeeded s tw)"
  define rv where "rv = max 0 (tw - vb * ?bs)"
  have b: "0 < ?b" using wf by (simp add: str_wf_def)
  have kw: "unat kw = length key" and vw: "unat vw = length val"
    unfolding kw_def vw_def using size by (auto intro: unat_of_nat_u32)
  have kjag: "kw mod ?bs \<noteq> 0" using K kw by (metis unat_0 unat_mod)
  have kb: "unat kb = ?q" and rw: "unat rw = ?r"
    using put_words [OF b _ kb_def rw_def] K kw by auto
  have r: "0 < ?r" "?r < ?b" using K b by auto
  have fw: "unat fw = min (length val) (?b - ?r)"
    using r rw vw by (simp add: fw_def min_def word_le_nat_alt unat_sub_u32)
  have tw: "unat tw = length val - unat fw"
    using vw fw by (simp add: tw_def unat_sub_u32)
  let ?w = "drop (unat fw) val"
  have tlen: "length ?w = unat tw" using tw by simp
  have vb: "unat vb = length ?w div ?b" and rv: "unat rv = length ?w mod ?b"
    and rv0: "(jag \<and> 0 < rv) = (rv \<noteq> 0)"
    unfolding tlen by (rule tail_words [OF b jag_def vb_def rv_def])+
  have q: "?q < length cs"
    using div_less_ceil [of "length key" "length key + length val" ?b] V b cs by simp
  have bnd: "\<forall>c \<in> set cs. unat c < length (cs_bls s)" using path by (auto dest: bl_path_bound)
  obtain cur' s1 where put: "put_blocks ?q s h key = Some (cur', drop (?q * ?b) key, s1)"
    and s1: "bl_path (cs_bls s) cur' (drop ?q cs)" "only_blocks (set (take ?q cs)) s s1"
      "contents s1 (take ?q cs) = take (?q * ?b) key"
    using put_blocks_chain [OF wf path dist less_imp_le [OF q], of key] by auto
  obtain c ds where dr: "drop ?q cs = c # ds" using q by (cases "drop ?q cs") auto
  note f1 = only_blocks_fields [OF s1(2)]
  have c: "cur' = c" "unat c < length (cs_bls s)" "bl_path (cs_bls s) (bl_idx (cs_bls s ! unat c)) ds"
    using s1(1) dr by auto
  have parts: "cs = take ?q cs @ c # ds" using dr by (metis append_take_drop_id)
  have nd: "c \<notin> set (take ?q cs)" "set (take ?q cs) \<inter> set ds = {}" "c \<notin> set ds" "distinct ds"
    using dist by (subst (asm) parts, auto)+
  let ?u = "drop (?q * ?b) key"
  have ulen: "length ?u = ?r" by (simp add: minus_div_mult_eq_mod)
  have fw0: "0 < unat fw" "unat rw + unat fw \<le> ?b" "unat fw \<le> length val"
    using fw rw r V by auto
  obtain s2 j where mid: "do {
      (_, s) \<leftarrow> writeBlock s1 c ?u rw 0;
      (n, s) \<leftarrow> writeBlock s c val fw rw;
      nx \<leftarrow> nxtBlock s c;
      Some (vi_idx nx, drop (unat n) val, s)
    } = Some (bl_idx (cs_bls s ! unat c), ?w, s2)"
    and s2: "only_blocks {c} s1 s2" "block s2 c = ?u @ take (unat fw) val @ j"
      "length j = ?b - (length ?u + unat fw)"
  proof -
    have "0 < length ?u" and "unat rw = length ?u" using ulen rw r(1) by simp_all
    from put_mid [of s1 c ?u fw rw val, unfolded f1(1-4), OF f1(5) c(2) this(1) fw0(1) this(2) fw0(2,3)]
    show ?thesis using that by blast
  qed
  note f2 = only_blocks_fields [OF s2(1)]
  have dl: "length ds = length cs - Suc ?q" using arg_cong [OF dr, of length] by simp
  have tail_fits: "ceil_div (length ?w) ?b \<le> length ds"
  proof (cases "unat fw = length val")
    case True
    then show ?thesis by (simp add: ceil_div_def)
  next
    case False
    then have full: "unat fw = ?b - ?r" and le: "?b - ?r < length val" using fw by auto
    have "length key + length val = length ?w + (Suc ?q) * ?b"
      using full le r(2) div_mult_mod_eq [of "length key" ?b] by simp
    then have "ceil_div (length key + length val) ?b = ceil_div (length ?w) ?b + Suc ?q"
      using b by (simp only: ceil_div_def div_mult_self1 mod_mult_self1)
    then show ?thesis using cs dl by simp
  qed
  obtain s3 where tail: "do {
      (cur, b, s) \<leftarrow> put_blocks (unat vb) s2 (bl_idx (cs_bls s ! unat c)) ?w;
      (if rv \<noteq> 0 then do { (_, s) \<leftarrow> writeBlock s cur b rv 0; Some s } else Some s)
    } = Some s3"
    and s3: "only_blocks (set ds) s2 s3" "take (length ?w) (contents s3 ds) = ?w"
    using put_tail [of s2 "bl_idx (cs_bls s ! unat c)" ds vb ?w rv] f1 f2 c(3) nd(4) vb rv tail_fits
    by auto
  have "str_put s h key kw val vw = Some s3"
    unfolding str_put_eq [OF kb_def rw_def fw_def tw_def jag_def vb_def rv_def kjag]
    by (simp only: kb put bind.bind_lunit prod.case c(1) mid tail rv0)
  moreover have "only_blocks (set cs) s s3"
    by (rule only_blocks_mono [OF only_blocks_trans [OF only_blocks_trans [OF s1(2) s2(1)] s3(1)]])
      (subst parts, auto)
  moreover have "take (length key + length val) (contents s3 cs) = key @ val"
  proof -
    have "contents s3 (take ?q cs) = take (?q * ?b) key"
      unfolding s1(3) [symmetric]
    proof (rule contents_cong)
      fix x assume x: "x \<in> set (take ?q cs)"
      then have "x \<noteq> c" "x \<notin> set ds" "unat x < length (cs_bls s)"
        using nd bnd by (auto dest: in_set_takeD)
      then show "block s3 x = block s1 x"
        using only_blocks_trans [OF s2(1) s3(1)] f1 by (simp add: only_blocks_def)
    qed
    moreover have "block s3 c = ?u @ take (unat fw) val @ j"
      using s2(2) s3(1) nd c(2) f1 f2 by (simp add: only_blocks_def)
    moreover have "contents s3 cs = contents s3 (take ?q cs) @ block s3 c @ contents s3 ds"
      by (metis parts contents_append contents_simps(2))
    ultimately have all: "contents s3 cs = key @ take (unat fw) val @ j @ contents s3 ds"
      by simp
    show ?thesis
    proof (cases "unat fw = length val")
      case True
      with all show ?thesis by simp
    next
      case False
      then have "j = []" using fw s2(3) ulen r by simp
      with all s3(2) have "take (length key + length val) (contents s3 cs) =
          key @ take (unat fw) val @ take (length ?w) (contents s3 ds)"
        using fw0(3) by simp
      with s3(2) show ?thesis by simp
    qed
  qed
  ultimately show ?thesis by (auto simp: kw_def vw_def)
qed

section \<open>Storing a blob\<close>

text \<open>What \<open>alloc\<close> and \<open>put\<close> leave behind is the store with one blob more and its blocks taken from
  the front of the free list.\<close>

lemma allocated_fields [simp]:
  "cs_cl (allocated s st ds sz klen hash cl) = cl"
  "cs_blks (allocated s st ds sz klen hash cl) = cs_blks s"
  "cs_blockSize (allocated s st ds sz klen hash cl) = cs_blockSize s"
  "cs_version (allocated s st ds sz klen hash cl) = cs_version s + 1"
  "length (cs_bls (allocated s st ds sz klen hash cl)) = length (cs_bls s)"
  by (simp_all add: allocated_def Let_def)

lemma allocated_block [simp]: "block (allocated s st ds sz klen hash cl) = block s"
  by (simp add: block_def fun_eq_iff)

lemma allocated_other: "c \<notin> set (st # ds) \<Longrightarrow>
  cs_bls (allocated s st ds sz klen hash cl) ! unat c = cs_bls s ! unat c"
  by (auto simp: allocated_def Let_def closed_other nth_list_update unat_inj_index)

lemma allocated_rec:
  assumes "c \<in> set (st # ds)" and "distinct (st # ds)" and "\<forall>c \<in> set (st # ds). unat c < length (cs_bls s)"
    and "sz \<noteq> 0"
  shows "rec_ok (allocated s st ds sz klen hash cl) (ucast (cs_version s)) c"
proof -
  obtain i where "closed (cs_bls s) st ds (ucast (cs_version s)) sz ! unat c =
      BlkLst False 0 i (ucast (cs_version s)) sz 0 0"
    using closed_rec [OF assms(1-3)] by blast
  then show ?thesis using assms
    by (cases "c = st") (auto simp: rec_ok_def allocated_def Let_def BlkLst_def unat_inj_index)
qed

lemma allocated_head:
  assumes "distinct (st # ds)" and "\<forall>c \<in> set (st # ds). unat c < length (cs_bls s)"
  shows "bl_hash (cs_bls (allocated s st ds sz klen hash cl) ! unat st) = hash"
    and "bl_len (cs_bls (allocated s st ds sz klen hash cl) ! unat st) = sz"
    and "bl_klen (cs_bls (allocated s st ds sz klen hash cl) ! unat st) = klen"
  using assms by (simp_all add: allocated_def Let_def)

lemma allocated_path:
  assumes "distinct (st # ds)" and "\<forall>c \<in> set (st # ds). unat c < length (cs_bls s)"
  shows "bl_path (cs_bls (allocated s st ds sz klen hash cl)) st (st # ds)"
proof -
  have "bl_path (cs_bls (allocated s st ds sz klen hash cl)) st (st # ds) =
      bl_path (closed (cs_bls s) st ds (ucast (cs_version s)) sz) st (st # ds)"
    using assms
    by (intro bl_path_cong) (auto simp: allocated_def Let_def nth_list_update unat_inj_index)
  then show ?thesis using closed_path [OF assms] by simp
qed

lemma blob_ok_allocated:
  assumes "blob_ok s o'" and "set (bo_chain o') \<inter> set (st # ds) = {}" and "cl_lv cl = cl_lv (cs_cl s)"
  shows "blob_ok (allocated s st ds sz klen hash cl) o'"
proof (rule blob_ok_frame [OF assms(1)])
  have "c \<notin> set (st # ds)" if "c \<in> set (bo_chain o')" for c using that assms(2) by blast
  then show "same_on (set (bo_chain o')) s (allocated s st ds sz klen hash cl)"
    using assms(3) by (simp add: same_on_def allocated_other)
qed

lemma blob_ok_only_blocks:
  assumes "blob_ok s o'" and "set (bo_chain o') \<inter> X = {}" and "only_blocks X s s'"
  shows "blob_ok s' o'"
proof (rule blob_ok_frame [OF assms(1)])
  have "block s' c = block s c" if "c \<in> set (bo_chain o')" for c
    using that assms blob_bound [OF assms(1) that] by (auto simp: only_blocks_def)
  then show "same_on (set (bo_chain o')) s s'"
    using only_blocks_fields [OF assms(3)] by (simp add: same_on_def)
qed

text \<open>The blob that storing makes.\<close>

definition new_blob :: "cncr_str \<Rightarrow> u32 list \<Rightarrow> u32 \<Rightarrow> bytes \<Rightarrow> bytes \<Rightarrow> blob" where
  "new_blob s F hash key val = \<lparr>bo_ver = ucast (cs_version s),
     bo_chain = take (ceil_div (length key + length val) (unat (cs_blockSize s))) F,
     bo_hash = hash, bo_key = key, bo_val = val\<rparr>"

text \<open>A key and value the store can hold: the key ends inside a block, the value is not empty, the
  total fits 32 bits, and the free list has the blocks.\<close>

definition storable :: "cncr_str \<Rightarrow> u32 list \<Rightarrow> bytes \<Rightarrow> bytes \<Rightarrow> bool" where
  "storable s F key val \<longleftrightarrow> length key mod unat (cs_blockSize s) \<noteq> 0 \<and> val \<noteq> [] \<and>
     length key + length val < 2 ^ 32 \<and> (ucast (cs_version s) :: u32) \<noteq> 0 \<and>
     ceil_div (length key + length val) (unat (cs_blockSize s)) \<le> length F"

lemma store_blob:
  assumes inv: "str_inv s F L" and st: "storable s F key val"
  shows "\<exists>s1 s2. str_alloc s (of_nat (length key) + of_nat (length val)) (of_nat (length key)) hash =
        Some (\<lparr>vi_idx = bo_head (new_blob s F hash key val), vi_version = ucast (cs_version s)\<rparr>, s1) \<and>
      str_put s1 (bo_head (new_blob s F hash key val)) key (of_nat (length key)) val
        (of_nat (length val)) = Some s2 \<and>
      str_inv s2 (drop (ceil_div (length key + length val) (unat (cs_blockSize s))) F)
        (new_blob s F hash key val # L) \<and>
      cs_version s2 = cs_version s + 1 \<and> cs_blockSize s2 = cs_blockSize s \<and>
      length (cs_bls s2) = length (cs_bls s)"
proof -
  let ?b = "unat (cs_blockSize s)" and ?K = "length key" and ?V = "length val"
  let ?n = "ceil_div (?K + ?V) ?b" and ?o = "new_blob s F hash key val"
  define sz :: u32 where "sz = of_nat ?K + of_nat ?V"
  have wf: "str_wf s" and fr: "free_rep (cs_cl s) F" and disj: "distinct (F @ concat (map bo_chain L))"
    using inv by (auto simp: str_inv_def)
  have b: "0 < ?b" and len: "length (cl_lv (cs_cl s)) = length (cs_bls s)"
    using wf by (auto simp: str_wf_def)
  have K0: "?K mod ?b \<noteq> 0" and V0: "0 < ?V" and sz32: "?K + ?V < 2 ^ 32"
    and v0: "(ucast (cs_version s) :: u32) \<noteq> 0" and n: "?n \<le> length F"
    using st by (auto simp: storable_def)
  have sz: "unat sz = ?K + ?V"
    unfolding sz_def of_nat_add [symmetric] using sz32 by (rule unat_of_nat_u32)
  have kl: "unat (of_nat ?K :: u32) = ?K" using sz32 by (intro unat_of_nat_u32) simp
  have n0: "Suc (?n - 1) = ?n" using V0 b by (intro ceil_div_gt1) simp_all
  then obtain c F' where F: "F = c # F'" using n by (cases F) auto
  define ds where "ds = take (?n - 1) F'"
  have chain: "take ?n F = c # ds" and rest: "drop ?n F = drop (?n - 1) F'"
    using n0 F by (auto simp: ds_def take_Cons' drop_Cons')
  have head: "bo_head ?o = c" "bo_chain ?o = c # ds" "bo_ver ?o = ucast (cs_version s)"
    "bo_key ?o = key" "bo_val ?o = val" "bo_hash ?o = hash" "bo_size ?o = ?K + ?V"
    by (simp_all add: new_blob_def bo_head_def bo_size_def chain)
  have parts: "F = (c # ds) @ drop ?n F" using chain by (metis append_take_drop_id)
  have dist: "distinct (c # ds)" and sub: "set (c # ds) \<subseteq> set F"
    using disj chain by (metis distinct_append distinct_take, metis set_take_subset)
  have bnd: "\<forall>x \<in> set (c # ds). unat x < length (cs_bls s)"
    using sub free_rep_bound [OF fr] len by auto
  obtain cl where alloc: "str_alloc s sz (of_nat ?K) hash =
      Some (\<lparr>vi_idx = c, vi_version = ucast (cs_version s)\<rparr>, allocated s c ds sz (of_nat ?K) hash cl)"
    and cl: "free_rep cl (drop ?n F)" "cl_lv cl = cl_lv (cs_cl s)"
    using str_alloc_ok [OF inv [unfolded F], of sz "?n - 1" "of_nat ?K" hash] sz V0 n n0 rest F
    by (auto simp: ds_def)
  let ?s1 = "allocated s c ds sz (of_nat ?K) hash cl"
  have wf1: "str_wf ?s1" using wf cl(2) by (simp add: str_wf_def flip: length_greater_0_conv)
  have path: "bl_path (cs_bls ?s1) c (c # ds)" using allocated_path [OF dist bnd] .
  have fits: "?n = length (c # ds)" using n n0 F by (simp add: ds_def)
  obtain s2 where put: "str_put ?s1 c key (of_nat ?K) val (of_nat ?V) = Some s2"
    and ob: "only_blocks (set (c # ds)) ?s1 s2"
    and con: "take (?K + ?V) (contents s2 (c # ds)) = key @ val"
    using str_put_ok [OF wf1 path dist, of key val] K0 V0 sz32 fits by auto
  note f = only_blocks_fields [OF ob]
  have "blob_ok s2 o'" if "o' \<in> set L" for o'
  proof -
    have "set (bo_chain o') \<inter> set (c # ds) = {}" using disj that sub by auto
    moreover have "blob_ok s o'" using inv that by (simp add: str_inv_def)
    ultimately show ?thesis
      using blob_ok_only_blocks [OF blob_ok_allocated _ ob] cl(2) by blast
  qed
  moreover have "blob_ok s2 ?o"
  proof -
    have "rec_ok s2 (ucast (cs_version s)) x" if "x \<in> set (c # ds)" for x
    proof -
      have "sz \<noteq> 0" using sz V0 by auto
      then show ?thesis using allocated_rec [OF that dist bnd] f by (simp add: rec_ok_def)
    qed
    moreover have "head_ok s2 ?o"
      using allocated_head [OF dist bnd] sz kl head f by (simp add: head_ok_def Let_def)
    moreover have "lv_path (cl_lv (cs_cl s2)) c (butlast (c # ds)) (last (c # ds))"
    proof -
      have "lv_path (cl_lv (cs_cl s)) c (c # ds @ drop ?n F) LIST_END"
        using fr parts F by (metis free_rep_def lv_path.simps(2) append_Cons)
      then have "lv_path (cl_lv (cs_cl s)) c (butlast (c # ds) @ last (c # ds) # drop ?n F) LIST_END"
        by (metis append_Cons append_butlast_last_id append_assoc append_Nil list.distinct(1))
      then show ?thesis using f cl(2) by (auto simp: lv_path_append)
    qed
    moreover have "key \<noteq> []" using K0 by auto
    ultimately show ?thesis
      using head v0 V0 sz32 path f con fits by (simp add: blob_ok_def)
  qed
  moreover have "distinct (drop ?n F @ concat (map bo_chain (?o # L)))"
    using disj by (subst (asm) parts) (auto simp: head)
  ultimately have "str_inv s2 (drop ?n F) (?o # L)"
    using f cl(1) by (simp add: str_inv_def)
  with alloc put f head show ?thesis by (auto simp: sz_def)
qed

section \<open>Freeing a blob\<close>

lemma upd_idx: "bl_idx b = bl_idx (bls ! i) \<Longrightarrow> bl_idx (bls[i := b] ! j) = bl_idx (bls ! j)"
  by (cases "i < length bls") (auto simp: nth_list_update list_update_beyond)

text \<open>Walking a chain changes no link, and nothing but versions.\<close>

definition only_versions :: "u32 set \<Rightarrow> blk_lst list \<Rightarrow> blk_lst list \<Rightarrow> bool" where
  "only_versions X bls bls' \<longleftrightarrow> length bls' = length bls \<and>
     (\<forall>c. bl_idx (bls' ! unat (c :: u32)) = bl_idx (bls ! unat c)) \<and>
     (\<forall>c. c \<notin> X \<longrightarrow> bls' ! unat c = bls ! unat c)"

lemma only_versions_step:
  assumes "unat p < length bls" and "p \<in> X"
    and "only_versions X (bls[unat p := (bls ! unat p)\<lparr>bl_version := v\<rparr>]) bls'"
  shows "only_versions X bls bls'"
  using assms by (auto simp: only_versions_def nth_list_update unat_inj_index)

lemma findEndSetVersion_chain:
  assumes "bl_path bls cur cs" and "unat prev < length bls" and "length bls < 2 ^ 32"
  shows "\<exists>bls'. findEndSetVersion_loop bls cur prev v = Some (last (prev # cs), bls') \<and>
    only_versions (insert prev (set cs)) bls bls'"
  using assms
proof (induction cs arbitrary: bls cur prev)
  case Nil
  then show ?case by (auto simp: findEndSetVersion_loop.simps [of bls] only_versions_def)
next
  case (Cons c cs)
  let ?bls = "bls[unat prev := (bls ! unat prev)\<lparr>bl_version := v\<rparr>]"
  have idx: "bl_idx (?bls ! unat x) = bl_idx (bls ! unat x)" for x :: u32
    by (simp add: upd_idx)
  have c: "cur = c" "unat c < length bls" "c \<noteq> LIST_END"
    using Cons.prems by (auto dest: not_LIST_END)
  have "bl_path ?bls (bl_idx (bls ! unat c)) cs = bl_path bls (bl_idx (bls ! unat c)) cs"
    by (intro bl_path_cong) (auto simp: idx)
  then have "\<exists>bls'. findEndSetVersion_loop ?bls (bl_idx (bls ! unat c)) c v =
      Some (last (c # cs), bls') \<and> only_versions (insert c (set cs)) ?bls bls'"
    using Cons.prems c by (intro Cons.IH) simp_all
  then obtain bls' where bls': "findEndSetVersion_loop ?bls (bl_idx (bls ! unat c)) c v =
      Some (last (c # cs), bls')" "only_versions (insert c (set cs)) ?bls bls'" by blast
  then have "only_versions (insert prev (set (c # cs))) ?bls bls'"
    by (auto simp: only_versions_def)
  then have "only_versions (insert prev (set (c # cs))) bls bls'"
    using Cons.prems(2) by (intro only_versions_step [of prev bls]) auto
  with bls'(1) Cons.prems(2) c show ?case
    by (simp add: findEndSetVersion_loop.simps [of bls c] arr_simps idx)
qed

lemma str_free_blob:
  assumes inv: "str_inv s F (L1 @ o' # L2)"
  shows "\<exists>s'. str_free s (bo_head o') (bo_ver o') = Some (False, s') \<and>
    str_inv s' (bo_chain o' @ F) (L1 @ L2) \<and> cs_version s' = cs_version s \<and>
    cs_blockSize s' = cs_blockSize s \<and> length (cs_bls s') = length (cs_bls s)"
proof -
  let ?h = "bo_head o'" and ?cs = "bo_chain o'"
  have wf: "str_wf s" and fr: "free_rep (cs_cl s) F" and ok: "blob_ok s o'"
    and disj: "distinct (F @ concat (map bo_chain (L1 @ o' # L2)))"
    using inv by (auto simp: str_inv_def)
  have o: "?cs \<noteq> []" "bl_path (cs_bls s) ?h ?cs"
    "lv_path (cl_lv (cs_cl s)) ?h (butlast ?cs) (last ?cs)" "rec_ok s (bo_ver o') ?h"
    using ok bo_head_in [of o'] by (auto simp: blob_ok_def)
  have h: "unat ?h < length (cs_bls s)" using blob_bound [OF ok bo_head_in [OF o(1)]] .
  have en: "unat (last ?cs) < length (cs_bls s)" using blob_bound [OF ok last_in_set [OF o(1)]] .
  have len: "length (cl_lv (cs_cl s)) = length (cs_bls s)" using wf by (simp add: str_wf_def)
  define kr where "kr = (bl_kr (cs_bls s ! unat ?h))\<lparr>kr_isDeleted := True\<rparr>"
  define bls where "bls = (cs_bls s)[unat ?h := (cs_bls s ! unat ?h)\<lparr>bl_kr := kr\<rparr>]"
  have "bl_path bls ?h ?cs"
    using o(2) by (subst bl_path_cong [of _ bls "cs_bls s"]) (simp_all add: bls_def upd_idx)
  then obtain bls' where walk: "findEndSetVersion_loop bls ?h ?h 0 = Some (last (?h # ?cs), bls')"
    and ov: "only_versions (insert ?h (set ?cs)) bls bls'"
    using findEndSetVersion_chain [of bls ?h ?cs ?h 0] h str_wf_count [OF wf] by (auto simp: bls_def)
  let ?s' = "s\<lparr>cs_bls := bls', cs_cl := pushed (cs_cl s) ?h (last ?cs)\<rparr>"
  have free: "str_free s ?h (bo_ver o') = Some (False, ?s')"
    using o h en walk len
    by (simp add: str_free_def decReadersOrDel_def decReadersOrDel_loop.simps arr_simps rec_ok_def
        Let_def cas_kr_def str_doFree_def findEndSetVersion_def lst_free_eq
        flip: kr_def bls_def)
  have lens: "length bls' = length (cs_bls s)" using ov by (simp add: only_versions_def bls_def)
  have cs: "?cs = butlast ?cs @ [last ?cs]" using o(1) by simp
  have fr': "free_rep (pushed (cs_cl s) ?h (last ?cs)) (?cs @ F)"
  proof -
    have eq: "butlast ?cs @ last ?cs # F = ?cs @ F"
      using o(1) by (metis append_Cons append_Nil append_assoc append_butlast_last_id)
    have "distinct (?cs @ F)" using disj by auto
    then show ?thesis
      using free_rep_pushed [OF fr o(3)] en len unfolding eq by simp
  qed
  have wf': "str_wf ?s'"
    using wf lens by (auto simp: str_wf_def pushed_def)
  have "blob_ok ?s' b" if "b \<in> set (L1 @ L2)" for b
  proof (rule blob_ok_frame)
    show "blob_ok s b" using inv that by (auto simp: str_inv_def)
    have "set (bo_chain b) \<inter> set ?cs = {}" using disj that by auto
    then have "c \<noteq> last ?cs \<and> c \<noteq> ?h \<and> c \<notin> set ?cs" if "c \<in> set (bo_chain b)" for c
      using that o(1) bo_head_in [OF o(1)] last_in_set [OF o(1)] by auto
    then show "same_on (set (bo_chain b)) s ?s'"
      using ov lens by (auto simp: same_on_def only_versions_def bls_def pushed_def block_def
          upd_other)
  qed
  moreover have "distinct ((?cs @ F) @ concat (map bo_chain (L1 @ L2)))" using disj by auto
  ultimately have "str_inv ?s' (?cs @ F) (L1 @ L2)"
    using fr' wf' by (simp add: str_inv_def)
  with free lens show ?thesis by (intro exI [of _ ?s']) simp
qed

section \<open>A new store\<close>

lemma CncrStr_init_inv:
  assumes "4 < bs" and "0 < unat n" and "length lmem = unat n" and "length bmem = unat n * unat bs"
    and "length bmem < 2 ^ 32"
  shows "\<exists>s. CncrStr_init bs n lmem bmem = Some s \<and> str_inv s (map of_nat [0..<unat n]) [] \<and>
    cs_version s = 1 \<and> cs_blockSize s = bs \<and> length (cs_bls s) = unat n"
proof -
  obtain cl where cl: "CncrLst_init n lmem = Some cl" "length (cl_lv cl) = unat n"
    "free_rep cl (map of_nat [0..<unat n])"
    using CncrLst_init_free_rep [OF assms(3,2)] by blast
  have "0 < unat bs" using assms(1) by (simp add: word_less_nat_alt)
  then have "str_wf \<lparr>cs_cl = cl, cs_bls = replicate (unat n) BlkLst0, cs_blks = bmem, cs_version = 1,
      cs_blockSize = bs\<rparr>"
    using cl(2) assms by (simp add: str_wf_def)
  then show ?thesis
    using cl(1,3) assms(1) by (simp add: CncrStr_init_def str_inv_def) (simp add: free_rep_def)
qed

end
