(* ===== verification/Shm_Store_Read.thy ===== *)
theory Shm_Store_Read
  imports Shm_Store_Inv
begin

text \<open>
  Reading a blob of the block store: \<open>get\<close> returns the value's bytes from the block in which the key
  ends and from the blocks after it, and leaves the store as it was.
\<close>

section \<open>Reading a blob\<close>

lemma readBlock_block:
  assumes "str_wf s" and "live s ver c" and "ver \<noteq> 0" and "l \<noteq> 0"
    and "unat ofst + unat l \<le> unat (cs_blockSize s)" and "b + unat l \<le> length out"
  shows "readBlock s c ver out b ofst l =
    Some (l, take b out @ take (unat l) (drop (unat ofst) (block s c)) @ drop (b + unat l) out, s)"
proof -
  have "unat c < length (cs_bls s)" using assms(2) by (rule live_bound)
  from blockFreePtr_eq [OF assms(1) this] assms show ?thesis
    by (simp add: readBlock_live block_def drop_take min_absorb1 add.commute)
qed

lemma min_split_add: "a < (m :: nat) \<Longrightarrow> v = min b (m - a) \<Longrightarrow>
  min (m - a) (b + r) = v + min (m - (a + v)) r"
  by (auto simp: min_def)

text \<open>The loop over the blocks after the first: from the chain \<open>cs\<close> it reads up to \<open>maxlen\<close> bytes.\<close>

lemma get_loop_chain:
  assumes "str_wf s" and "\<forall>c \<in> set cs. live s ver c" and "ver \<noteq> 0"
    and "bl_path (cs_bls s) (vi_idx nx) cs" and "vi_version nx = ver"
    and "unat len \<le> length out" and "unat maxlen \<le> length out"
    and "m = min (unat maxlen - unat len) (length cs * unat (cs_blockSize s))"
  shows "get_loop s ver out maxlen len nx =
    Some (len + of_nat m, take (unat len) out @ take m (contents s cs) @ drop (unat len + m) out, s)"
  using assms(2-)
proof (induction cs arbitrary: nx len out m)
  case Nil
  then show ?case by (simp add: get_loop.simps [of s])
next
  case (Cons c cs)
  let ?bs = "cs_blockSize s"
  define v where "v = min ?bs (maxlen - len)"
  have idx: "vi_idx nx = c" and c: "unat c < length (cs_bls s)" "live s ver c"
    and path: "bl_path (cs_bls s) (bl_idx (cs_bls s ! unat c)) cs"
    using Cons.prems by auto
  have lb: "length (block s c) = unat ?bs" using assms(1) c(1) by (rule length_block)
  have bs: "0 < unat ?bs" using assms(1) by (simp add: str_wf_def)
  have nend: "c \<noteq> LIST_END" using c(1) str_wf_count [OF assms(1)] by (rule not_LIST_END)
  show ?case
  proof (cases "len < maxlen")
    case False
    with Cons.prems(7) show ?thesis
      by (simp add: get_loop.simps [of s] word_less_nat_alt not_less)
  next
    case True
    then have lt: "unat len < unat maxlen" by (simp add: word_less_nat_alt)
    then have uv: "unat v = min (unat ?bs) (unat maxlen - unat len)"
      by (simp add: v_def unat_sub_u32 min_def word_le_nat_alt)
    with bs lt have "0 < unat v" by simp
    then have v0: "v \<noteq> 0" by auto
    let ?out = "take (unat len) out @ take (unat v) (block s c) @ drop (unat len + unat v) out"
    have read: "readBlock s c ver out (unat len) 0 v = Some (v, ?out, s)"
      using readBlock_block [OF assms(1) c(2) Cons.prems(2) v0, of 0 "unat len" out] uv lt Cons.prems(5,6)
      by simp
    have "unat len + unat v \<le> unat maxlen" using uv lt by simp
    then have len': "unat (len + v) = unat len + unat v"
      by (rule unat_add_u32 [OF le_less_trans [OF _ unat_lt_u32]])
    define m' where "m' = min (unat maxlen - unat (len + v)) (length cs * unat ?bs)"
    have m: "m = unat v + m'"
      using Cons.prems(7) min_split_add [OF lt uv] by (simp add: m'_def len')
    have "get_loop s ver ?out maxlen (len + v) (rec_vi s c) =
        Some (len + v + of_nat m', take (unat (len + v)) ?out @ take m' (contents s cs) @
          drop (unat (len + v) + m') ?out, s)"
      using Cons.prems path c lb uv lt
      by (intro Cons.IH) (simp_all add: m'_def len' live_version)
    moreover have "take (unat (len + v)) ?out = take (unat len) out @ take (unat v) (block s c)"
      using Cons.prems(5) lt uv lb by (simp add: len')
    moreover have "drop (unat (len + v) + m') ?out = drop (unat len + m) out"
      using Cons.prems(5) lt uv lb by (simp add: len' m ac_simps)
    moreover have "take m (contents s (c # cs)) = take (unat v) (block s c) @ take m' (contents s cs)"
    proof (cases "unat v = unat ?bs")
      case True
      with lb m show ?thesis by simp
    next
      case False
      with uv have "m' = 0" by (simp add: m'_def len' min_def split: if_splits)
      with lb m uv show ?thesis by simp
    qed
    moreover have "len + v + of_nat m' = len + of_nat m"
      by (simp add: m)
    ultimately show ?thesis
      using True idx nend read v0 Cons.prems(4) c(1)
      by (simp add: get_loop.simps [of s ver out] Let_def live_simps flip: v_def)
  qed
qed

lemma bumped_wf [simp]: "str_wf (bumped d i s) = str_wf s"
  by (simp add: str_wf_def bumped_def)

lemma bumped_block [simp]: "block (bumped d i s) = block s"
  by (simp add: block_def fun_eq_iff)

lemma bumped_contents [simp]: "contents (bumped d i s) cs = contents s cs"
  by (simp add: contents_def)

lemma bl_path_bumped [simp]: "bl_path (cs_bls (bumped d h s)) i cs = bl_path (cs_bls s) i cs"
proof (rule bl_path_cong)
  fix c
  show "bl_idx (cs_bls (bumped d h s) ! unat c) = bl_idx (cs_bls s ! unat c)"
    by (cases "unat h < length (cs_bls s)")
      (auto simp: bumped_def nth_list_update list_update_beyond)
qed simp

lemma live_bumped:
  assumes "rec_ok s ver c" and "unat c < length (cs_bls s)"
  shows "live (bumped 1 h s) ver c"
  using assms by (auto simp: live_def rec_ok_def Let_def bumped_nth)

lemma get_skip_chain:
  assumes "bl_path (cs_bls s) i cs" and "\<forall>c \<in> set cs. live s ver c" and "k < length cs"
  shows "get_skip k s ver i = Some (Some (cs ! k))"
  using assms
proof (induction k arbitrary: i cs)
  case 0
  then show ?case by (cases cs) auto
next
  case (Suc k)
  then obtain c cs' where "cs = c # cs'" by (cases cs) auto
  with Suc.prems Suc.IH [of "bl_idx (cs_bls s ! unat i)" cs'] show ?case
    by (auto simp: live_simps live_version)
qed

lemma contents_drop:
  assumes "str_wf s" and "\<forall>c \<in> set cs. unat c < length (cs_bls s)"
    and "k div unat (cs_blockSize s) < length cs"
  shows "drop k (contents s cs) =
    drop (k mod unat (cs_blockSize s)) (block s (cs ! (k div unat (cs_blockSize s)))) @
    contents s (drop (Suc (k div unat (cs_blockSize s))) cs)"
proof -
  let ?b = "unat (cs_blockSize s)"
  let ?q = "k div ?b"
  have "contents s cs = contents s (take ?q cs) @ block s (cs ! ?q) @ contents s (drop (Suc ?q) cs)"
    using id_take_nth_drop [OF assms(3)] by (metis contents_append contents_simps(2))
  moreover have "length (contents s (take ?q cs)) = ?q * ?b"
    using assms by (subst length_contents) (auto dest: in_set_takeD)
  moreover have "k - ?q * ?b = k mod ?b" by (simp add: minus_div_mult_eq_mod)
  moreover have "k mod ?b - length (block s (cs ! ?q)) = 0"
    using assms by (simp add: length_block str_wf_def)
  moreover have "drop k (contents s (take ?q cs)) = []"
    using calculation(2) by simp
  ultimately show ?thesis by simp
qed

lemma bl_path_after: "bl_path bls i cs \<Longrightarrow> k < length cs \<Longrightarrow>
  bl_path bls (bl_idx (bls ! unat (cs ! k))) (drop (Suc k) cs)"
proof (induction cs arbitrary: i k)
  case (Cons c cs)
  then show ?case by (cases k) auto
qed simp

text \<open>How much \<open>get\<close> delivers for a buffer of \<open>maxlen\<close> bytes: the value's bytes in its first block,
  then whole blocks as far as the buffer goes.\<close>

definition get_count :: "cncr_str \<Rightarrow> blob \<Rightarrow> nat \<Rightarrow> nat" where
  "get_count s o' maxlen =
     (let b = unat (cs_blockSize s); k = length (bo_key o');
          first = min (b - k mod b) (length (bo_val o'))
      in first + min (maxlen - first) ((length (bo_chain o') - Suc (k div b)) * b))"

lemma get_blob:
  assumes wf: "str_wf s" and ok: "blob_ok s o'"
    and "length (bo_val o') \<le> unat maxlen" and "unat maxlen \<le> length out"
  shows "str_get s (bo_head o') (bo_ver o') out maxlen =
    (let n = get_count s o' (unat maxlen)
     in Some (of_nat n, take n (drop (length (bo_key o')) (contents s (bo_chain o'))) @ drop n out,
              Some (of_nat n), s))"
proof -
  let ?h = "bo_head o'" and ?ver = "bo_ver o'" and ?cs = "bo_chain o'"
  let ?K = "length (bo_key o')" and ?V = "length (bo_val o')" and ?b = "unat (cs_blockSize s)"
  let ?s = "bumped 1 ?h s"
  have o: "?cs \<noteq> []" "bl_path (cs_bls s) ?h ?cs" "head_ok s o'" "?ver \<noteq> 0" "bo_size o' < 2 ^ 32"
    "length ?cs = ceil_div (bo_size o') ?b" "?V \<noteq> 0" "\<forall>c \<in> set ?cs. rec_ok s ?ver c"
    using ok by (auto simp: blob_ok_def)
  have b: "0 < ?b" using wf by (simp add: str_wf_def)
  have bnd: "\<forall>c \<in> set ?cs. unat c < length (cs_bls s)" using o(2) by (auto dest: bl_path_bound)
  have lives: "\<forall>c \<in> set ?cs. live ?s ?ver c" using o(8) bnd by (simp add: live_bumped)
  have h: "live s ?ver ?h" "unat ?h < length (cs_bls s)"
    using blob_live [OF ok bo_head_in [OF o(1)]] bnd bo_head_in [OF o(1)] by auto
  have bl: "unat (bl_len (cs_bls s ! unat ?h)) = bo_size o'"
    "unat (bl_klen (cs_bls s ! unat ?h)) = ?K"
    using o(3) by (auto simp: head_ok_def Let_def)
  define vl where "vl = bl_len (cs_bls s ! unat ?h) - bl_klen (cs_bls s ! unat ?h)"
  define q where "q = ?K div ?b"
  define r where "r = ?K mod ?b"
  define c where "c = ?cs ! q"
  define f where "f = min (?b - r) ?V"
  define fw where "fw = min (cs_blockSize s - bl_klen (cs_bls s ! unat ?h) mod cs_blockSize s) vl"
  define m where "m = min (unat maxlen - f) (length (drop (Suc q) ?cs) * ?b)"
  have vl: "unat vl = ?V" using bl by (simp add: vl_def unat_sub_u32 bo_size_def)
  have vl_le: "\<not> vl > maxlen" using assms(3) vl by (simp add: word_less_nat_alt)
  have len0: "bl_len (cs_bls s ! unat ?h) \<noteq> 0" using bl(1) o(7) by (auto simp: bo_size_def)
  have kq: "unat (bl_klen (cs_bls s ! unat ?h) div cs_blockSize s) = q"
    using bl(2) by (simp add: unat_div q_def)
  have kr: "unat (bl_klen (cs_bls s ! unat ?h) mod cs_blockSize s) = r"
    using bl(2) by (simp add: unat_mod r_def)
  have rb: "r < ?b" using b by (simp add: r_def)
  have q: "q < length ?cs"
    unfolding q_def o(6) using o(7) b by (intro div_less_ceil) (auto simp: bo_size_def)
  then have c: "c \<in> set ?cs" by (simp add: c_def)
  have fw: "unat fw = f"
    using vl kr rb by (simp add: fw_def f_def unat_sub_u32 min_def word_le_nat_alt)
  have f: "0 < f" "f \<le> unat maxlen" "f \<le> ?b - r"
    using rb o(7) assms(3) by (auto simp: f_def)
  define out1 where "out1 = take f (drop r (block s c)) @ drop f out"
  have read: "readBlock ?s c ?ver out 0 (bl_klen (cs_bls s ! unat ?h) mod cs_blockSize s) fw =
      Some (fw, out1, ?s)"
  proof -
    have "fw \<noteq> 0" and "unat (bl_klen (cs_bls s ! unat ?h) mod cs_blockSize s) + unat fw \<le> ?b"
      using fw f kr rb by auto
    then show ?thesis
      using readBlock_block [of ?s ?ver c fw _ 0 out] wf lives c o(4) fw f kr assms(4)
      by (simp add: out1_def)
  qed
  have skip: "get_skip q ?s ?ver ?h = Some (Some c)"
    unfolding c_def using o(2) lives q by (intro get_skip_chain) simp_all
  have nx: "nxtBlock ?s c = Some (rec_vi ?s c)" "bl_version (cs_bls ?s ! unat c) = ?ver"
    using lives c bnd by (auto simp: live_simps live_version)
  have loop: "get_loop ?s ?ver out1 maxlen fw (rec_vi ?s c) =
      Some (fw + of_nat m, take f out1 @ take m (contents s (drop (Suc q) ?cs)) @
        drop (f + m) out1, ?s)"
  proof -
    have lb: "length (block s c) = ?b" using wf bnd c by (simp add: length_block)
    have l: "\<forall>x \<in> set (drop (Suc q) ?cs). live ?s ?ver x"
      using lives by (meson in_set_dropD)
    have p: "bl_path (cs_bls ?s) (vi_idx (rec_vi ?s c)) (drop (Suc q) ?cs)"
      using bl_path_after [of "cs_bls ?s" ?h ?cs q] o(2) q by (simp add: c_def)
    have lo: "length out1 = length out"
      using lb f assms(4) by (simp add: out1_def)
    have "unat fw \<le> length out1" and "unat maxlen \<le> length out1"
      using fw f assms(4) lo by simp_all
    from get_loop_chain [OF _ l o(4) p _ this] wf nx(2) show ?thesis
      by (simp add: fw m_def)
  qed
  have total: "take (f + m) (drop ?K (contents s ?cs)) =
      take f (drop r (block s c)) @ take m (contents s (drop (Suc q) ?cs))"
  proof -
    have lb: "length (drop r (block s c)) = ?b - r"
      using wf bnd c by (simp add: length_block)
    have "drop ?K (contents s ?cs) = drop r (block s c) @ contents s (drop (Suc q) ?cs)"
      using contents_drop [OF wf bnd] q by (simp add: q_def r_def c_def)
    moreover have "m = 0" if "f < ?b - r"
    proof -
      have "r + ?V < b'" if "b' = ?b" for b' using that \<open>f < ?b - r\<close> by (auto simp: f_def)
      then have "length ?cs = Suc q"
        unfolding o(6) bo_size_def q_def using o(7) by (intro ceil_div_same) (auto simp: r_def)
      then show ?thesis by (simp add: m_def)
    qed
    ultimately show ?thesis using f lb by (cases "f < ?b - r") auto
  qed
  have count: "get_count s o' (unat maxlen) = f + m"
    by (simp add: get_count_def Let_def f_def r_def m_def q_def)
  have out: "take f out1 @ take m (contents s (drop (Suc q) ?cs)) @ drop (f + m) out1 =
      take (f + m) (drop ?K (contents s ?cs)) @ drop (f + m) out"
    using total f wf bnd c assms(4) by (simp add: out1_def length_block add.commute)
  have "fw = of_nat f" by (simp add: fw [symmetric])
  then have "fw + of_nat m = of_nat (f + m)" by simp
  then show ?thesis
    using h nx vl_le len0 skip read loop out not_LIST_END [OF h(2) str_wf_count [OF wf]]
    by (simp add: str_get_def live_simps vl_def [symmetric] fw_def [symmetric] kq count Let_def)
qed

text \<open>The buffer then starts with the value; a buffer of the value's length is filled exactly.\<close>

lemma min_add_bounds: "v - f \<le> x \<Longrightarrow> v \<le> m \<Longrightarrow> f \<le> v \<Longrightarrow>
  v \<le> f + min (m - f) x \<and> f + min (m - f) x \<le> (m :: nat)"
  by arith

lemma get_count_bounds:
  assumes wf: "str_wf s" and ok: "blob_ok s o'" and "length (bo_val o') \<le> m"
  shows "length (bo_val o') \<le> get_count s o' m" and "get_count s o' m \<le> m"
proof -
  let ?b = "unat (cs_blockSize s)" and ?K = "length (bo_key o')" and ?V = "length (bo_val o')"
  have b: "0 < ?b" using wf by (simp add: str_wf_def)
  have "?K + ?V \<le> length (bo_chain o') * ?b"
    using ceil_div_upper [OF b, of "?K + ?V"] ok by (simp add: blob_ok_def bo_size_def)
  moreover have "?K = ?K div ?b * ?b + ?K mod ?b" by simp
  moreover have "?K mod ?b < ?b" using b by simp
  ultimately have "?V - min (?b - ?K mod ?b) ?V \<le> (length (bo_chain o') - Suc (?K div ?b)) * ?b"
    by (simp only: diff_mult_distrib mult_Suc)
  then show "?V \<le> get_count s o' m" and "get_count s o' m \<le> m"
    using min_add_bounds [OF _ assms(3) min.cobounded2] by (simp_all add: get_count_def Let_def)
qed

lemma get_count_fits:
  assumes wf: "str_wf s" and ok: "blob_ok s o'"
  shows "length (bo_key o') + get_count s o' m \<le> length (bo_chain o') * unat (cs_blockSize s)"
proof -
  let ?b = "unat (cs_blockSize s)" and ?K = "length (bo_key o')"
  let ?q = "?K div unat (cs_blockSize s)" and ?l = "length (bo_chain o')"
  have b: "0 < ?b" using wf by (simp add: str_wf_def)
  have "?q < ?l"
    using ok b div_less_ceil [of ?K "bo_size o'" ?b] by (auto simp: blob_ok_def bo_size_def)
  then have "Suc ?q * ?b + (?l - Suc ?q) * ?b = ?l * ?b"
    by (simp only: add_mult_distrib [symmetric] le_add_diff_inverse Suc_le_eq)
  moreover have "?K = ?q * ?b + ?K mod ?b" by simp
  moreover have "?K mod ?b < ?b" using b by simp
  moreover have "get_count s o' m \<le> (?b - ?K mod ?b) + (?l - Suc ?q) * ?b"
    by (simp add: get_count_def Let_def min.coboundedI1 min.coboundedI2 add_le_mono)
  ultimately show ?thesis by (simp only: mult_Suc)
qed

lemma get_value:
  assumes wf: "str_wf s" and ok: "blob_ok s o'"
    and "length (bo_val o') \<le> unat maxlen" and "unat maxlen \<le> length out"
  shows "\<exists>n out'. str_get s (bo_head o') (bo_ver o') out maxlen = Some (n, out', Some n, s) \<and>
    take (length (bo_val o')) out' = bo_val o' \<and> length out' = length out \<and>
    length (bo_val o') \<le> unat n \<and> unat n \<le> unat maxlen"
proof -
  let ?n = "get_count s o' (unat maxlen)" and ?K = "length (bo_key o')" and ?V = "length (bo_val o')"
  let ?c = "contents s (bo_chain o')"
  note n = get_count_bounds [OF wf ok assms(3)]
  have "take ?V (drop ?K ?c) = bo_val o'"
  proof -
    have "take (?K + ?V) ?c = bo_key o' @ bo_val o'" using ok by (simp add: blob_ok_def bo_size_def)
    then have "drop ?K (take (?K + ?V) ?c) = bo_val o'" by simp
    then show ?thesis by (simp add: drop_take)
  qed
  moreover have "length (take ?n (drop ?K ?c)) = ?n"
    using get_count_fits [OF wf ok, of "unat maxlen"] wf blob_bound [OF ok]
    by (simp add: length_contents)
  moreover have "unat (of_nat ?n :: u32) = ?n"
    using n(2) by (intro unat_of_nat_u32 le_less_trans [OF n(2) unat_lt_u32])
  ultimately show ?thesis
    using get_blob [OF assms] n assms(4) by (auto simp: Let_def min_absorb1)
qed

section \<open>Reading a key\<close>

lemma readBlock_whole:
  assumes "str_wf s" and "live s ver c" and "ver \<noteq> 0" and "b + unat (cs_blockSize s) \<le> length out"
  shows "readBlock s c ver out b 0 0 =
    Some (cs_blockSize s, take b out @ block s c @ drop (b + unat (cs_blockSize s)) out, s)"
proof -
  have "cs_blockSize s \<noteq> 0" using assms(1) by (auto simp: str_wf_def)
  moreover have "readBlock s c ver out b 0 0 = readBlock s c ver out b 0 (cs_blockSize s)"
    using calculation by (simp add: readBlock_def incReaders_live [OF assms(2)])
  moreover have "length (block s c) = unat (cs_blockSize s)"
    using assms(1,2) by (auto intro: length_block live_bound)
  ultimately show ?thesis
    using readBlock_block [OF assms(1-3), of "cs_blockSize s" 0 b out] assms(4) by simp
qed

lemma getKey_loop_chain:
  assumes "str_wf s" and "\<forall>c \<in> set cs. live s ver c" and "ver \<noteq> 0"
    and "bl_path (cs_bls s) (vi_idx vi) cs" and "vi_version vi = ver" and "k < length cs"
    and "unat len + k * unat (cs_blockSize s) \<le> length out" and "length out < 2 ^ 32"
  shows "\<exists>vi' l'. getKey_loop k s ver out len vi = Some (Some vi', l',
      take (unat len) out @ contents s (take k cs) @ drop (unat len + k * unat (cs_blockSize s)) out, s) \<and>
    vi_idx vi' = cs ! k \<and> unat l' = unat len + k * unat (cs_blockSize s)"
  using assms(2-)
proof (induction k arbitrary: cs vi len out)
  case 0
  then show ?case by (cases cs) auto
next
  case (Suc k)
  let ?b = "unat (cs_blockSize s)"
  obtain c cs' where cs: "cs = c # cs'" using Suc.prems(5) by (cases cs) auto
  have c: "vi_idx vi = c" "unat c < length (cs_bls s)" "live s ver c"
    "bl_path (cs_bls s) (bl_idx (cs_bls s ! unat c)) cs'"
    using Suc.prems cs by auto
  have nend: "c \<noteq> LIST_END" using c(2) str_wf_count [OF assms(1)] by (rule not_LIST_END)
  have lb: "length (block s c) = ?b" using assms(1) c(2) by (rule length_block)
  let ?out = "take (unat len) out @ block s c @ drop (unat len + ?b) out"
  have fit: "unat len + ?b \<le> length out" using Suc.prems(6) by simp
  then have len': "unat (len + cs_blockSize s) = unat len + ?b"
    using Suc.prems(7) by (intro unat_add_u32) simp
  have lo: "length ?out = length out" using fit lb by simp
  have "cs_blockSize s \<noteq> 0" using assms(1) by (auto simp: str_wf_def)
  moreover have "\<exists>vi' l'. getKey_loop k s ver ?out (len + cs_blockSize s) (rec_vi s c) = Some (Some vi', l',
      take (unat (len + cs_blockSize s)) ?out @ contents s (take k cs') @
        drop (unat (len + cs_blockSize s) + k * ?b) ?out, s) \<and>
      vi_idx vi' = cs' ! k \<and> unat l' = unat (len + cs_blockSize s) + k * ?b"
    using Suc.prems c cs len' lo live_version [OF c(3)] by (intro Suc.IH) simp_all
  then obtain vi' l' where "getKey_loop k s ver ?out (len + cs_blockSize s) (rec_vi s c) =
      Some (Some vi', l', take (unat (len + cs_blockSize s)) ?out @ contents s (take k cs') @
        drop (unat (len + cs_blockSize s) + k * ?b) ?out, s)"
    "vi_idx vi' = cs' ! k" "unat l' = unat (len + cs_blockSize s) + k * ?b" by blast
  moreover have "take (unat (len + cs_blockSize s)) ?out = take (unat len) out @ block s c"
    using len' fit lb by simp
  moreover have "drop (unat (len + cs_blockSize s) + k * ?b) ?out = drop (unat len + Suc k * ?b) out"
    using len' fit lb by (simp add: ac_simps)
  ultimately show ?case
    using c nend Suc.prems(4) readBlock_whole [OF assms(1) c(3) Suc.prems(2) fit] cs len'
    by (intro exI [of _ vi'] exI [of _ l']) (simp add: live_simps)
qed

lemma getKey_blob:
  assumes wf: "str_wf s" and ok: "blob_ok s o'"
    and K: "length (bo_key o') mod unat (cs_blockSize s) \<noteq> 0"
    and "length (bo_key o') \<le> unat maxlen" and "unat maxlen \<le> length out" and "length out < 2 ^ 32"
  shows "str_getKey s (bo_head o') (bo_ver o') out maxlen =
    Some (of_nat (length (bo_key o')), bo_key o' @ drop (length (bo_key o')) out, s)"
proof -
  let ?h = "bo_head o'" and ?ver = "bo_ver o'" and ?cs = "bo_chain o'"
  let ?K = "length (bo_key o')" and ?b = "unat (cs_blockSize s)"
  let ?q = "?K div ?b" and ?r = "?K mod ?b"
  let ?s = "bumped 1 ?h s"
  have o: "?cs \<noteq> []" "bl_path (cs_bls s) ?h ?cs" "head_ok s o'" "?ver \<noteq> 0"
    "length ?cs = ceil_div (bo_size o') ?b" "bo_val o' \<noteq> []" "\<forall>c \<in> set ?cs. rec_ok s ?ver c"
    "take (bo_size o') (contents s ?cs) = bo_key o' @ bo_val o'"
    using ok by (auto simp: blob_ok_def)
  have b: "0 < ?b" using wf by (simp add: str_wf_def)
  have bnd: "\<forall>c \<in> set ?cs. unat c < length (cs_bls s)" using o(2) by (auto dest: bl_path_bound)
  have lives: "\<forall>c \<in> set ?cs. live ?s ?ver c" using o(7) bnd by (simp add: live_bumped)
  have h: "live s ?ver ?h" "unat ?h < length (cs_bls s)"
    using blob_live [OF ok bo_head_in [OF o(1)]] bnd bo_head_in [OF o(1)] by auto
  have kl: "unat (bl_klen (cs_bls s ! unat ?h)) = ?K" and len0: "bl_len (cs_bls s ! unat ?h) \<noteq> 0"
    using o(3) o(6) by (auto simp: head_ok_def Let_def bo_size_def)
  have le: "\<not> maxlen < bl_klen (cs_bls s ! unat ?h)"
    using assms(4) kl by (simp add: word_less_nat_alt)
  have q: "?q < length ?cs"
    unfolding o(5) using o(6) b by (intro div_less_ceil) (auto simp: bo_size_def)
  have kq: "unat (bl_klen (cs_bls s ! unat ?h) div cs_blockSize s) = ?q"
    and kr: "unat (bl_klen (cs_bls s ! unat ?h) mod cs_blockSize s) = ?r"
    using kl by (simp_all add: unat_div unat_mod)
  let ?vi = "\<lparr>vi_idx = ?h, vi_version = ?ver\<rparr>"
  have K': "?q * ?b + ?r = ?K" by simp
  obtain vi' l' where loop: "getKey_loop ?q ?s ?ver out 0 ?vi = Some (Some vi', l',
      contents s (take ?q ?cs) @ drop (?q * ?b) out, ?s)" "vi_idx vi' = ?cs ! ?q" "unat l' = ?q * ?b"
    using getKey_loop_chain [of ?s ?cs ?ver ?vi ?q 0 out] wf lives o(2,4) q assms(4-6) K' by auto
  let ?c = "?cs ! ?q" and ?kr = "bl_klen (cs_bls s ! unat ?h) mod cs_blockSize s"
  have c: "?c \<in> set ?cs" using q by simp
  have cl: "length (contents s (take ?q ?cs)) = ?q * ?b"
    using wf bnd q by (subst length_contents) (auto dest: in_set_takeD)
  have "?kr \<noteq> 0" using kr K by (metis unat_0)
  then have read: "readBlock ?s ?c ?ver (contents s (take ?q ?cs) @ drop (?q * ?b) out) (unat l') 0 ?kr =
      Some (?kr, contents s (take ?q ?cs) @ take ?r (block s ?c) @ drop ?K out, ?s)"
    using readBlock_block [of ?s ?ver ?c ?kr 0 "?q * ?b"
        "contents s (take ?q ?cs) @ drop (?q * ?b) out"] wf lives c o(4) kr b cl loop(3) K' assms(4,5)
    by (simp add: add.commute mod_less_divisor less_imp_le)
  have key: "contents s (take ?q ?cs) @ take ?r (block s ?c) = bo_key o'"
  proof -
    have "bo_key o' = take ?K (contents s ?cs)"
      using o(8) by (metis append_eq_conv_conj bo_size_def le_add1 min.absorb1 take_take)
    also have "contents s ?cs = contents s (take ?q ?cs) @ block s ?c @ contents s (drop (Suc ?q) ?cs)"
      using id_take_nth_drop [OF q] by (metis contents_append contents_simps(2))
    also have "take ?K \<dots> = contents s (take ?q ?cs) @ take ?r (block s ?c)"
    proof -
      have "length (block s ?c) = ?b" using wf bnd c by (simp add: length_block)
      moreover have "?K - ?q * ?b = ?r" using K' by linarith
      moreover have "?r \<le> ?b" using b by (simp add: less_imp_le)
      moreover have "?q * ?b \<le> ?K" using K' by linarith
      ultimately show ?thesis using cl by simp
    qed
    finally show ?thesis by simp
  qed
  have "l' = of_nat (unat l')" and "?kr = of_nat (unat ?kr)" by simp_all
  then have "l' + ?kr = of_nat (?q * ?b + ?r)"
    unfolding loop(3) kr by (simp only: of_nat_add)
  then have "l' + ?kr = of_nat ?K" unfolding K' .
  moreover have "contents s (take ?q ?cs) @ take ?r (block s ?c) @ drop ?K out =
      bo_key o' @ drop ?K out"
    using arg_cong [OF key, of "\<lambda>x. x @ drop ?K out"] by simp
  note read [unfolded this]
  ultimately show ?thesis
    using h len0 le loop(1,2) kq not_LIST_END [OF h(2) str_wf_count [OF wf]]
    by (simp add: str_getKey_def live_simps Let_def del: append_assoc)
qed

end
