(* ===== verification/Shm_Store_Spec.thy ===== *)
theory Shm_Store_Spec
  imports Shm_Store_Write Shm_Store_Read
begin

text \<open>
  The properties of the free list and of the block store, each with an instance on a small store of
  four blocks of eight bytes.
\<close>

section \<open>A small store\<close>

definition small_store :: "cncr_str option" where
  "small_store = CncrStr_init 8 4 (replicate 4 0) (replicate 32 0)"

lemma small_store_inv: "\<exists>s. small_store = Some s \<and> str_inv s [0, 1, 2, 3] [] \<and> cs_version s = 1 \<and>
  cs_blockSize s = 8 \<and> length (cs_bls s) = 4"
proof -
  have F: "map of_nat [0..<unat (4 :: u32)] = [0, 1, 2, 3 :: u32]" by (simp add: upt_rec)
  show ?thesis
    using CncrStr_init_inv [of 8 4 "replicate 4 0" "replicate 32 0"] unfolding F small_store_def by simp
qed

definition small_key :: bytes where "small_key = [107, 101, 121]"
definition small_val :: bytes where "small_val = [1, 2, 3, 4, 5, 6, 7]"

lemma small_sizes [simp]: "length small_key = 3" "length small_val = 7"
  by (simp_all add: small_key_def small_val_def)

lemma small_storable: "cs_blockSize s = 8 \<Longrightarrow> cs_version s = 1 \<Longrightarrow>
  storable s [0, 1, 2, 3] small_key small_val"
  by (auto simp: storable_def ceil_div_def small_val_def)

text \<open>The small store with one blob of two blocks in it.\<close>

lemma small_blob: "\<exists>s F o'. str_inv s F [o'] \<and> bo_key o' = small_key \<and> bo_val o' = small_val \<and>
  bo_hash o' = 9 \<and> cs_blockSize s = 8 \<and> F = [2, 3]"
proof -
  obtain s where s: "str_inv s [0, 1, 2, 3] []" "cs_version s = 1" "cs_blockSize s = 8"
    using small_store_inv by blast
  have n: "ceil_div (length small_key + length small_val) (unat (cs_blockSize s)) = 2"
    by (simp add: s(3) ceil_div_def)
  obtain s2 where "str_inv s2 [2, 3] [new_blob s [0, 1, 2, 3] 9 small_key small_val]" "cs_blockSize s2 = 8"
    using store_blob [OF s(1) small_storable [OF s(3,2)], of 9] s(3) n by auto
  then show ?thesis by (intro exI [of _ s2]) (auto simp: new_blob_def)
qed

section \<open>Properties of the free list\<close>

text \<open>Taking an index from the free list returns its first one and leaves the rest, and the list is
  only reported empty (\<open>LIST_END\<close>) when it is.\<close>

theorem free_list_nxt:
  assumes "free_rep s F"
  shows "\<exists>s'. lst_nxt s = Some (case F of [] \<Rightarrow> LIST_END | c # _ \<Rightarrow> c, s') \<and> free_rep s' (tl F) \<and>
    (F = [] \<longrightarrow> s' = s) \<and> cl_lv s' = cl_lv s"
  using assms nxt_empty [of s] nxt_Cons [of s] by (cases F) auto

theorem free_list_nxt_witness:
  "\<exists>s s'. CncrLst_init 4 (replicate 4 0) = Some s \<and> lst_nxt s = Some (0, s') \<and> free_rep s' [1, 2, 3]"
proof -
  have F: "map of_nat [0..<unat (4 :: u32)] = [0, 1, 2, 3 :: u32]" by (simp add: upt_rec)
  obtain s where "CncrLst_init 4 (replicate 4 0) = Some s" "free_rep s [0, 1, 2, 3]"
    using CncrLst_init_free_rep [of "replicate 4 0" 4] unfolding F by auto
  then show ?thesis using free_list_nxt [of s "[0, 1, 2, 3]"] by auto
qed

text \<open>Giving back a run of linked indices that are not on the free list puts them in front of it, in
  their order.\<close>

theorem free_list_free_run:
  assumes "free_rep s F" and "lv_path (cl_lv s) st cs en" and "unat en < length (cl_lv s)"
    and "distinct (cs @ en # F)"
  shows "\<exists>old s'. lst_free s st en = Some (old, s') \<and> free_rep s' (cs @ en # F) \<and>
    lst_lnkCnt s' = Some (of_nat (length cs + 1 + length F))"
proof -
  have "free_rep (pushed s st en) (cs @ en # F)" using assms by (rule free_rep_pushed)
  then show ?thesis using lst_free_eq [OF assms(3)] lst_lnkCnt_eq by fastforce
qed

theorem free_list_free_run_witness:
  "\<exists>s old s'. free_rep s [3] \<and> lst_free s 1 2 = Some (old, s') \<and> free_rep s' [1, 2, 3]"
proof -
  let ?s = "\<lparr>cl_lv = [1, 2, 0, LIST_END], cl_head = \<lparr>hd_ver = 5, hd_idx = 3\<rparr>\<rparr>"
  have r: "free_rep ?s [3]" by (simp add: free_rep_def)
  have p: "lv_path (cl_lv ?s) 1 [1] 2" by simp
  have d: "unat (2 :: u32) < length (cl_lv ?s)" "distinct ([1 :: u32] @ 2 # [3])" by simp_all
  show ?thesis using r free_list_free_run [OF r p d] by auto
qed

section \<open>Properties of the block store\<close>

text \<open>C9. A key and value put into newly allocated blocks are stored: the store then holds its old blobs
  and the new one, in the first blocks of the free list, and reading the new one with a large enough
  buffer returns the value and leaves the store as it was.\<close>

theorem store_round_trip:
  assumes "str_inv s F L" and "storable s F key val"
    and "length val \<le> unat maxlen" and "unat maxlen \<le> length out"
  shows "\<exists>vi s1 s2 n out'. str_alloc s (of_nat (length key) + of_nat (length val)) (of_nat (length key)) hash =
      Some (vi, s1) \<and>
    str_put s1 (vi_idx vi) key (of_nat (length key)) val (of_nat (length val)) = Some s2 \<and>
    str_inv s2 (drop (ceil_div (length key + length val) (unat (cs_blockSize s))) F)
      (new_blob s F hash key val # L) \<and>
    str_get s2 (vi_idx vi) (vi_version vi) out maxlen = Some (n, out', Some n, s2) \<and>
    take (length val) out' = val \<and> length out' = length out"
proof -
  let ?o = "new_blob s F hash key val"
  obtain s1 s2 where a: "str_alloc s (of_nat (length key) + of_nat (length val)) (of_nat (length key)) hash =
      Some (\<lparr>vi_idx = bo_head ?o, vi_version = bo_ver ?o\<rparr>, s1)"
    "str_put s1 (bo_head ?o) key (of_nat (length key)) val (of_nat (length val)) = Some s2"
    and inv: "str_inv s2 (drop (ceil_div (length key + length val) (unat (cs_blockSize s))) F) (?o # L)"
    using store_blob [OF assms(1,2), of hash] by (auto simp: new_blob_def)
  have "str_wf s2" "blob_ok s2 ?o" "bo_val ?o = val" using inv by (auto simp: str_inv_def new_blob_def)
  with assms(3,4) show ?thesis using get_value [of s2 ?o maxlen out] a inv by auto
qed

theorem store_round_trip_witness:
  "\<exists>s vi s1 s2 n out'. small_store = Some s \<and>
    str_alloc s (of_nat (length small_key) + of_nat (length small_val)) (of_nat (length small_key)) 9 =
      Some (vi, s1) \<and>
    str_put s1 (vi_idx vi) small_key (of_nat (length small_key)) small_val (of_nat (length small_val)) = Some s2 \<and>
    str_get s2 (vi_idx vi) (vi_version vi) (replicate 7 0) 7 = Some (n, out', Some n, s2) \<and>
    out' = small_val"
proof -
  obtain s where s: "small_store = Some s" "str_inv s [0, 1, 2, 3] []" "cs_version s = 1" "cs_blockSize s = 8"
    using small_store_inv by blast
  have "length small_val \<le> unat (7 :: u32)" "unat (7 :: u32) \<le> length (replicate 7 (0 :: u8))"
    by simp_all
  from store_round_trip [OF s(2) small_storable [OF s(4,3)] this, of 9] s(1) show ?thesis by auto
qed

text \<open>Comparing a key with a blob says whether it is the blob's key (given its hash), reads nothing
  outside the blob, and leaves the reader counts as they were.\<close>

theorem store_compare_exact:
  assumes "str_inv s F L" and "o' \<in> set L" and "length key < 2 ^ 32"
  shows "str_compare s (bo_head o') (bo_ver o') key (of_nat (length key)) hash =
    Some (if bo_hash o' = hash \<and> bo_key o' = key then MATCH_TRUE else MATCH_FALSE, s)"
  using assms by (intro compare_blob) (auto simp: str_inv_def intro: unat_of_nat_u32 [symmetric])

theorem store_compare_exact_witness:
  "\<exists>s o'. bo_key o' = small_key \<and>
    str_compare s (bo_head o') (bo_ver o') small_key (of_nat (length small_key)) 9 = Some (MATCH_TRUE, s) \<and>
    str_compare s (bo_head o') (bo_ver o') [1] (of_nat (length [1 :: u8])) 9 = Some (MATCH_FALSE, s)"
proof -
  obtain s F o' where s: "str_inv s F [o']" "bo_key o' = small_key" "bo_hash o' = 9"
    using small_blob by blast
  have "o' \<in> set [o']" "length small_key < 2 ^ 32" "length [1 :: u8] < 2 ^ 32" by simp_all
  then show ?thesis
    using store_compare_exact [OF s(1), of o' small_key 9] store_compare_exact [OF s(1), of o' "[1]" 9] s
    by (intro exI [of _ s] exI [of _ o']) (simp add: small_key_def)
qed

text \<open>C28. Freeing a blob that nobody reads removes it from the store and gives all its blocks back to the
  free list; the other blobs stay.\<close>

theorem store_free_returns_blocks:
  assumes "str_inv s F (L1 @ o' # L2)"
  shows "\<exists>s'. str_free s (bo_head o') (bo_ver o') = Some (False, s') \<and>
    str_inv s' (bo_chain o' @ F) (L1 @ L2)"
  using str_free_blob [OF assms] by blast

theorem store_free_returns_blocks_witness:
  "\<exists>s s' o'. bo_key o' = small_key \<and> str_free s (bo_head o') (bo_ver o') = Some (False, s') \<and>
    str_inv s' (bo_chain o' @ [2, 3]) []"
proof -
  obtain s o' where s: "str_inv s [2, 3] ([] @ o' # [])" "bo_key o' = small_key"
    using small_blob by auto
  then show ?thesis using store_free_returns_blocks [OF s(1)] by auto
qed

text \<open>\<open>getKey\<close> returns exactly the blob's key.\<close>

theorem store_getKey_exact:
  assumes "str_inv s F L" and "o' \<in> set L" and "length (bo_key o') mod unat (cs_blockSize s) \<noteq> 0"
    and "length (bo_key o') \<le> unat maxlen" and "unat maxlen \<le> length out" and "length out < 2 ^ 32"
  shows "str_getKey s (bo_head o') (bo_ver o') out maxlen =
    Some (of_nat (length (bo_key o')), bo_key o' @ drop (length (bo_key o')) out, s)"
  using assms by (intro getKey_blob) (auto simp: str_inv_def)

theorem store_getKey_exact_witness:
  "\<exists>s o'. bo_key o' = small_key \<and>
    str_getKey s (bo_head o') (bo_ver o') (replicate 3 0) 3 = Some (3, small_key, s)"
proof -
  obtain s F o' where s: "str_inv s F [o']" "bo_key o' = small_key" "cs_blockSize s = 8"
    using small_blob by blast
  then have "str_getKey s (bo_head o') (bo_ver o') (replicate 3 0) 3 =
      Some (of_nat (length (bo_key o')), bo_key o' @ drop (length (bo_key o')) (replicate 3 0), s)"
    by (intro store_getKey_exact [OF s(1)]) simp_all
  with s(2) show ?thesis by (intro exI [of _ s] exI [of _ o']) simp
qed

text \<open>C37. Reading a blob into a buffer that is too small returns 0 bytes, but the reader count that was
  taken is never given back; a later free of the blob then only marks it, and its blocks do not come
  back to the free list.\<close>

theorem store_short_get_leaks_reader:
  assumes "str_inv s F L" and "o' \<in> set L" and "unat maxlen < length (bo_val o')"
  shows "\<exists>s1 s2. str_get s (bo_head o') (bo_ver o') out maxlen = Some (0, out, None, s1) \<and>
    kr_readers (bl_kr (cs_bls s1 ! unat (bo_head o'))) = 1 \<and>
    str_free s1 (bo_head o') (bo_ver o') = Some (True, s2) \<and> free_rep (cs_cl s2) F"
proof -
  have ok: "blob_ok s o'" and wf: "str_wf s" and fr: "free_rep (cs_cl s) F"
    using assms(1,2) by (auto simp: str_inv_def)
  have hd: "bo_head o' \<in> set (bo_chain o')" using ok by (intro bo_head_in) (simp add: blob_ok_def)
  let ?h = "bo_head o'" and ?b = "cs_bls s ! unat (bo_head o')"
  have h: "unat ?h < length (cs_bls s)" "live s (bo_ver o') ?h"
    using blob_bound [OF ok hd] blob_live [OF ok hd] by auto
  have f: "bl_version ?b = bo_ver o'" "kr_readers (bl_kr ?b) = 0" "\<not> kr_isDeleted (bl_kr ?b)"
    "unat (bl_len ?b) = bo_size o'" "unat (bl_klen ?b) = length (bo_key o')"
    using ok hd by (auto simp: blob_ok_def rec_ok_def head_ok_def Let_def)
  have "unat (bl_len ?b - bl_klen ?b) = length (bo_val o')"
    using f(4,5) by (simp add: unat_sub_u32 bo_size_def)
  then have "maxlen < bl_len ?b - bl_klen ?b" using assms(3) by (simp add: word_less_nat_alt)
  then have get: "str_get s ?h (bo_ver o') out maxlen = Some (0, out, None, bumped 1 ?h s)"
    using not_LIST_END [OF h(1) str_wf_count [OF wf]] incReaders_live [OF h(2)]
    by (simp add: str_get_def Let_def)
  have r1: "kr_readers (bl_kr (cs_bls (bumped 1 ?h s) ! unat ?h)) = 1"
    using h(1) f(2) by (simp add: bumped_nth)
  moreover have "\<exists>s2. str_free (bumped 1 ?h s) ?h (bo_ver o') = Some (True, s2) \<and> cs_cl s2 = cs_cl s"
    using h(1) f by (simp add: str_free_def decReadersOrDel_def decReadersOrDel_loop.simps arr_simps
        cas_kr_def bumped_nth)
  ultimately show ?thesis using get fr by fastforce
qed

theorem store_short_get_leaks_reader_witness:
  "\<exists>s s1 s2 o'. str_inv s [2, 3] [o'] \<and> str_get s (bo_head o') (bo_ver o') [] 0 = Some (0, [], None, s1) \<and>
    str_free s1 (bo_head o') (bo_ver o') = Some (True, s2) \<and> free_rep (cs_cl s2) [2, 3]"
proof -
  obtain s o' where s: "str_inv s [2, 3] [o']" "bo_val o' = small_val" using small_blob by blast
  have "o' \<in> set [o']" and "unat (0 :: u32) < length (bo_val o')" using s(2) by simp_all
  from store_short_get_leaks_reader [OF s(1) this, of "[]"] s(1) show ?thesis by blast
qed

text \<open>C27. The free list is a stack of all block numbers: from its construction on, any run of \<open>nxt\<close> and
  \<open>free\<close>, with frees of blocks that are out, answers what the stack answers and returns.\<close>

theorem free_list_is_a_stack:
  assumes "length mem = unat sz" and "0 < unat sz"
    and "run_allowed LIST_END (\<lambda>i. i < sz) (map of_nat [0..<unat sz]) cs"
  shows "\<exists>s s'. CncrLst_init sz mem = Some s \<and>
    pool_run lst_nxt lst_free1 s cs = Some (fst (stack_run LIST_END (map of_nat [0..<unat sz]) cs), s') \<and>
    free_rep s' (snd (stack_run LIST_END (map of_nat [0..<unat sz]) cs))"
  using CncrLst_init_free_rep [OF assms(1,2)] lst.run_ok [of _ "map of_nat [0..<unat sz]" "unat sz" cs] assms(3)
  by (fastforce simp: word_less_nat_alt)

theorem free_list_is_a_stack_witness:
  "\<exists>s s'. CncrLst_init 3 [9, 9, 9] = Some s \<and>
    pool_run lst_nxt lst_free1 s [Op_take, Op_take, Op_give 0, Op_take, Op_take, Op_take] =
      Some ([0, 1, 2, 0, 2, LIST_END], s') \<and> free_rep s' []"
proof -
  have "map of_nat [0..<unat (3 :: u32)] = [0, 1, 2 :: u32]" by (simp add: upt_rec)
  then show ?thesis
    using free_list_is_a_stack [of "[9, 9, 9]" 3 "[Op_take, Op_take, Op_give 0, Op_take, Op_take, Op_take]"]
    by (auto simp: top_of_def)
qed

end
