(* ===== verification/Shm_Hash.thy ===== *)
theory Shm_Hash
  imports Shm_Store
begin

text \<open>
  \<open>CncrHsh\<close> of \<open>shm_lib/simdb.hpp\<close>: the open-addressing hash table that maps keys to the blobs of the
  block store. A slot is a 64-bit word holding a block index and a version, with its halves swapped
  at odd positions. The table holds a pointer to its block store (\<open>m_csp\<close>); here the store is a field,
  and every operation returns the table with the store it leaves.
\<close>

section \<open>Hashing\<close>

definition fnv_step :: "u64 \<Rightarrow> u8 \<Rightarrow> u64" where
  "fnv_step hval b =
     (let hval = hval XOR ucast b
      in hval + (push_bit 1 hval + push_bit 4 hval + push_bit 5 hval + push_bit 7 hval +
                 push_bit 8 hval + push_bit 40 hval))"

definition fnv_64a_buf :: "bytes \<Rightarrow> u64" where
  "fnv_64a_buf buf = foldl fnv_step 0xCBF29CE484222325 buf"

definition HashBytes :: "bytes \<Rightarrow> u32" where
  "HashBytes buf = (let hsh = fnv_64a_buf buf in ucast (drop_bit 32 hsh XOR ucast (ucast hsh :: u32)))"

definition nextPowerOf2 :: "u32 \<Rightarrow> u32" where
  "nextPowerOf2 v =
     (let v = v - 1;
          v = v OR drop_bit 1 v;
          v = v OR drop_bit 2 v;
          v = v OR drop_bit 4 v;
          v = v OR drop_bit 8 v;
          v = v OR drop_bit 16 v
      in v + 1)"

section \<open>Slots\<close>

definition EMPTY :: u32 where "EMPTY = 0xFFFFFFFF"
definition DELETED :: u32 where "DELETED = EMPTY - 1"
definition SLOT_END :: u32 where "SLOT_END = LIST_END"

definition VerIdx :: "u32 \<Rightarrow> u32 \<Rightarrow> ver_idx" where "VerIdx i v = \<lparr>vi_idx = i, vi_version = v\<rparr>"
definition empty_vi :: ver_idx where "empty_vi = VerIdx EMPTY 0"
definition deleted_vi :: ver_idx where "deleted_vi = VerIdx DELETED 0"

text \<open>\<open>asInt\<close> of the union on a little-endian host, and the half-word helpers (whose names say the
  opposite of what they return).\<close>

definition asInt :: "ver_idx \<Rightarrow> u64" where
  "asInt vi = push_bit 32 (ucast (vi_version vi)) OR ucast (vi_idx vi)"

definition lo32 :: "u64 \<Rightarrow> u32" where "lo32 n = ucast (drop_bit 32 n)"
definition hi32 :: "u64 \<Rightarrow> u32" where "hi32 n = ucast (drop_bit 32 (push_bit 32 n))"
definition swp32 :: "u64 \<Rightarrow> u64" where
  "swp32 n = push_bit 32 (ucast (hi32 n)) OR ucast (lo32 n)"

definition IsEmpty :: "ver_idx \<Rightarrow> bool" where "IsEmpty vi \<longleftrightarrow> asInt empty_vi = asInt vi"

record cncr_hsh =
  ch_sz :: u32
  ch_vis :: "u64 list"
  ch_cs :: cncr_str

text \<open>\<open>init\<close> writes the even and the odd slots in two loops; \<open>mem\<close> is what the array held.\<close>

partial_function (option) init_loop :: "u32 \<Rightarrow> u32 \<Rightarrow> ver_idx \<Rightarrow> u64 list \<Rightarrow> u64 list option" where
  "init_loop i sz vi vis =
     (if i < sz then do { vis \<leftarrow> wr vis i (asInt vi); init_loop (i + 2) sz vi vis } else Some vis)"

definition hsh_init :: "u32 \<Rightarrow> u64 list \<Rightarrow> cncr_str \<Rightarrow> cncr_hsh option" where
  "hsh_init sz mem cs = do {
     vis \<leftarrow> init_loop 0 sz (VerIdx EMPTY 0) mem;
     vis \<leftarrow> init_loop 1 sz (VerIdx 0 EMPTY) vis;
     Some \<lparr>ch_sz = sz, ch_vis = vis, ch_cs = cs\<rparr>
   }"

text \<open>The constructor: a process that is not the owner keeps the size rounded up.\<close>

definition CncrHsh_init :: "u32 \<Rightarrow> u64 list \<Rightarrow> cncr_str \<Rightarrow> bool \<Rightarrow> cncr_hsh option" where
  "CncrHsh_init sz mem cs owner =
     (if owner then hsh_init sz mem cs
      else Some \<lparr>ch_sz = nextPowerOf2 sz, ch_vis = mem, ch_cs = cs\<rparr>)"

definition load :: "cncr_hsh \<Rightarrow> u32 \<Rightarrow> ver_idx option" where
  "load h i = (if i < ch_sz h then do {
       raw \<leftarrow> rd (ch_vis h) i;
       let cur = swp32 raw;
       Some (if i mod 2 = 1 then VerIdx (hi32 cur) (lo32 cur) else VerIdx (lo32 cur) (hi32 cur))
     } else None)"

definition store_vi :: "cncr_hsh \<Rightarrow> u32 \<Rightarrow> u64 \<Rightarrow> (ver_idx \<times> cncr_hsh) option" where
  "store_vi h i vi =
     (let odd = (i mod 2 = 1);
          strVi = (if odd then VerIdx (lo32 vi) (hi32 vi) else VerIdx (hi32 vi) (lo32 vi))
      in do {
        prev \<leftarrow> rd (ch_vis h) i;
        vis \<leftarrow> wr (ch_vis h) i (asInt strVi);
        Some (if odd then VerIdx (lo32 prev) (hi32 prev) else VerIdx (hi32 prev) (lo32 prev),
              h\<lparr>ch_vis := vis\<rparr>)
      })"

definition cmpex_vi :: "cncr_hsh \<Rightarrow> u32 \<Rightarrow> ver_idx \<Rightarrow> ver_idx \<Rightarrow> (bool \<times> cncr_hsh) option" where
  "cmpex_vi h i expected desired =
     (let ex = (if i mod 2 \<noteq> 0 then swp32 (asInt expected) else asInt expected);
          desi = (if i mod 2 \<noteq> 0 then swp32 (asInt desired) else asInt desired)
      in do {
        raw \<leftarrow> rd (ch_vis h) i;
        if raw = ex then do { vis \<leftarrow> wr (ch_vis h) i desi; Some (True, h\<lparr>ch_vis := vis\<rparr>) }
        else Some (False, h)
      })"

definition hsh_doFree :: "cncr_hsh \<Rightarrow> u32 \<Rightarrow> cncr_hsh option" where
  "hsh_doFree h i = map_option snd (store_vi h i (asInt empty_vi))"

definition nxtIdx :: "cncr_hsh \<Rightarrow> u32 \<Rightarrow> u32" where "nxtIdx h i = (i + 1) mod ch_sz h"
definition prevIdx :: "cncr_hsh \<Rightarrow> u32 \<Rightarrow> u32" where "prevIdx h i = min (i - 1) (ch_sz h - 1)"

definition hsh_at :: "cncr_hsh \<Rightarrow> u32 \<Rightarrow> ver_idx option" where "hsh_at h i = load h i"

definition ipd :: "cncr_hsh \<Rightarrow> u32 \<Rightarrow> u32 \<Rightarrow> (u32 \<times> u32) option" where
  "ipd h i blkIdx = do {
     bl \<leftarrow> rd (cs_bls (ch_cs h)) blkIdx;
     let ip = bl_hash bl mod ch_sz h;
     Some (bl_version bl, if i > ip then i - ip else ch_sz h - ip + i)
   }"

section \<open>Operations\<close>

partial_function (option) putHashed_loop ::
    "cncr_hsh \<Rightarrow> u32 \<Rightarrow> ver_idx \<Rightarrow> bytes \<Rightarrow> u32 \<Rightarrow> u32 \<Rightarrow> u32 \<Rightarrow> (ver_idx \<times> cncr_hsh) option" where
  "putHashed_loop h hash desired key klen en i = do {
     vi \<leftarrow> load h i;
     if DELETED \<le> vi_idx vi then do {
       r \<leftarrow> cmpex_vi h i vi desired;
       (case r of (success, h') \<Rightarrow>
          if success then Some (vi, h')
          else putHashed_loop h' hash desired key klen en (nxtIdx h' (prevIdx h' i)))
     } else do {
       r \<leftarrow> str_compare (ch_cs h) (vi_idx vi) (vi_version vi) key klen hash;
       (case r of (m, cs) \<Rightarrow>
          if m \<noteq> MATCH_TRUE then
            (if i = en then Some (empty_vi, h\<lparr>ch_cs := cs\<rparr>)
             else putHashed_loop (h\<lparr>ch_cs := cs\<rparr>) hash desired key klen en (nxtIdx h i))
          else do {
            r \<leftarrow> cmpex_vi (h\<lparr>ch_cs := cs\<rparr>) i vi desired;
            (case r of (success, h') \<Rightarrow>
               if success then Some (vi, h')
               else putHashed_loop h' hash desired key klen en (nxtIdx h' (prevIdx h' i)))
          })
     }
   }"

definition putHashed :: "cncr_hsh \<Rightarrow> u32 \<Rightarrow> ver_idx \<Rightarrow> bytes \<Rightarrow> u32 \<Rightarrow> (ver_idx \<times> cncr_hsh) option" where
  "putHashed h hash lstVi key klen =
     (let i = hash mod ch_sz h in putHashed_loop h hash lstVi key klen (prevIdx h i) i)"

text \<open>\<open>runIfMatch\<close> and \<open>runMatch\<close> with the function \<open>f\<close> they are given; \<open>x\<close> is what \<open>f\<close> has captured.\<close>

definition runIfMatch :: "cncr_hsh \<Rightarrow> ver_idx \<Rightarrow> bytes \<Rightarrow> u32 \<Rightarrow> u32 \<Rightarrow>
    (ver_idx \<Rightarrow> 'x \<Rightarrow> cncr_str \<Rightarrow> ('x \<times> cncr_str) option) \<Rightarrow> 'x \<Rightarrow> (bool \<times> 'x \<times> cncr_hsh) option" where
  "runIfMatch h vi buf l hash f x = do {
     (m, cs) \<leftarrow> str_compare (ch_cs h) (vi_idx vi) (vi_version vi) buf l hash;
     if m = MATCH_TRUE then do { (x, cs) \<leftarrow> f vi x cs; Some (True, x, h\<lparr>ch_cs := cs\<rparr>) }
     else Some (False, x, h\<lparr>ch_cs := cs\<rparr>)
   }"

partial_function (option) runMatch_loop :: "cncr_hsh \<Rightarrow> bytes \<Rightarrow> u32 \<Rightarrow> u32 \<Rightarrow>
    (ver_idx \<Rightarrow> 'x \<Rightarrow> cncr_str \<Rightarrow> ('x \<times> cncr_str) option) \<Rightarrow> 'x \<Rightarrow> u32 \<Rightarrow> u32 \<Rightarrow>
    (bool \<times> 'x \<times> cncr_hsh) option" where
  "runMatch_loop h key klen hash f x en i = do {
     vi \<leftarrow> load h i;
     r \<leftarrow> (if vi_idx vi \<noteq> EMPTY \<and> vi_idx vi \<noteq> DELETED then runIfMatch h vi key klen hash f x
          else Some (False, x, h));
     (case r of (matched, x', h') \<Rightarrow>
        if matched then Some (True, x', h')
        else if i = en then Some (False, x', h')
        else runMatch_loop h' key klen hash f x' en (nxtIdx h' i))
   }"

definition runMatch :: "cncr_hsh \<Rightarrow> bytes \<Rightarrow> u32 \<Rightarrow> u32 \<Rightarrow>
    (ver_idx \<Rightarrow> 'x \<Rightarrow> cncr_str \<Rightarrow> ('x \<times> cncr_str) option) \<Rightarrow> 'x \<Rightarrow> (bool \<times> 'x \<times> cncr_hsh) option" where
  "runMatch h key klen hash f x =
     (let i = hash mod ch_sz h in runMatch_loop h key klen hash f x (prevIdx h i) i)"

partial_function (option) delHashed_loop ::
    "cncr_hsh \<Rightarrow> bytes \<Rightarrow> u32 \<Rightarrow> u32 \<Rightarrow> u32 \<Rightarrow> u32 \<Rightarrow> (ver_idx \<times> cncr_hsh) option" where
  "delHashed_loop h key klen hash en i =
     (if i = en then Some (empty_vi, h)
      else do {
        vi \<leftarrow> load h i;
        if DELETED \<le> vi_idx vi then delHashed_loop h key klen hash en (nxtIdx h i)
        else do {
          r \<leftarrow> str_compare (ch_cs h) (vi_idx vi) (vi_version vi) key klen hash;
          (case r of (m, cs) \<Rightarrow>
             if m = MATCH_TRUE then do {
               r \<leftarrow> cmpex_vi (h\<lparr>ch_cs := cs\<rparr>) i vi deleted_vi;
               (case r of (success, h') \<Rightarrow>
                  if success then Some (vi, h')
                  else delHashed_loop h' key klen hash en (nxtIdx h' (prevIdx h' i)))
             } else if m = MATCH_REMOVED \<or> i = en then Some (empty_vi, h\<lparr>ch_cs := cs\<rparr>)
             else delHashed_loop (h\<lparr>ch_cs := cs\<rparr>) key klen hash en (nxtIdx h i))
        }
      })"

definition delHashed :: "cncr_hsh \<Rightarrow> bytes \<Rightarrow> u32 \<Rightarrow> u32 \<Rightarrow> (ver_idx \<times> cncr_hsh) option" where
  "delHashed h key klen hash =
     (let i = hash mod ch_sz h in delHashed_loop h key klen hash (prevIdx h i) i)"

partial_function (option) hsh_nxt_loop :: "cncr_hsh \<Rightarrow> u32 \<Rightarrow> u32 \<Rightarrow> u32 option" where
  "hsh_nxt_loop h stIdx i = do {
     vi \<leftarrow> load h i;
     if vi_idx vi < DELETED then Some i
     else (let i' = (i + 1) mod ch_sz h
           in if i' = stIdx then Some SLOT_END else hsh_nxt_loop h stIdx i')
   }"

definition hsh_nxt :: "cncr_hsh \<Rightarrow> u32 \<Rightarrow> u32 option" where
  "hsh_nxt h stIdx = hsh_nxt_loop h stIdx stIdx"

text \<open>\<open>len\<close>: the total length, and the value length and version when they are written.\<close>

partial_function (option) hsh_len_loop :: "cncr_hsh \<Rightarrow> bytes \<Rightarrow> u32 \<Rightarrow> u32 \<Rightarrow> u32 \<Rightarrow> u32 \<Rightarrow>
    (u64 \<times> u32 option \<times> u32 option \<times> cncr_hsh) option" where
  "hsh_len_loop h key klen hash en i = do {
     vi \<leftarrow> load h i;
     r \<leftarrow> (if vi_idx vi \<noteq> EMPTY \<and> vi_idx vi \<noteq> DELETED
          then str_compare (ch_cs h) (vi_idx vi) (vi_version vi) key klen hash
          else Some (MATCH_FALSE, ch_cs h));
     (case r of (m, cs) \<Rightarrow>
        if m = MATCH_TRUE then do {
          (l, vlen) \<leftarrow> str_len cs (vi_idx vi) (vi_version vi);
          Some (ucast l, vlen, Some (vi_version vi), h\<lparr>ch_cs := cs\<rparr>)
        } else if i = en then Some (0, None, None, h\<lparr>ch_cs := cs\<rparr>)
        else hsh_len_loop (h\<lparr>ch_cs := cs\<rparr>) key klen hash en (nxtIdx h i))
   }"

definition hsh_len :: "cncr_hsh \<Rightarrow> bytes \<Rightarrow> u32 \<Rightarrow> (u64 \<times> u32 option \<times> u32 option \<times> cncr_hsh) option" where
  "hsh_len h key klen =
     (if klen < 1 then Some (0, None, None, h)
      else do {
        kb \<leftarrow> mem_rd key 0 (unat klen);
        let hash = HashBytes kb;
        let i = hash mod ch_sz h;
        hsh_len_loop h key klen hash (prevIdx h i) i
      })"

text \<open>\<open>get\<close>: whether the key was found, the caller's buffer, and \<open>out_readlen\<close> when it was written.\<close>

definition hsh_get :: "cncr_hsh \<Rightarrow> bytes \<Rightarrow> u32 \<Rightarrow> bytes \<Rightarrow> u32 \<Rightarrow>
    (bool \<times> bytes \<times> u32 option \<times> cncr_hsh) option" where
  "hsh_get h key klen out vlen =
     (if klen < 1 then Some (False, out, None, h)
      else do {
        kb \<leftarrow> mem_rd key 0 (unat klen);
        let hash = HashBytes kb;
        let runFunc = (\<lambda>vi (out, rl) cs. do {
              (_, out', rl', cs') \<leftarrow> str_get cs (vi_idx vi) (vi_version vi) out vlen;
              Some ((out', if rl' = None then rl else rl'), cs')
            });
        (found, (out, readlen), h) \<leftarrow> runMatch h key klen hash runFunc (out, None);
        Some (found, out, readlen, h)
      })"

definition hsh_put :: "cncr_hsh \<Rightarrow> bytes \<Rightarrow> u32 \<Rightarrow> bytes \<Rightarrow> u32 \<Rightarrow> (bool \<times> cncr_hsh) option" where
  "hsh_put h key klen val vlen =
     (if klen > 0 then do {
        kb \<leftarrow> mem_rd key 0 (unat klen);
        let hash = HashBytes kb;
        (lstVi, cs) \<leftarrow> str_alloc (ch_cs h) (klen + vlen) klen hash;
        let h = h\<lparr>ch_cs := cs\<rparr>;
        if vi_idx lstVi = LIST_END then Some (False, h)
        else do {
          cs \<leftarrow> str_put (ch_cs h) (vi_idx lstVi) key klen val vlen;
          (vi, h) \<leftarrow> putHashed (h\<lparr>ch_cs := cs\<rparr>) hash lstVi key klen;
          h \<leftarrow> (if vi_idx vi < DELETED then do {
                 (_, cs) \<leftarrow> str_free (ch_cs h) (vi_idx vi) (vi_version vi);
                 Some (h\<lparr>ch_cs := cs\<rparr>)
               } else Some h);
          Some (True, h)
        }
      } else None)"

definition hsh_del :: "cncr_hsh \<Rightarrow> bytes \<Rightarrow> u32 \<Rightarrow> (bool \<times> cncr_hsh) option" where
  "hsh_del h key klen = do {
     kb \<leftarrow> mem_rd key 0 (unat klen);
     let hash = HashBytes kb;
     (vi, h) \<leftarrow> delHashed h key klen hash;
     let doFree = (vi_idx vi < DELETED);
     h \<leftarrow> (if doFree then do {
            (_, cs) \<leftarrow> str_free (ch_cs h) (vi_idx vi) (vi_version vi);
            Some (h\<lparr>ch_cs := cs\<rparr>)
          } else Some h);
     Some (doFree, h)
   }"

text \<open>The loops as code equations, to evaluate them on concrete states.\<close>

declare putHashed_loop.simps [code] runMatch_loop.simps [code] delHashed_loop.simps [code] hsh_nxt_loop.simps [code]
  hsh_len_loop.simps [code] init_loop.simps [code]

end
