(* ===== verification/Shm_Hash_Inv.thy ===== *)
theory Shm_Hash_Inv
  imports Shm_Hash
begin

text \<open>
  The slots of the hash table, the order in which a key is looked for, and what the scanning loops
  compute: each stops at the first slot of that order with a property, whatever comparing a key with
  a slot means (\<open>cmp_ok\<close> is all that is assumed of it).
\<close>

named_theorems hash_simps "operations on slots that are in range"

section \<open>The hash function\<close>

text \<open>The shifts of \<open>fnv_64a_buf\<close> multiply by the 64-bit FNV prime.\<close>

lemma fnv_step_prime: "fnv_step hval b = (hval XOR ucast b) * 0x100000001B3"
  by (simp add: fnv_step_def Let_def push_bit_eq_mult algebra_simps)

section \<open>Slots as version indices\<close>

lemma swp32_swp32 [simp]: "swp32 (swp32 n) = n"
  by (rule bit_word_eqI) (auto simp: swp32_def lo32_def hi32_def bit_simps)

lemma lo32_swp32 [simp]: "lo32 (swp32 n) = hi32 n" and hi32_swp32 [simp]: "hi32 (swp32 n) = lo32 n"
  by (rule bit_word_eqI, auto simp: swp32_def lo32_def hi32_def bit_simps)+

lemma hi32_asInt [simp]: "hi32 (asInt vi) = vi_idx vi"
  and lo32_asInt [simp]: "lo32 (asInt vi) = vi_version vi"
  by (rule bit_word_eqI, auto simp: asInt_def lo32_def hi32_def bit_simps dest: bit_imp_le_length)+

lemma asInt_VerIdx: "asInt (VerIdx (hi32 n) (lo32 n)) = n"
  by (rule bit_word_eqI) (auto simp: asInt_def VerIdx_def lo32_def hi32_def bit_simps
      dest: bit_imp_le_length)

lemma asInt_swapped: "asInt (VerIdx (lo32 n) (hi32 n)) = swp32 n"
  using asInt_VerIdx [of "swp32 n"] by simp

lemma asInt_inj [simp]: "asInt a = asInt b \<longleftrightarrow> a = b"
proof
  assume "asInt a = asInt b"
  then have "vi_idx a = vi_idx b" and "vi_version a = vi_version b"
    by (metis hi32_asInt, metis lo32_asInt)
  then show "a = b" by simp
qed simp

definition dec :: "u32 \<Rightarrow> u64 \<Rightarrow> ver_idx" where
  "dec i raw = (if i mod 2 = 1 then VerIdx (lo32 raw) (hi32 raw) else VerIdx (hi32 raw) (lo32 raw))"

definition enc :: "u32 \<Rightarrow> ver_idx \<Rightarrow> u64" where
  "enc i vi = (if i mod 2 \<noteq> 0 then swp32 (asInt vi) else asInt vi)"

lemma VerIdx_parts [simp]: "VerIdx (vi_idx vi) (vi_version vi) = vi"
  by (simp add: VerIdx_def)

lemma VerIdx_fields [simp]: "vi_idx (VerIdx i v) = i" "vi_version (VerIdx i v) = v"
  by (simp_all add: VerIdx_def)

lemma dec_enc [simp]: "dec i (enc i vi) = vi"
  by (auto simp: dec_def enc_def)

lemma enc_dec [simp]: "enc i (dec i raw) = raw"
  by (simp add: dec_def enc_def asInt_VerIdx asInt_swapped)

definition slot :: "cncr_hsh \<Rightarrow> u32 \<Rightarrow> ver_idx" where "slot h i = dec i (ch_vis h ! unat i)"

definition set_slot :: "cncr_hsh \<Rightarrow> u32 \<Rightarrow> ver_idx \<Rightarrow> cncr_hsh" where
  "set_slot h i vi = h\<lparr>ch_vis := (ch_vis h)[unat i := enc i vi]\<rparr>"

definition hsh_wf :: "cncr_hsh \<Rightarrow> bool" where
  "hsh_wf h \<longleftrightarrow> 0 < unat (ch_sz h) \<and> unat (ch_sz h) \<le> length (ch_vis h)"

lemma load_slot [hash_simps]: "hsh_wf h \<Longrightarrow> i < ch_sz h \<Longrightarrow> load h i = Some (slot h i)"
  by (simp add: load_def hsh_wf_def word_less_nat_alt arr_simps slot_def dec_def Let_def)

lemma slot_set: "hsh_wf h \<Longrightarrow> i < ch_sz h \<Longrightarrow>
  slot (set_slot h i vi) j = (if j = i then vi else slot h j)"
  by (auto simp: slot_def set_slot_def hsh_wf_def word_less_nat_alt upd_other)

lemma set_slot_fields [simp]: "ch_sz (set_slot h i vi) = ch_sz h" "ch_cs (set_slot h i vi) = ch_cs h"
  "hsh_wf (set_slot h i vi) = hsh_wf h"
  by (simp_all add: set_slot_def hsh_wf_def)

lemma slot_cs [simp]: "slot (h\<lparr>ch_cs := cs\<rparr>) i = slot h i" "hsh_wf (h\<lparr>ch_cs := cs\<rparr>) = hsh_wf h"
  "set_slot (h\<lparr>ch_cs := cs\<rparr>) i vi = (set_slot h i vi)\<lparr>ch_cs := cs\<rparr>"
  by (simp_all add: slot_def hsh_wf_def set_slot_def)

lemma cmpex_slot [hash_simps]:
  assumes "hsh_wf h" and "i < ch_sz h"
  shows "cmpex_vi h i (slot h i) d = Some (True, set_slot h i d)"
proof -
  have "cmpex_vi h i (slot h i) d = do {
      raw \<leftarrow> rd (ch_vis h) i;
      if raw = enc i (slot h i) then do { vis \<leftarrow> wr (ch_vis h) i (enc i d); Some (True, h\<lparr>ch_vis := vis\<rparr>) }
      else Some (False, h)
    }"
    by (simp only: cmpex_vi_def Let_def enc_def)
  moreover have "unat i < length (ch_vis h)"
    using assms by (simp add: hsh_wf_def word_less_nat_alt)
  ultimately show ?thesis by (simp add: arr_simps set_slot_def) (simp add: slot_def)
qed

lemma store_vi_slot:
  assumes "hsh_wf h" and "i < ch_sz h"
  shows "store_vi h i (asInt vi) = Some (slot h i, set_slot h i vi)"
proof -
  have "unat i < length (ch_vis h)"
    using assms by (simp add: hsh_wf_def word_less_nat_alt)
  moreover have "asInt (VerIdx (vi_version vi) (vi_idx vi)) = swp32 (asInt vi)"
    using asInt_swapped [of "asInt vi"] by simp
  ultimately show ?thesis
    by (simp add: store_vi_def Let_def arr_simps set_slot_def slot_def dec_def enc_def)
qed

section \<open>A new table\<close>

lemma init_loop_ok:
  assumes "unat sz + 2 < 2 ^ 32" and "unat sz \<le> length vis"
  shows "\<exists>vis'. init_loop i sz vi vis = Some vis' \<and> length vis' = length vis \<and>
    (\<forall>j < unat sz. vis' ! j = (if unat i \<le> j \<and> even (j - unat i) then asInt vi else vis ! j))"
  using assms(2)
proof (induction "unat sz - unat i" arbitrary: i vis rule: less_induct)
  case less
  show ?case
  proof (cases "i < sz")
    case False
    then show ?thesis
      by (auto simp: init_loop.simps [of i] word_less_nat_alt)
  next
    case True
    then have lt: "unat i < unat sz" by (simp add: word_less_nat_alt)
    have i2: "unat (i + 2) = unat i + 2"
      using lt assms(1) unat_add_u32 [of i 2] by simp
    let ?vis = "vis[unat i := asInt vi]"
    have "\<exists>vis'. init_loop (i + 2) sz vi ?vis = Some vis' \<and> length vis' = length ?vis \<and>
        (\<forall>j < unat sz. vis' ! j = (if unat (i + 2) \<le> j \<and> even (j - unat (i + 2)) then asInt vi else ?vis ! j))"
      using lt less.prems i2 by (intro less.hyps) simp_all
    then obtain vis' where v: "init_loop (i + 2) sz vi ?vis = Some vis'" "length vis' = length vis"
      "\<forall>j < unat sz. vis' ! j = (if unat i + 2 \<le> j \<and> even (j - (unat i + 2)) then asInt vi else ?vis ! j)"
      unfolding i2 by auto
    have "vis' ! j = (if unat i \<le> j \<and> even (j - unat i) then asInt vi else vis ! j)" if "j < unat sz" for j
    proof -
      consider "j < unat i" | "j = unat i" | "j = unat i + 1" | "unat i + 2 \<le> j" by linarith
      then show ?thesis using v(3) that lt less.prems
        by cases (auto simp: nth_list_update)
    qed
    then show ?thesis using True lt less.prems v(1,2)
      by (intro exI [of _ vis']) (simp add: init_loop.simps [of i] arr_simps)
  qed
qed

lemma odd_u32: "(i mod 2 = 1) = odd (unat (i :: u32))"
proof -
  have "(i mod 2 = 1) = (unat (i mod 2) = 1)" by (metis unat_1 word_unat_eq_iff)
  then show ?thesis by (simp add: unat_mod odd_iff_mod_2_eq_one)
qed

lemma hsh_init_ok:
  assumes "0 < unat sz" and "unat sz + 2 < 2 ^ 32" and "unat sz \<le> length mem"
  shows "\<exists>h. hsh_init sz mem cs = Some h \<and> hsh_wf h \<and> ch_sz h = sz \<and> ch_cs h = cs \<and>
    (\<forall>p < sz. slot h p = empty_vi)"
proof -
  obtain v where v: "init_loop 0 sz (VerIdx EMPTY 0) mem = Some v" "length v = length mem"
    "\<forall>j < unat sz. v ! j = (if even j then asInt (VerIdx EMPTY 0) else mem ! j)"
    using init_loop_ok [OF assms(2,3), of 0 "VerIdx EMPTY 0"] by auto
  obtain w where w: "init_loop 1 sz (VerIdx 0 EMPTY) v = Some w" "length w = length v"
    "\<forall>j < unat sz. w ! j = (if 1 \<le> j \<and> even (j - 1) then asInt (VerIdx 0 EMPTY) else v ! j)"
    using init_loop_ok [OF assms(2), of v 1 "VerIdx 0 EMPTY"] assms(3) v(2) by auto
  let ?h = "\<lparr>ch_sz = sz, ch_vis = w, ch_cs = cs\<rparr>"
  have "slot ?h p = empty_vi" if p: "p < sz" for p
  proof (cases "odd (unat p)")
    case True
    then have "1 \<le> unat p" and "even (unat p - 1)" by (cases "unat p", simp_all)+
    with True p w(3) show ?thesis
      by (simp add: slot_def dec_def odd_u32 empty_vi_def word_less_nat_alt)
  next
    case False
    then have "\<not> (1 \<le> unat p \<and> even (unat p - 1))" by (cases "unat p") simp_all
    with False p w(3) v(3) show ?thesis
      by (auto simp: slot_def dec_def odd_u32 empty_vi_def word_less_nat_alt)
  qed
  with v w assms show ?thesis
    by (intro exI [of _ ?h]) (simp add: hsh_init_def hsh_wf_def)
qed

section \<open>Probe order\<close>

primrec probes :: "u32 \<Rightarrow> nat \<Rightarrow> u32 \<Rightarrow> u32 list" where
  "probes sz 0 i = []"
| "probes sz (Suc k) i = i # probes sz k ((i + 1) mod sz)"

lemma unat_next: "i < sz \<Longrightarrow> unat ((i + 1) mod sz :: u32) = (unat i + 1) mod unat sz"
proof -
  assume "i < sz"
  then have "unat i + unat (1 :: u32) < 2 ^ 32"
    using unat_lt_u32 [of sz] unfolding word_less_nat_alt unat_1 by linarith
  then show ?thesis by (simp add: unat_mod unat_add_u32)
qed

lemma next_less: "i < sz \<Longrightarrow> (i + 1) mod sz < (sz :: u32)"
  by (simp add: word_less_nat_alt unat_mod)

lemma probes_length [simp]: "length (probes sz k i) = k"
  by (induction k arbitrary: i) auto

lemma probes_nth: "i < sz \<Longrightarrow> j < k \<Longrightarrow> unat (probes sz k i ! j) = (unat i + j) mod unat sz"
proof (induction k arbitrary: i j)
  case (Suc k)
  show ?case
  proof (cases j)
    case 0
    with Suc.prems show ?thesis by (simp add: word_less_nat_alt)
  next
    case (Suc m)
    with Suc.prems Suc.IH [of "(i + 1) mod sz" m] show ?thesis
      by (simp add: next_less unat_next mod_add_left_eq)
  qed
qed simp

lemma probes_less: "i < sz \<Longrightarrow> x \<in> set (probes sz k i) \<Longrightarrow> x < sz"
proof (induction k arbitrary: i)
  case (Suc k)
  then show ?case using next_less [of i sz] by auto
qed simp

lemma mod_add_inj:
  assumes "a < n" and "b < n" and "(i + a) mod n = (i + b) mod n"
  shows "a = (b :: nat)"
proof -
  have "int n dvd int (i + a) - int (i + b)"
    using assms(3) by (metis mod_eq_dvd_iff zmod_int)
  then have "int n dvd int a - int b" by simp
  then show ?thesis using assms(1,2) zdvd_imp_le [of "int n" "\<bar>int a - int b\<bar>"] by (cases "a = b") auto
qed

lemma probes_distinct:
  assumes "i < sz" and "k \<le> unat sz"
  shows "distinct (probes sz k i)"
  unfolding distinct_conv_nth
proof (intro allI impI)
  fix a b
  assume ab: "a < length (probes sz k i)" "b < length (probes sz k i)" "a \<noteq> b"
  then have "(unat i + a) mod unat sz \<noteq> (unat i + b) mod unat sz"
    using assms(2) mod_add_inj [of a "unat sz" b "unat i"] by auto
  then show "probes sz k i ! a \<noteq> probes sz k i ! b"
    using assms(1) ab probes_nth [of i sz] by (metis probes_length)
qed

lemma probes_set:
  assumes "i < sz"
  shows "set (probes sz (unat sz) i) = {p. p < sz}"
proof (rule card_subset_eq)
  show "set (probes sz (unat sz) i) \<subseteq> {p. p < sz}"
    using probes_less [OF assms] by auto
  have "unat ` {p. p < sz} \<subseteq> {..<unat sz}" by (auto simp: word_less_nat_alt)
  then have "card (unat ` {p. p < sz}) \<le> unat sz"
    by (metis card_lessThan card_mono finite_lessThan)
  moreover have "inj_on unat {p. p < sz}"
    by (rule inj_onI) (simp add: word_unat_eq_iff)
  ultimately have "card {p. p < sz} \<le> unat sz"
    by (simp only: card_image)
  moreover have "card (set (probes sz (unat sz) i)) = unat sz"
    using probes_distinct [OF assms, of "unat sz"] by (simp add: distinct_card)
  moreover have "card (set (probes sz (unat sz) i)) \<le> card {p. p < sz}"
    using probes_less [OF assms] by (intro card_mono) auto
  ultimately show "card (set (probes sz (unat sz) i)) = card {p. p < sz}" by simp
qed simp

lemma card_less_u32: "card {p. p < (sz :: u32)} = unat sz"
proof (cases "sz = 0")
  case False
  then have z: "0 < sz" by (simp add: word_gt_0)
  show ?thesis
    using distinct_card [OF probes_distinct [OF z order_refl]] by (simp add: probes_set [OF z])
qed simp

lemma probes_last_step: "Suc k \<le> unat sz \<Longrightarrow> i < sz \<Longrightarrow> en = last (probes sz (Suc k) i) \<Longrightarrow>
  (i = en \<longleftrightarrow> k = 0) \<and> (0 < k \<longrightarrow> en = last (probes sz k ((i + 1) mod sz)))"
proof (cases k)
  case (Suc m)
  assume a: "Suc k \<le> unat sz" "i < sz" "en = last (probes sz (Suc k) i)"
  then have "i \<notin> set (probes sz k ((i + 1) mod sz))"
    using probes_distinct [of i sz "Suc k"] by simp
  moreover have "probes sz k ((i + 1) mod sz) \<noteq> []" using Suc by simp
  then have "last (probes sz k ((i + 1) mod sz)) \<in> set (probes sz k ((i + 1) mod sz))"
    by (rule last_in_set)
  ultimately show ?thesis using a Suc by auto
qed simp

text \<open>The slots in the order in which a key with this hash is looked for; the last one is \<open>en\<close>.\<close>

definition scan :: "cncr_hsh \<Rightarrow> u32 \<Rightarrow> u32 list" where
  "scan h hash = probes (ch_sz h) (unat (ch_sz h)) (hash mod ch_sz h)"

lemma home_less: "hsh_wf h \<Longrightarrow> hash mod ch_sz h < ch_sz h"
  by (simp add: hsh_wf_def word_less_nat_alt unat_mod)

lemma scan_set: "hsh_wf h \<Longrightarrow> set (scan h hash) = {p. p < ch_sz h}"
  unfolding scan_def by (rule probes_set [OF home_less])

lemma scan_distinct: "hsh_wf h \<Longrightarrow> distinct (scan h hash)"
  unfolding scan_def by (rule probes_distinct [OF home_less order_refl])

lemma scan_Cons: "hsh_wf h \<Longrightarrow>
  scan h hash = probes (ch_sz h) (Suc (unat (ch_sz h) - 1)) (hash mod ch_sz h)"
  by (simp add: scan_def hsh_wf_def)

lemma mod_back: "i \<noteq> 0 \<Longrightarrow> i < n \<Longrightarrow> (i + (n - 1)) mod n = i - (1 :: nat)"
  using mod_add_self2 [of "i - 1" n] by simp

lemma scan_last:
  assumes "hsh_wf h"
  shows "last (scan h hash) = prevIdx h (hash mod ch_sz h)"
proof -
  let ?n = "unat (ch_sz h)" and ?i = "hash mod ch_sz h"
  have n: "0 < ?n" using assms by (simp add: hsh_wf_def)
  have i: "?i < ch_sz h" using assms by (rule home_less)
  then have ui: "unat ?i < ?n" by (simp add: word_less_nat_alt)
  have sz1: "unat (ch_sz h - 1) = ?n - 1" using n by (simp add: unat_sub_u32)
  have ne: "scan h hash \<noteq> []" using n by (auto simp: scan_def simp flip: length_0_conv)
  have "last (scan h hash) = scan h hash ! (?n - 1)"
    using last_conv_nth [OF ne] by (simp add: scan_def)
  then have ul: "unat (last (scan h hash)) = (unat ?i + (?n - 1)) mod ?n"
    using probes_nth [OF i, of "?n - 1" ?n] n by (simp add: scan_def)
  have "unat (last (scan h hash)) = unat (prevIdx h ?i)"
  proof (cases "unat ?i = 0")
    case True
    then have "?i - 1 = - 1" by (simp add: unat_eq_0)
    then have "prevIdx h ?i = ch_sz h - 1" by (simp add: prevIdx_def min_absorb2 [OF word_order.extremum])
    with True ul sz1 n show ?thesis by simp
  next
    case False
    then have "unat (?i - 1) = unat ?i - 1" by (intro trans [OF unat_sub_u32]) simp_all
    moreover have "\<dots> \<le> ?n - 1" using ui by simp
    ultimately have "unat (prevIdx h ?i) = unat ?i - 1"
      using sz1 by (simp add: prevIdx_def min_def word_le_nat_alt)
    moreover have "(unat ?i + (?n - 1)) mod ?n = unat ?i - 1"
      using False ui by (rule mod_back)
    ultimately show ?thesis using ul by simp
  qed
  then show ?thesis by (simp add: word_unat_eq_iff)
qed

section \<open>The scanning loops\<close>

definition free_vi :: "ver_idx \<Rightarrow> bool" where "free_vi vi \<longleftrightarrow> DELETED \<le> vi_idx vi"

lemma not_free_vi: "(vi_idx vi \<noteq> EMPTY \<and> vi_idx vi \<noteq> DELETED) = (\<not> free_vi vi)"
  using unat_lt_u32_numeral [of "vi_idx vi"]
  by (auto simp: free_vi_def DELETED_def EMPTY_def word_le_nat_alt word_unat_eq_iff
      simp del: unat_lt_u32_numeral)

lemma free_empty [simp]: "free_vi empty_vi" and free_deleted [simp]: "free_vi deleted_vi"
  by (simp_all add: free_vi_def empty_vi_def deleted_vi_def DELETED_def EMPTY_def)

text \<open>\<open>cmp_ok h key klen hash Q\<close>: comparing the key with a slot in use says whether \<open>Q\<close> holds of it, and
  leaves the store as it was.\<close>

definition cmp_ok :: "cncr_hsh \<Rightarrow> bytes \<Rightarrow> u32 \<Rightarrow> u32 \<Rightarrow> (ver_idx \<Rightarrow> bool) \<Rightarrow> bool" where
  "cmp_ok h key klen hash Q \<longleftrightarrow> (\<forall>p < ch_sz h. \<not> free_vi (slot h p) \<longrightarrow>
     str_compare (ch_cs h) (vi_idx (slot h p)) (vi_version (slot h p)) key klen hash =
     Some (if Q (slot h p) then MATCH_TRUE else MATCH_FALSE, ch_cs h))"

lemma cmp_okD: "cmp_ok h key klen hash Q \<Longrightarrow> p < ch_sz h \<Longrightarrow> \<not> free_vi (slot h p) \<Longrightarrow>
  str_compare (ch_cs h) (vi_idx (slot h p)) (vi_version (slot h p)) key klen hash =
  Some (if Q (slot h p) then MATCH_TRUE else MATCH_FALSE, ch_cs h)"
  by (simp add: cmp_ok_def)

lemma putHashed_loop_find:
  assumes "hsh_wf h" and "cmp_ok h key klen hash Q"
    and "Suc k \<le> unat (ch_sz h)" and "i < ch_sz h" and "en = last (probes (ch_sz h) (Suc k) i)"
  shows "putHashed_loop h hash d key klen en i =
    (case find (\<lambda>p. free_vi (slot h p) \<or> Q (slot h p)) (probes (ch_sz h) (Suc k) i) of
       None \<Rightarrow> Some (empty_vi, h) | Some p \<Rightarrow> Some (slot h p, set_slot h p d))"
  using assms(3-)
proof (induction k arbitrary: i)
  case 0
  then show ?case
    using cmp_okD [OF assms(2) 0(2)]
    by (simp add: putHashed_loop.simps [of h] hash_simps assms(1) flip: free_vi_def)
next
  case (Suc k)
  define ps where "ps = probes (ch_sz h) (Suc k) ((i + 1) mod ch_sz h)"
  have st: "i \<noteq> en" "en = last ps"
    using probes_last_step [OF Suc.prems] unfolding ps_def by blast+
  have ps: "probes (ch_sz h) (Suc (Suc k)) i = i # ps" by (simp add: ps_def)
  have IH: "putHashed_loop h hash d key klen en ((i + 1) mod ch_sz h) =
    (case find (\<lambda>p. free_vi (slot h p) \<or> Q (slot h p)) ps of
       None \<Rightarrow> Some (empty_vi, h) | Some p \<Rightarrow> Some (slot h p, set_slot h p d))"
    unfolding ps_def using Suc.prems st(2) by (intro Suc.IH next_less) (simp_all add: ps_def)
  show ?case
    unfolding ps using cmp_okD [OF assms(2) Suc.prems(2)] st(1) IH Suc.prems(2)
    by (simp add: putHashed_loop.simps [of h _ _ _ _ _ i] hash_simps assms(1) nxtIdx_def
        flip: free_vi_def)
qed

lemma runMatch_loop_find:
  assumes "hsh_wf h" and "cmp_ok h key klen hash Q"
    and "Suc k \<le> unat (ch_sz h)" and "i < ch_sz h" and "en = last (probes (ch_sz h) (Suc k) i)"
  shows "runMatch_loop h key klen hash f x en i =
    (case find (\<lambda>p. \<not> free_vi (slot h p) \<and> Q (slot h p)) (probes (ch_sz h) (Suc k) i) of
       None \<Rightarrow> Some (False, x, h)
     | Some p \<Rightarrow> do { (x', cs) \<leftarrow> f (slot h p) x (ch_cs h); Some (True, x', h\<lparr>ch_cs := cs\<rparr>) })"
  using assms(3-)
proof (induction k arbitrary: i)
  case 0
  then show ?case
    using cmp_okD [OF assms(2) 0(2)]
    by (simp add: runMatch_loop.simps [of h] hash_simps assms(1) not_free_vi runIfMatch_def
        split: Option.bind_split)
next
  case (Suc k)
  define ps where "ps = probes (ch_sz h) (Suc k) ((i + 1) mod ch_sz h)"
  have st: "i \<noteq> en" "en = last ps"
    using probes_last_step [OF Suc.prems] unfolding ps_def by blast+
  have ps: "probes (ch_sz h) (Suc (Suc k)) i = i # ps" by (simp add: ps_def)
  have IH: "runMatch_loop h key klen hash f x en ((i + 1) mod ch_sz h) =
    (case find (\<lambda>p. \<not> free_vi (slot h p) \<and> Q (slot h p)) ps of
       None \<Rightarrow> Some (False, x, h)
     | Some p \<Rightarrow> do { (x', cs) \<leftarrow> f (slot h p) x (ch_cs h); Some (True, x', h\<lparr>ch_cs := cs\<rparr>) })"
    unfolding ps_def using Suc.prems st(2) by (intro Suc.IH next_less) (simp_all add: ps_def)
  show ?case
    unfolding ps using cmp_okD [OF assms(2) Suc.prems(2)] st(1) IH Suc.prems(2)
    by (simp add: runMatch_loop.simps [of h _ _ _ _ _ _ i] hash_simps assms(1) nxtIdx_def not_free_vi
        runIfMatch_def split: Option.bind_split)
qed

lemma scan_args:
  assumes "hsh_wf h"
  shows "Suc (unat (ch_sz h) - 1) \<le> unat (ch_sz h)" and "hash mod ch_sz h < ch_sz h"
    and "prevIdx h (hash mod ch_sz h) =
      last (probes (ch_sz h) (Suc (unat (ch_sz h) - 1)) (hash mod ch_sz h))"
  using assms home_less [OF assms] scan_last [OF assms, of hash]
  by (simp_all add: scan_Cons hsh_wf_def del: probes.simps)

lemma putHashed_find:
  assumes "hsh_wf h" and "cmp_ok h key klen hash Q"
  shows "putHashed h hash d key klen =
    (case find (\<lambda>p. free_vi (slot h p) \<or> Q (slot h p)) (scan h hash) of
       None \<Rightarrow> Some (empty_vi, h) | Some p \<Rightarrow> Some (slot h p, set_slot h p d))"
  unfolding putHashed_def Let_def scan_Cons [OF assms(1)]
  by (rule putHashed_loop_find [OF assms scan_args [OF assms(1)]])

lemma runMatch_find:
  assumes "hsh_wf h" and "cmp_ok h key klen hash Q"
  shows "runMatch h key klen hash f x =
    (case find (\<lambda>p. \<not> free_vi (slot h p) \<and> Q (slot h p)) (scan h hash) of
       None \<Rightarrow> Some (False, x, h)
     | Some p \<Rightarrow> do { (x', cs) \<leftarrow> f (slot h p) x (ch_cs h); Some (True, x', h\<lparr>ch_cs := cs\<rparr>) })"
  unfolding runMatch_def Let_def scan_Cons [OF assms(1)]
  by (rule runMatch_loop_find [OF assms scan_args [OF assms(1)]])

text \<open>\<open>delHashed\<close> does not look at the last slot of the order.\<close>

lemma delHashed_loop_find:
  assumes "hsh_wf h" and "cmp_ok h key klen hash Q"
    and "Suc k \<le> unat (ch_sz h)" and "i < ch_sz h" and "en = last (probes (ch_sz h) (Suc k) i)"
  shows "delHashed_loop h key klen hash en i =
    (case find (\<lambda>p. \<not> free_vi (slot h p) \<and> Q (slot h p)) (butlast (probes (ch_sz h) (Suc k) i)) of
       None \<Rightarrow> Some (empty_vi, h) | Some p \<Rightarrow> Some (slot h p, set_slot h p deleted_vi))"
  using assms(3-)
proof (induction k arbitrary: i)
  case 0
  then show ?case by (simp add: delHashed_loop.simps [of h])
next
  case (Suc k)
  define ps where "ps = probes (ch_sz h) (Suc k) ((i + 1) mod ch_sz h)"
  have st: "i \<noteq> en" "en = last ps"
    using probes_last_step [OF Suc.prems] unfolding ps_def by blast+
  have ps: "butlast (probes (ch_sz h) (Suc (Suc k)) i) = i # butlast ps" by (simp add: ps_def)
  have IH: "delHashed_loop h key klen hash en ((i + 1) mod ch_sz h) =
    (case find (\<lambda>p. \<not> free_vi (slot h p) \<and> Q (slot h p)) (butlast ps) of
       None \<Rightarrow> Some (empty_vi, h) | Some p \<Rightarrow> Some (slot h p, set_slot h p deleted_vi))"
    unfolding ps_def using Suc.prems st(2) by (intro Suc.IH next_less) (simp_all add: ps_def)
  show ?case
    unfolding ps using cmp_okD [OF assms(2) Suc.prems(2)] st(1) IH Suc.prems(2)
    by (simp add: delHashed_loop.simps [of h _ _ _ _ i] hash_simps assms(1) nxtIdx_def
        flip: free_vi_def)
qed

lemma delHashed_find:
  assumes "hsh_wf h" and "cmp_ok h key klen hash Q"
  shows "delHashed h key klen hash =
    (case find (\<lambda>p. \<not> free_vi (slot h p) \<and> Q (slot h p)) (butlast (scan h hash)) of
       None \<Rightarrow> Some (empty_vi, h) | Some p \<Rightarrow> Some (slot h p, set_slot h p deleted_vi))"
  unfolding delHashed_def Let_def scan_Cons [OF assms(1)]
  by (rule delHashed_loop_find [OF assms scan_args [OF assms(1)]])

lemma hsh_len_loop_find:
  assumes "hsh_wf h" and "cmp_ok h key klen hash Q"
    and "Suc k \<le> unat (ch_sz h)" and "i < ch_sz h" and "en = last (probes (ch_sz h) (Suc k) i)"
  shows "hsh_len_loop h key klen hash en i =
    (case find (\<lambda>p. \<not> free_vi (slot h p) \<and> Q (slot h p)) (probes (ch_sz h) (Suc k) i) of
       None \<Rightarrow> Some (0, None, None, h)
     | Some p \<Rightarrow> do {
         (l, vlen) \<leftarrow> str_len (ch_cs h) (vi_idx (slot h p)) (vi_version (slot h p));
         Some (ucast l, vlen, Some (vi_version (slot h p)), h)
       })"
  using assms(3-)
proof (induction k arbitrary: i)
  case 0
  then show ?case
    using cmp_okD [OF assms(2) 0(2)]
    by (simp add: hsh_len_loop.simps [of h] hash_simps assms(1) not_free_vi)
next
  case (Suc k)
  define ps where "ps = probes (ch_sz h) (Suc k) ((i + 1) mod ch_sz h)"
  have st: "i \<noteq> en" "en = last ps"
    using probes_last_step [OF Suc.prems] unfolding ps_def by blast+
  have ps: "probes (ch_sz h) (Suc (Suc k)) i = i # ps" by (simp add: ps_def)
  have IH: "hsh_len_loop h key klen hash en ((i + 1) mod ch_sz h) =
    (case find (\<lambda>p. \<not> free_vi (slot h p) \<and> Q (slot h p)) ps of
       None \<Rightarrow> Some (0, None, None, h)
     | Some p \<Rightarrow> do {
         (l, vlen) \<leftarrow> str_len (ch_cs h) (vi_idx (slot h p)) (vi_version (slot h p));
         Some (ucast l, vlen, Some (vi_version (slot h p)), h)
       })"
    unfolding ps_def using Suc.prems st(2) by (intro Suc.IH next_less) (simp_all add: ps_def)
  show ?case
    unfolding ps using cmp_okD [OF assms(2) Suc.prems(2)] st(1) IH Suc.prems(2)
    by (simp add: hsh_len_loop.simps [of h _ _ _ _ i] hash_simps assms(1) nxtIdx_def not_free_vi)
qed

lemma hsh_len_find:
  assumes "hsh_wf h" and "cmp_ok h key klen hash Q"
  shows "hsh_len_loop h key klen hash (prevIdx h (hash mod ch_sz h)) (hash mod ch_sz h) =
    (case find (\<lambda>p. \<not> free_vi (slot h p) \<and> Q (slot h p)) (scan h hash) of
       None \<Rightarrow> Some (0, None, None, h)
     | Some p \<Rightarrow> do {
         (l, vlen) \<leftarrow> str_len (ch_cs h) (vi_idx (slot h p)) (vi_version (slot h p));
         Some (ucast l, vlen, Some (vi_version (slot h p)), h)
       })"
  unfolding scan_Cons [OF assms(1)]
  by (rule hsh_len_loop_find [OF assms scan_args [OF assms(1)]])

end
