(* ===== verification/Shm_Db.thy ===== *)
theory Shm_Db
  imports Shm_Hash_Inv Shm_Store_Write Shm_Store_Read
begin

text \<open>
  The hash table over the block store. \<open>hsh_inv h F L\<close> ties the slots of the table to the blobs of its
  store, \<open>hsh_lookup\<close> is the map from keys to values they stand for, and the lemmas say what putting,
  getting, measuring and deleting do to it.
\<close>

section \<open>Slot tables\<close>

text \<open>The table without its representation: what each slot holds, and the value found for a key by
  going through the slots in an order.\<close>

type_synonym table = "u32 \<Rightarrow> (bytes \<times> bytes) option"

primrec tbl_get :: "table \<Rightarrow> u32 list \<Rightarrow> bytes \<Rightarrow> bytes option" where
  "tbl_get t [] k = None"
| "tbl_get t (p # ps) k =
     (case t p of Some (k', v) \<Rightarrow> if k' = k then Some v else tbl_get t ps k | None \<Rightarrow> tbl_get t ps k)"

definition tbl_key :: "table \<Rightarrow> u32 \<Rightarrow> bytes option" where "tbl_key t p = map_option fst (t p)"

lemma tbl_get_put_same: "find (\<lambda>p. t p = None \<or> tbl_key t p = Some key) ps = Some p \<Longrightarrow>
  tbl_get (t(p \<mapsto> (key, v))) ps key = Some v"
  by (induction ps) (auto simp: tbl_key_def split: if_splits option.splits)

lemma tbl_get_put_other: "t p = None \<or> tbl_key t p = Some key \<Longrightarrow> k \<noteq> key \<Longrightarrow>
  tbl_get (t(p \<mapsto> (key, v))) ps k = tbl_get t ps k"
  by (induction ps) (auto simp: tbl_key_def split: option.splits)

lemma tbl_get_del_other: "tbl_key t p = Some key \<Longrightarrow> k \<noteq> key \<Longrightarrow>
  tbl_get (t(p := None)) ps k = tbl_get t ps k"
  by (induction ps) (auto simp: tbl_key_def split: option.splits)

lemma tbl_get_del_same: "\<forall>q \<in> set ps. tbl_key t q = Some key \<longrightarrow> q = p \<Longrightarrow>
  tbl_get (t(p := None)) ps key = None"
  by (induction ps) (auto simp: tbl_key_def split: option.splits)

lemma tbl_get_cong: "(\<And>p. p \<in> set ps \<Longrightarrow> t p = t' p) \<Longrightarrow> tbl_get t ps k = tbl_get t' ps k"
  by (induction ps) (auto split: option.splits)

lemma tbl_get_find: "tbl_get t ps k =
  (case find (\<lambda>p. tbl_key t p = Some k) ps of None \<Rightarrow> None | Some p \<Rightarrow> map_option snd (t p))"
  by (induction ps) (auto simp: tbl_key_def split: option.splits)

section \<open>The invariant\<close>

definition vi_of :: "blob \<Rightarrow> ver_idx" where "vi_of o' = VerIdx (bo_head o') (bo_ver o')"

definition blob_at :: "blob list \<Rightarrow> ver_idx \<Rightarrow> blob option" where
  "blob_at L vi = find (\<lambda>o'. vi_of o' = vi) L"

definition entries :: "cncr_hsh \<Rightarrow> blob list \<Rightarrow> table" where
  "entries h L p = (if free_vi (slot h p) then None
     else map_option (\<lambda>o'. (bo_key o', bo_val o')) (blob_at L (slot h p)))"

definition hsh_lookup :: "cncr_hsh \<Rightarrow> blob list \<Rightarrow> bytes \<Rightarrow> bytes option" where
  "hsh_lookup h L key = tbl_get (entries h L) (scan h (HashBytes key)) key"

definition hsh_inv :: "cncr_hsh \<Rightarrow> u32 list \<Rightarrow> blob list \<Rightarrow> bool" where
  "hsh_inv h F L \<longleftrightarrow> hsh_wf h \<and> str_inv (ch_cs h) F L \<and> 1 < unat (cs_blockSize (ch_cs h)) \<and>
     unat (ch_sz h) = length (cs_bls (ch_cs h)) \<and>
     (\<forall>p < ch_sz h. free_vi (slot h p) \<or> slot h p \<in> vi_of ` set L) \<and>
     (\<forall>o' \<in> set L. \<exists>p < ch_sz h. slot h p = vi_of o') \<and>
     (\<forall>p < ch_sz h. \<forall>q < ch_sz h. slot h p = slot h q \<and> \<not> free_vi (slot h p) \<longrightarrow> p = q) \<and>
     (\<forall>o' \<in> set L. bo_hash o' = HashBytes (bo_key o') \<and>
        length (bo_key o') mod unat (cs_blockSize (ch_cs h)) \<noteq> 0)"

lemma chain_unique: "distinct (concat (map f L)) \<Longrightarrow> a \<in> set L \<Longrightarrow> b \<in> set L \<Longrightarrow>
  x \<in> set (f a) \<Longrightarrow> x \<in> set (f b) \<Longrightarrow> a = b"
  by (induction L) auto

lemma str_inv_blob: "str_inv s F L \<Longrightarrow> o' \<in> set L \<Longrightarrow> blob_ok s o'"
  by (simp add: str_inv_def)

lemma blob_head: "blob_ok s o' \<Longrightarrow> bo_head o' \<in> set (bo_chain o')"
  by (intro bo_head_in) (simp add: blob_ok_def)

lemma vi_of_inj: "str_inv s F L \<Longrightarrow> a \<in> set L \<Longrightarrow> b \<in> set L \<Longrightarrow> vi_of a = vi_of b \<Longrightarrow> a = b"
proof -
  assume inv: "str_inv s F L" and ab: "a \<in> set L" "b \<in> set L" and "vi_of a = vi_of b"
  then have "bo_head b = bo_head a" by (simp add: vi_of_def VerIdx_def)
  moreover have "distinct (concat (map bo_chain L))" using inv by (simp add: str_inv_def)
  moreover have "bo_head a \<in> set (bo_chain a)" "bo_head b \<in> set (bo_chain b)"
    using inv ab by (auto intro: blob_head str_inv_blob)
  ultimately show "a = b" using chain_unique ab by metis
qed

lemma find_in: "x \<in> set xs \<Longrightarrow> P x \<Longrightarrow> \<forall>y \<in> set xs. P y \<longrightarrow> y = x \<Longrightarrow> find P xs = Some x"
proof (induction xs)
  case (Cons y ys)
  show ?case
  proof (cases "P y")
    case True
    then have "y = x" using Cons.prems(3) by (meson list.set_intros(1))
    with True show ?thesis by simp
  next
    case False
    then have "x \<in> set ys" using Cons.prems(1,2) by auto
    moreover have "\<forall>z \<in> set ys. P z \<longrightarrow> z = x" using Cons.prems(3) by (meson list.set_intros(2))
    ultimately have "find P ys = Some x" by (intro Cons.IH Cons.prems(2))
    with False show ?thesis by simp
  qed
qed simp

lemma blob_at_in: "str_inv s F L \<Longrightarrow> o' \<in> set L \<Longrightarrow> blob_at L (vi_of o') = Some o'"
  unfolding blob_at_def by (rule find_in) (auto dest: vi_of_inj)

lemma inv_blocks:
  assumes "hsh_inv h F L"
  shows "length (cs_bls (ch_cs h)) \<le> 2 ^ 31"
proof -
  have "1 < unat (cs_blockSize (ch_cs h))"
    and len: "length (cs_bls (ch_cs h)) * unat (cs_blockSize (ch_cs h)) < 2 ^ 32"
    using assms by (auto simp: hsh_inv_def str_inv_def str_wf_def)
  then have "length (cs_bls (ch_cs h)) * 2 \<le> length (cs_bls (ch_cs h)) * unat (cs_blockSize (ch_cs h))"
    by (intro mult_le_mono2) simp
  then have "length (cs_bls (ch_cs h)) * 2 < 2 ^ 32" using len by (rule le_less_trans)
  then show ?thesis by simp
qed

lemma not_free_vi_of: "hsh_inv h F L \<Longrightarrow> blob_ok (ch_cs h) o' \<Longrightarrow> \<not> free_vi (vi_of o')"
  using inv_blocks [of h F L] blob_bound [of "ch_cs h" o' "bo_head o'"] blob_head [of "ch_cs h" o']
  by (simp add: free_vi_def vi_of_def DELETED_def EMPTY_def word_le_nat_alt)

text \<open>Comparing under the invariant.\<close>

definition holds :: "blob list \<Rightarrow> bytes \<Rightarrow> ver_idx \<Rightarrow> bool" where
  "holds L key vi \<longleftrightarrow> map_option bo_key (blob_at L vi) = Some key"

lemma unat_length: "length xs < 2 ^ 32 \<Longrightarrow> unat (of_nat (length xs) :: u32) = length xs"
  by (rule unat_of_nat_u32)

lemma compare_slot:
  assumes inv: "str_inv s F L" and "o' \<in> set L" and "length key < 2 ^ 32"
    and "bo_hash o' = HashBytes (bo_key o')"
  shows "str_compare s (vi_idx (vi_of o')) (vi_version (vi_of o')) key (of_nat (length key)) (HashBytes key) =
    Some (if holds L key (vi_of o') then MATCH_TRUE else MATCH_FALSE, s)"
  using compare_blob [of s o' key "of_nat (length key)" "HashBytes key"] assms
    blob_at_in [OF inv assms(2)] unat_length [OF assms(3)]
  by (auto simp: str_inv_def vi_of_def holds_def)

lemma entries_key: "\<not> free_vi (slot h p) \<Longrightarrow> (tbl_key (entries h L) p = Some key) = holds L key (slot h p)"
  by (simp add: tbl_key_def entries_def holds_def option.map_comp comp_def)

lemma inv_slot: "hsh_inv h F L \<Longrightarrow> p < ch_sz h \<Longrightarrow> \<not> free_vi (slot h p) \<Longrightarrow>
  \<exists>o' \<in> set L. slot h p = vi_of o' \<and> blob_at L (slot h p) = Some o'"
  unfolding hsh_inv_def using blob_at_in by fastforce

lemma entries_None: "hsh_inv h F L \<Longrightarrow> p < ch_sz h \<Longrightarrow> entries h L p = None \<longleftrightarrow> free_vi (slot h p)"
  using inv_slot [of h F L p] by (auto simp: entries_def)

lemma inv_cmp_ok:
  assumes inv: "hsh_inv h F L" and "length key < 2 ^ 32"
  shows "cmp_ok h key (of_nat (length key)) (HashBytes key) (holds L key)"
  unfolding cmp_ok_def
proof (intro allI impI)
  fix p
  assume p: "p < ch_sz h" "\<not> free_vi (slot h p)"
  obtain o' where o: "o' \<in> set L" "slot h p = vi_of o'" using inv_slot [OF inv p] by blast
  then show "str_compare (ch_cs h) (vi_idx (slot h p)) (vi_version (slot h p)) key
      (of_nat (length key)) (HashBytes key) =
    Some (if holds L key (slot h p) then MATCH_TRUE else MATCH_FALSE, ch_cs h)"
    using compare_slot [of "ch_cs h" F L o' key] inv assms(2) by (simp add: hsh_inv_def)
qed

lemma find_cong': "(\<And>p. p \<in> set ps \<Longrightarrow> P p = Q p) \<Longrightarrow> find P ps = find Q ps"
  by (induction ps) auto

lemma scan_key:
  assumes "hsh_inv h F L"
  shows "find (\<lambda>p. \<not> free_vi (slot h p) \<and> holds L key (slot h p)) (scan h hash) =
    find (\<lambda>p. tbl_key (entries h L) p = Some key) (scan h hash)"
proof (rule find_cong')
  fix p
  show "(\<not> free_vi (slot h p) \<and> holds L key (slot h p)) = (tbl_key (entries h L) p = Some key)"
    by (cases "free_vi (slot h p)") (simp_all add: entries_key, simp add: entries_def tbl_key_def)
qed

section \<open>Putting\<close>

text \<open>When a further blob has its blocks, the table has a slot for it.\<close>

lemma free_slot_exists:
  assumes inv: "hsh_inv h F L" and inv2: "str_inv s2 F1 (o' # L)"
    and "length (cs_bls s2) = length (cs_bls (ch_cs h))"
  shows "\<exists>p < ch_sz h. free_vi (slot h p)"
proof (rule ccontr)
  assume "\<not> (\<exists>p < ch_sz h. free_vi (slot h p))"
  then have used: "\<not> free_vi (slot h p)" if "p < ch_sz h" for p using that by blast
  let ?P = "{p. p < ch_sz h}" and ?f = "\<lambda>p. vi_idx (slot h p)"
  have sub: "bo_head b \<in> ?P" if "b \<in> set (o' # L)" for b
    using blob_bound [OF str_inv_blob [OF inv2 that] blob_head [OF str_inv_blob [OF inv2 that]]]
      assms(3) inv by (simp add: hsh_inv_def word_less_nat_alt)
  have str: "str_inv (ch_cs h) F L" using inv by (simp add: hsh_inv_def)
  have blob: "\<exists>b \<in> set L. slot h p = vi_of b \<and> ?f p = bo_head b" if "p < ch_sz h" for p
    using inv_slot [OF inv that used [OF that]] by (auto simp: vi_of_def)
  have "inj_on ?f ?P"
  proof (rule inj_onI)
    fix p q
    assume pq: "p \<in> ?P" "q \<in> ?P" "?f p = ?f q"
    obtain a b where a: "a \<in> set L" "slot h p = vi_of a" "?f p = bo_head a"
      and b: "b \<in> set L" "slot h q = vi_of b" "?f q = bo_head b"
      using blob [of p] blob [of q] pq(1,2) by blast
    have "distinct (concat (map bo_chain L))" using str by (simp add: str_inv_def)
    then have "a = b"
      using a b pq(3) chain_unique blob_head [OF str_inv_blob [OF str a(1)]]
        blob_head [OF str_inv_blob [OF str b(1)]] by metis
    then have "slot h p = slot h q" using a b by simp
    then show "p = q" using inv pq(1,2) used [of p] unfolding hsh_inv_def by blast
  qed
  moreover have "?f ` ?P \<subseteq> ?P" using blob sub by fastforce
  ultimately have "?f ` ?P = ?P" by (intro endo_inj_surj) auto
  then obtain p where p: "p < ch_sz h" "?f p = bo_head o'" using sub [of o'] by (metis (mono_tags, lifting)
      image_iff list.set_intros(1) mem_Collect_eq)
  then obtain b where b: "b \<in> set L" "bo_head b = bo_head o'" using blob by metis
  have "bo_head o' \<in> set (bo_chain o')" "bo_head b \<in> set (bo_chain b)"
    using str_inv_blob [OF inv2] b(1) by (auto intro: blob_head)
  then show False using inv2 b by (auto simp: str_inv_def)
qed

lemma entries_kept:
  assumes inv: "hsh_inv h F L" and "q < ch_sz h" and "slot h' q = slot h q"
    and str2: "str_inv s2 F2 L2" and "\<forall>o' \<in> set L. slot h q = vi_of o' \<longrightarrow> o' \<in> set L2"
  shows "entries h' L2 q = entries h L q"
proof (cases "free_vi (slot h q)")
  case True
  with assms(3) show ?thesis by (simp add: entries_def)
next
  case False
  obtain o' where o: "o' \<in> set L" "slot h q = vi_of o'" "blob_at L (slot h q) = Some o'"
    using inv_slot [OF inv assms(2) False] by blast
  then have "blob_at L2 (slot h q) = Some o'"
    using blob_at_in [OF str2] assms(5) by simp
  with o(3) assms(3) show ?thesis by (simp add: entries_def)
qed

text \<open>Setting slot \<open>p\<close> to a new blob, the blob it held being freed, or to \<open>DELETED\<close>.\<close>

lemma set_slot_put:
  assumes inv: "hsh_inv h F L" and p: "p < ch_sz h"
    and str2: "str_inv s2 F2 L2" and len: "length (cs_bls s2) = length (cs_bls (ch_cs h))"
    and bs: "cs_blockSize s2 = cs_blockSize (ch_cs h)"
    and L2: "set L2 = insert o' {b \<in> set L. vi_of b \<noteq> slot h p}"
    and fresh: "vi_of o' \<notin> vi_of ` set L"
    and o: "bo_hash o' = HashBytes (bo_key o')" "length (bo_key o') mod unat (cs_blockSize s2) \<noteq> 0"
  shows "hsh_inv (set_slot (h\<lparr>ch_cs := s2\<rparr>) p (vi_of o')) F2 L2"
    and "q < ch_sz h \<Longrightarrow> entries (set_slot (h\<lparr>ch_cs := s2\<rparr>) p (vi_of o')) L2 q =
      ((entries h L)(p \<mapsto> (bo_key o', bo_val o'))) q"
proof -
  let ?h = "set_slot (h\<lparr>ch_cs := s2\<rparr>) p (vi_of o')"
  have wf: "hsh_wf h" using inv by (simp add: hsh_inv_def)
  have slot: "slot (set_slot h p (vi_of o')) r = (if r = p then vi_of o' else slot h r)" for r
    using slot_set [OF wf p] by simp
  have other: "free_vi (slot h r) \<or> (\<exists>b \<in> set L. b \<in> set L2 \<and> slot h r = vi_of b)"
    if r: "r < ch_sz h" "r \<noteq> p" for r
  proof (cases "free_vi (slot h r)")
    case False
    then obtain b where "b \<in> set L" "slot h r = vi_of b" using inv_slot [OF inv r(1)] by blast
    moreover have "slot h r \<noteq> slot h p" using inv r p False unfolding hsh_inv_def by blast
    ultimately show ?thesis using L2 by auto
  qed simp
  have used: "\<not> free_vi (slot h r) \<Longrightarrow> r < ch_sz h \<Longrightarrow> slot h r \<noteq> vi_of o'" for r
    using inv_slot [OF inv, of r] fresh by (metis image_eqI)
  show "hsh_inv ?h F2 L2"
    unfolding hsh_inv_def
  proof (intro conjI)
    show "\<forall>r < ch_sz ?h. free_vi (slot ?h r) \<or> slot ?h r \<in> vi_of ` set L2"
      using other L2 by (auto simp: slot)
    show "\<forall>b \<in> set L2. \<exists>r < ch_sz ?h. slot ?h r = vi_of b"
    proof
      fix b assume "b \<in> set L2"
      then consider "b = o'" | "b \<in> set L" "vi_of b \<noteq> slot h p" using L2 by blast
      then show "\<exists>r < ch_sz ?h. slot ?h r = vi_of b"
      proof cases
        case 1
        then show ?thesis using p by (auto simp: slot)
      next
        case 2
        then obtain r where "r < ch_sz h" "slot h r = vi_of b"
          using inv by (auto simp: hsh_inv_def)
        then show ?thesis using 2 by (intro exI [of _ r]) (auto simp: slot)
      qed
    qed
    have slot': "slot ?h r = (if r = p then vi_of o' else slot h r)" for r by (simp add: slot)
    show "\<forall>r < ch_sz ?h. \<forall>t < ch_sz ?h. slot ?h r = slot ?h t \<and> \<not> free_vi (slot ?h r) \<longrightarrow> r = t"
    proof (intro allI impI)
      fix r t
      assume rt: "r < ch_sz ?h" "t < ch_sz ?h" and "slot ?h r = slot ?h t \<and> \<not> free_vi (slot ?h r)"
      then have eq: "(if r = p then vi_of o' else slot h r) = (if t = p then vi_of o' else slot h t)"
        and nf: "\<not> free_vi (if r = p then vi_of o' else slot h r)"
        unfolding slot' by blast+
      have inj: "slot h r = slot h t \<Longrightarrow> \<not> free_vi (slot h r) \<Longrightarrow> r = t"
        using inv rt by (simp add: hsh_inv_def)
      show "r = t"
        using eq nf rt used [of r] used [of t] inj by (simp split: if_splits)
    qed
    show "\<forall>b \<in> set L2. bo_hash b = HashBytes (bo_key b) \<and>
        length (bo_key b) mod unat (cs_blockSize (ch_cs ?h)) \<noteq> 0"
      using inv o bs L2 unfolding hsh_inv_def by auto
  qed (use inv str2 len bs in \<open>auto simp: hsh_inv_def\<close>)
  then have nf: "\<not> free_vi (vi_of o')"
    using not_free_vi_of [of ?h F2 L2 o'] str2 L2 by (simp add: str_inv_def)
  show "entries ?h L2 q = ((entries h L)(p \<mapsto> (bo_key o', bo_val o'))) q" if q: "q < ch_sz h"
  proof (cases "q = p")
    case True
    then show ?thesis
      using nf blob_at_in [OF str2, of o'] L2 by (simp add: entries_def slot)
  next
    case False
    have "\<forall>b \<in> set L. slot h q = vi_of b \<longrightarrow> b \<in> set L2"
    proof (intro ballI impI)
      fix b assume b: "b \<in> set L" "slot h q = vi_of b"
      have "\<not> free_vi (slot h q)"
        using b not_free_vi_of [OF inv] inv by (auto simp: hsh_inv_def str_inv_def)
      then have "slot h q \<noteq> slot h p" using inv q p False unfolding hsh_inv_def by blast
      then show "b \<in> set L2" using b L2 by simp
    qed
    then show ?thesis using False entries_kept [OF inv q _ str2] by (simp add: slot)
  qed
qed

lemma set_slot_del:
  assumes inv: "hsh_inv h F L" and p: "p < ch_sz h"
    and str2: "str_inv s2 F2 L2" and len: "length (cs_bls s2) = length (cs_bls (ch_cs h))"
    and bs: "cs_blockSize s2 = cs_blockSize (ch_cs h)"
    and L2: "set L2 = {b \<in> set L. vi_of b \<noteq> slot h p}"
  shows "hsh_inv (set_slot (h\<lparr>ch_cs := s2\<rparr>) p deleted_vi) F2 L2"
    and "q < ch_sz h \<Longrightarrow> entries (set_slot (h\<lparr>ch_cs := s2\<rparr>) p deleted_vi) L2 q =
      ((entries h L)(p := None)) q"
proof -
  let ?h = "set_slot (h\<lparr>ch_cs := s2\<rparr>) p deleted_vi"
  have wf: "hsh_wf h" using inv by (simp add: hsh_inv_def)
  have slot: "slot (set_slot h p deleted_vi) r = (if r = p then deleted_vi else slot h r)" for r
    using slot_set [OF wf p] by simp
  have kept: "b \<in> set L2" if "b \<in> set L" "slot h r = vi_of b" "r < ch_sz h" "r \<noteq> p" for r b
  proof -
    have "\<not> free_vi (slot h r)"
      using that not_free_vi_of [OF inv] inv by (auto simp: hsh_inv_def str_inv_def)
    then have "slot h r \<noteq> slot h p" using inv that p unfolding hsh_inv_def by blast
    then show ?thesis using that L2 by simp
  qed
  show "hsh_inv ?h F2 L2"
    unfolding hsh_inv_def
  proof (intro conjI)
    show "\<forall>r < ch_sz ?h. free_vi (slot ?h r) \<or> slot ?h r \<in> vi_of ` set L2"
      using inv_slot [OF inv] kept by (simp add: slot) blast
    show "\<forall>b \<in> set L2. \<exists>r < ch_sz ?h. slot ?h r = vi_of b"
    proof
      fix b assume "b \<in> set L2"
      then have b: "b \<in> set L" "vi_of b \<noteq> slot h p" using L2 by auto
      then obtain r where "r < ch_sz h" "slot h r = vi_of b"
        using inv by (auto simp: hsh_inv_def)
      then show "\<exists>r < ch_sz ?h. slot ?h r = vi_of b"
        using b by (intro exI [of _ r]) (auto simp: slot)
    qed
    show "\<forall>r < ch_sz ?h. \<forall>t < ch_sz ?h. slot ?h r = slot ?h t \<and> \<not> free_vi (slot ?h r) \<longrightarrow> r = t"
      using inv unfolding hsh_inv_def by (auto simp: slot)
    show "\<forall>b \<in> set L2. bo_hash b = HashBytes (bo_key b) \<and>
        length (bo_key b) mod unat (cs_blockSize (ch_cs ?h)) \<noteq> 0"
      using inv bs L2 unfolding hsh_inv_def by auto
  qed (use inv str2 len bs in \<open>auto simp: hsh_inv_def\<close>)
  show "entries ?h L2 q = ((entries h L)(p := None)) q" if q: "q < ch_sz h"
  proof (cases "q = p")
    case True
    then show ?thesis by (simp add: entries_def slot)
  next
    case False
    then show ?thesis using entries_kept [OF inv q _ str2, of ?h] kept [OF _ _ q] by (simp add: slot)
  qed
qed

lemma cmp_ok_grown:
  assumes inv: "hsh_inv h F L" and str2: "str_inv s2 F2 L2" and "set L \<subseteq> set L2"
    and "length key < 2 ^ 32"
  shows "cmp_ok (h\<lparr>ch_cs := s2\<rparr>) key (of_nat (length key)) (HashBytes key) (holds L2 key)"
  unfolding cmp_ok_def
proof (intro allI impI)
  fix p
  assume p: "p < ch_sz (h\<lparr>ch_cs := s2\<rparr>)" "\<not> free_vi (slot (h\<lparr>ch_cs := s2\<rparr>) p)"
  obtain o' where o: "o' \<in> set L" "slot h p = vi_of o'" using inv_slot [OF inv, of p] p by auto
  then have "bo_hash o' = HashBytes (bo_key o')" using inv by (simp add: hsh_inv_def)
  then show "str_compare (ch_cs (h\<lparr>ch_cs := s2\<rparr>)) (vi_idx (slot (h\<lparr>ch_cs := s2\<rparr>) p))
      (vi_version (slot (h\<lparr>ch_cs := s2\<rparr>) p)) key (of_nat (length key)) (HashBytes key) =
    Some (if holds L2 key (slot (h\<lparr>ch_cs := s2\<rparr>) p) then MATCH_TRUE else MATCH_FALSE,
      ch_cs (h\<lparr>ch_cs := s2\<rparr>))"
    using compare_slot [OF str2 _ assms(4), of o'] o assms(3) by auto
qed

lemma new_vi_fresh: "str_inv s F (o' # L) \<Longrightarrow> vi_of o' \<notin> vi_of ` set L"
proof
  assume inv: "str_inv s F (o' # L)" and "vi_of o' \<in> vi_of ` set L"
  then obtain b where b: "b \<in> set L" "vi_of b = vi_of o'" by auto
  then have "b = o'" using vi_of_inj [OF inv, of b o'] by simp
  with b inv show False
    using blob_head [OF str_inv_blob [OF inv, of o']] by (auto simp: str_inv_def)
qed

definition blocks_of :: "blob list \<Rightarrow> nat" where "blocks_of L = length (concat (map bo_chain L))"

text \<open>What an operation keeps: the size of the table and of a block, and the number of blocks.\<close>

definition shape :: "cncr_hsh \<Rightarrow> u32 \<times> u32 \<times> nat" where
  "shape h = (ch_sz h, cs_blockSize (ch_cs h), length (cs_bls (ch_cs h)))"

lemma hsh_put_entries:
  assumes inv: "hsh_inv h F L" and st: "storable (ch_cs h) F key val"
  shows "\<exists>h' F' L' p. hsh_put h key (of_nat (length key)) val (of_nat (length val)) = Some (True, h') \<and>
    hsh_inv h' F' L' \<and> shape h' = shape h \<and> cs_version (ch_cs h') = cs_version (ch_cs h) + 1 \<and>
    length F' + blocks_of L' = length F + blocks_of L \<and>
    length F - ceil_div (length key + length val) (unat (cs_blockSize (ch_cs h))) \<le> length F' \<and>
    find (\<lambda>p. entries h L p = None \<or> tbl_key (entries h L) p = Some key) (scan h (HashBytes key)) = Some p \<and>
    (\<forall>q < ch_sz h. entries h' L' q = ((entries h L)(p \<mapsto> (key, val))) q)"
proof -
  let ?s = "ch_cs h" and ?hash = "HashBytes key" and ?K = "length key" and ?V = "length val"
  let ?o = "new_blob ?s F ?hash key val" and ?n = "ceil_div (?K + ?V) (unat (cs_blockSize ?s))"
  let ?F1 = "drop ?n F"
  have wf: "hsh_wf h" and str: "str_inv ?s F L" using inv by (auto simp: hsh_inv_def)
  have K: "?K mod unat (cs_blockSize ?s) \<noteq> 0" "?K < 2 ^ 32" "key \<noteq> []" and n: "?n \<le> length F"
    using st by (auto simp: storable_def)
  have o: "bo_key ?o = key" "bo_val ?o = val" "bo_hash ?o = ?hash" "length (bo_chain ?o) = ?n"
    "vi_of ?o = \<lparr>vi_idx = bo_head ?o, vi_version = ucast (cs_version ?s)\<rparr>"
    using n by (simp_all add: new_blob_def vi_of_def VerIdx_def)
  obtain s1 s2 where alloc: "str_alloc ?s (of_nat ?K + of_nat ?V) (of_nat ?K) ?hash = Some (vi_of ?o, s1)"
    and put: "str_put s1 (bo_head ?o) key (of_nat ?K) val (of_nat ?V) = Some s2"
    and str2: "str_inv s2 ?F1 (?o # L)" and s2: "cs_version s2 = cs_version ?s + 1"
      "cs_blockSize s2 = cs_blockSize ?s" "length (cs_bls s2) = length (cs_bls ?s)"
    using store_blob [OF str st, of ?hash] unfolding o(5) by blast
  have nend: "bo_head ?o \<noteq> LIST_END"
    using not_LIST_END blob_bound [OF str_inv_blob [OF str2] blob_head [OF str_inv_blob [OF str2]], of ?o]
      s2(3) inv_blocks [OF inv] by auto
  define P where "P p \<longleftrightarrow> entries h L p = None \<or> tbl_key (entries h L) p = Some key" for p
  let ?h1 = "h\<lparr>ch_cs := s2\<rparr>"
  have P: "(free_vi (slot h p) \<or> holds (?o # L) key (slot h p)) = P p" if p: "p < ch_sz h" for p
  proof (cases "free_vi (slot h p)")
    case True
    then show ?thesis by (simp add: P_def entries_def)
  next
    case False
    have "holds (?o # L) key (slot h p) = holds L key (slot h p)"
      using inv_slot [OF inv p False] blob_at_in [OF str2] by (auto simp: holds_def)
    then show ?thesis using False entries_None [OF inv p] entries_key [OF False] by (auto simp: P_def)
  qed
  obtain p where p: "find P (scan h ?hash) = Some p"
  proof -
    obtain r where "r < ch_sz h" "free_vi (slot h r)"
      using free_slot_exists [OF inv str2 s2(3)] by blast
    then have "find P (scan h ?hash) \<noteq> None"
      using P [of r] scan_set [OF wf, of ?hash] by (auto simp: find_None_iff)
    then show ?thesis using that by blast
  qed
  then have psz: "p < ch_sz h" and Pp: "P p"
    using scan_set [OF wf, of ?hash] by (auto simp: find_Some_iff dest: nth_mem)
  have scan1: "scan ?h1 ?hash = scan h ?hash" by (simp add: scan_def)
  have "find (\<lambda>p. free_vi (slot ?h1 p) \<or> holds (?o # L) key (slot ?h1 p)) (scan h ?hash) = Some p"
    unfolding p [symmetric] using P scan_set [OF wf, of ?hash] by (intro find_cong') auto
  then have putH: "putHashed ?h1 ?hash (vi_of ?o) key (of_nat ?K) =
      Some (slot h p, set_slot ?h1 p (vi_of ?o))"
    using putHashed_find [of ?h1 key "of_nat ?K" ?hash "holds (?o # L) key"] wf scan1
      cmp_ok_grown [OF inv str2 _ K(2)] by auto
  have K1: "0 < (of_nat ?K :: u32)" and rd: "mem_rd key 0 (unat (of_nat ?K :: u32)) = Some key"
    using unat_length [OF K(2)] K(3) by (simp_all add: word_less_nat_alt mem_rd_def)
  have fresh: "vi_of ?o \<notin> vi_of ` set L" using str2 by (rule new_vi_fresh)
  show ?thesis
  proof (cases "free_vi (slot h p)")
    case True
    have L2: "set (?o # L) = insert ?o {b \<in> set L. vi_of b \<noteq> slot h p}"
    proof -
      have "vi_of b \<noteq> slot h p" if "b \<in> set L" for b
        using True not_free_vi_of [OF inv str_inv_blob [OF str that]] by auto
      then show ?thesis by auto
    qed
    note st2 = set_slot_put [OF inv psz str2 s2(3,2) L2 fresh]
    have "hsh_put h key (of_nat ?K) val (of_nat ?V) = Some (True, set_slot ?h1 p (vi_of ?o))"
      using K1 rd alloc put putH nend True leD [of DELETED "vi_idx (slot h p)"]
      by (simp add: hsh_put_def o(5) free_vi_def Let_def)
    moreover have "length ?F1 + blocks_of (?o # L) = length F + blocks_of L"
      using n o(4) by (simp add: blocks_of_def)
    ultimately show ?thesis
      using st2 o K p s2 unfolding P_def
      by (intro exI [of _ "set_slot ?h1 p (vi_of ?o)"] exI [of _ ?F1] exI [of _ "?o # L"] exI [of _ p])
        (simp add: shape_def)
  next
    case False
    obtain b where b: "b \<in> set L" "slot h p = vi_of b" using inv_slot [OF inv psz False] by blast
    obtain La Lb where L: "L = La @ b # Lb" using b(1) by (meson split_list)
    obtain s3 where free: "str_free s2 (vi_idx (slot h p)) (vi_version (slot h p)) = Some (False, s3)"
      and str3: "str_inv s3 (bo_chain b @ ?F1) ((?o # La) @ Lb)"
      and s3: "cs_version s3 = cs_version s2" "cs_blockSize s3 = cs_blockSize s2"
        "length (cs_bls s3) = length (cs_bls s2)"
      using str_free_blob [of s2 ?F1 "?o # La" b Lb] str2 L b(2) by (auto simp: vi_of_def)
    have L2: "set ((?o # La) @ Lb) = insert ?o {c \<in> set L. vi_of c \<noteq> slot h p}"
    proof -
      have "b \<notin> set (La @ Lb)"
        using str L blob_head [OF str_inv_blob [OF str b(1)]] by (auto simp: str_inv_def)
      moreover have "c \<in> set L \<Longrightarrow> vi_of c = vi_of b \<Longrightarrow> c = b" for c
        using vi_of_inj [OF str _ b(1)] by blast
      ultimately show ?thesis using L b(2) by auto
    qed
    note st2 = set_slot_put [OF inv psz str3 trans [OF s3(3) s2(3)] trans [OF s3(2) s2(2)] L2 fresh]
    have "hsh_put h key (of_nat ?K) val (of_nat ?V) =
        Some (True, set_slot (h\<lparr>ch_cs := s3\<rparr>) p (vi_of ?o))"
      using K1 rd alloc put putH nend False free by (simp add: hsh_put_def o(5) free_vi_def Let_def)
    moreover have "length (bo_chain b @ ?F1) + blocks_of ((?o # La) @ Lb) = length F + blocks_of L"
      using n o(4) L by (simp add: blocks_of_def)
    ultimately show ?thesis
      using st2 o K p s2 s3 unfolding P_def
      by (intro exI [of _ "set_slot (h\<lparr>ch_cs := s3\<rparr>) p (vi_of ?o)"] exI [of _ "bo_chain b @ ?F1"]
          exI [of _ "(?o # La) @ Lb"] exI [of _ p]) (simp add: shape_def)
  qed
qed

lemma shape_scan: "shape h' = shape h \<Longrightarrow> scan h' hash = scan h hash"
  by (simp add: shape_def scan_def)

lemma lookup_cong:
  assumes "hsh_wf h" and "shape h' = shape h"
    and "\<forall>q < ch_sz h. entries h' L' q = t q"
  shows "hsh_lookup h' L' k = tbl_get t (scan h (HashBytes k)) k"
  unfolding hsh_lookup_def shape_scan [OF assms(2)] using assms(1,3) scan_set [OF assms(1)]
  by (intro tbl_get_cong) auto

text \<open>Putting a key changes the map at that key and nowhere else.\<close>

lemma hsh_put_lookup:
  assumes inv: "hsh_inv h F L" and st: "storable (ch_cs h) F key val"
  shows "\<exists>h' F' L'. hsh_put h key (of_nat (length key)) val (of_nat (length val)) = Some (True, h') \<and>
    hsh_inv h' F' L' \<and> shape h' = shape h \<and> cs_version (ch_cs h') = cs_version (ch_cs h) + 1 \<and>
    length F' + blocks_of L' = length F + blocks_of L \<and>
    hsh_lookup h' L' = (hsh_lookup h L)(key \<mapsto> val)"
proof -
  obtain h' F' L' p where h': "hsh_put h key (of_nat (length key)) val (of_nat (length val)) = Some (True, h')"
    "hsh_inv h' F' L'" "shape h' = shape h" "cs_version (ch_cs h') = cs_version (ch_cs h) + 1"
    "length F' + blocks_of L' = length F + blocks_of L"
    and p: "find (\<lambda>p. entries h L p = None \<or> tbl_key (entries h L) p = Some key) (scan h (HashBytes key)) = Some p"
    and e: "\<forall>q < ch_sz h. entries h' L' q = ((entries h L)(p \<mapsto> (key, val))) q"
    using hsh_put_entries [OF assms] by blast
  have wf: "hsh_wf h" using inv by (simp add: hsh_inv_def)
  have Pp: "entries h L p = None \<or> tbl_key (entries h L) p = Some key"
    using p by (auto simp: find_Some_iff)
  have "hsh_lookup h' L' k = ((hsh_lookup h L)(key \<mapsto> val)) k" for k
    using lookup_cong [OF wf h'(3), of L' "(entries h L)(p \<mapsto> (key, val))" k] e tbl_get_put_same [OF p]
      tbl_get_put_other [OF Pp]
    by (cases "k = key") (simp_all add: hsh_lookup_def [of h L] fun_upd_same fun_upd_other del: fun_upd_apply)
  then show ?thesis using h' by blast
qed

text \<open>A full store refuses the value and is unchanged.\<close>

lemma hsh_put_full:
  assumes "hsh_inv h [] L" and "key \<noteq> []" and "length key < 2 ^ 32"
  shows "hsh_put h key (of_nat (length key)) val vlen = Some (False, h)"
  using assms str_alloc_empty [of "ch_cs h" L] unat_length [OF assms(3)]
  by (simp add: hsh_put_def hsh_inv_def word_less_nat_alt mem_rd_def List_End_def)

section \<open>Getting and measuring\<close>

lemma hsh_lookup_cases:
  assumes inv: "hsh_inv h F L"
  obtains (none) "find (\<lambda>p. \<not> free_vi (slot h p) \<and> holds L key (slot h p)) (scan h (HashBytes key)) = None"
      "hsh_lookup h L key = None"
    | (some) p o' where "find (\<lambda>p. \<not> free_vi (slot h p) \<and> holds L key (slot h p)) (scan h (HashBytes key)) = Some p"
      "o' \<in> set L" "slot h p = vi_of o'" "bo_key o' = key" "hsh_lookup h L key = Some (bo_val o')"
proof (cases "find (\<lambda>p. tbl_key (entries h L) p = Some key) (scan h (HashBytes key))")
  case None
  show ?thesis
    by (rule none) (use None in \<open>simp_all add: scan_key [OF inv] hsh_lookup_def tbl_get_find\<close>)
next
  case (Some p)
  have wf: "hsh_wf h" using inv by (simp add: hsh_inv_def)
  from Some have "p < ch_sz h" and key: "tbl_key (entries h L) p = Some key"
    using scan_set [OF wf] by (auto simp: find_Some_iff dest: nth_mem)
  moreover have nf: "\<not> free_vi (slot h p)" using key by (auto simp: tbl_key_def entries_def)
  ultimately obtain o' where o: "o' \<in> set L" "slot h p = vi_of o'" "blob_at L (slot h p) = Some o'"
    using inv_slot [OF inv] by blast
  then have "entries h L p = Some (bo_key o', bo_val o')" using nf by (simp add: entries_def)
  then show ?thesis
    using Some o key
    by (intro some [of p o']) (auto simp: scan_key [OF inv] hsh_lookup_def tbl_get_find tbl_key_def)
qed

lemma key_args: "key \<noteq> [] \<Longrightarrow> length key < 2 ^ 32 \<Longrightarrow>
  \<not> (of_nat (length key) :: u32) < 1 \<and> mem_rd key 0 (unat (of_nat (length key) :: u32)) = Some key"
  using unat_length [of key] by (cases key) (simp_all add: word_less_nat_alt mem_rd_def)

lemma str_len_blob: "blob_ok s o' \<Longrightarrow>
  str_len s (bo_head o') (bo_ver o') = Some (of_nat (bo_size o'), Some (of_nat (length (bo_val o'))))"
proof -
  assume ok: "blob_ok s o'"
  let ?b = "cs_bls s ! unat (bo_head o')"
  have h: "unat (bo_head o') < length (cs_bls s)" using blob_bound [OF ok blob_head [OF ok]] .
  have f: "bl_version ?b = bo_ver o'" "bl_len ?b \<noteq> 0" "unat (bl_len ?b) = bo_size o'"
    "unat (bl_klen ?b) = length (bo_key o')"
    using ok blob_head [OF ok] by (auto simp: blob_ok_def rec_ok_def head_ok_def Let_def)
  have "bl_len ?b = of_nat (unat (bl_len ?b))" and "bl_klen ?b = of_nat (unat (bl_klen ?b))" by simp_all
  then have l: "bl_len ?b = of_nat (bo_size o')" and "bl_klen ?b = of_nat (length (bo_key o'))"
    unfolding f by blast+
  moreover from this have "bl_len ?b - bl_klen ?b = of_nat (length (bo_val o'))"
    by (simp add: bo_size_def)
  ultimately show ?thesis
    using h f by (simp add: str_len_def arr_simps word_gt_0 bo_size_def)
qed

lemma hsh_len_lookup:
  assumes inv: "hsh_inv h F L" and key: "key \<noteq> []" "length key < 2 ^ 32"
  shows "case hsh_lookup h L key of
      None \<Rightarrow> hsh_len h key (of_nat (length key)) = Some (0, None, None, h)
    | Some v \<Rightarrow> \<exists>ver. hsh_len h key (of_nat (length key)) =
        Some (of_nat (length key + length v), Some (of_nat (length v)), Some ver, h)"
proof -
  have wf: "hsh_wf h" and str: "str_inv (ch_cs h) F L" using inv by (auto simp: hsh_inv_def)
  note run = hsh_len_find [OF wf inv_cmp_ok [OF inv key(2)]]
  show ?thesis
  proof (cases rule: hsh_lookup_cases [OF inv, of key])
    case 1
    then show ?thesis using run key_args [OF key] by (simp add: hsh_len_def Let_def)
  next
    case (2 p o')
    have ok: "blob_ok (ch_cs h) o'" using str 2(2) by (rule str_inv_blob)
    have "unat (of_nat (bo_size o') :: u32) = bo_size o'"
      using ok by (intro unat_of_nat_u32) (simp add: blob_ok_def)
    then have "ucast (of_nat (bo_size o') :: u32) = (of_nat (length key + length (bo_val o')) :: u64)"
      using of_nat_unat [of "of_nat (bo_size o') :: u32", where 'a = u64] 2(4) by (simp add: bo_size_def)
    then show ?thesis using 2 run key_args [OF key] str_len_blob [OF ok]
      by (simp add: hsh_len_def Let_def) (simp add: vi_of_def)
  qed
qed

text \<open>\<open>get\<close> finds exactly the keys of the map, and a buffer that is large enough starts with the value.\<close>

lemma hsh_get_lookup:
  assumes inv: "hsh_inv h F L" and key: "key \<noteq> []" "length key < 2 ^ 32"
    and "unat vlen \<le> length out"
  shows "case hsh_lookup h L key of
      None \<Rightarrow> hsh_get h key (of_nat (length key)) out vlen = Some (False, out, None, h)
    | Some v \<Rightarrow> length v \<le> unat vlen \<longrightarrow> (\<exists>n out'. hsh_get h key (of_nat (length key)) out vlen =
        Some (True, out', Some n, h) \<and> take (length v) out' = v \<and> length out' = length out \<and>
        length v \<le> unat n \<and> unat n \<le> unat vlen)"
proof -
  have wf: "hsh_wf h" and str: "str_inv (ch_cs h) F L" using inv by (auto simp: hsh_inv_def)
  note run = runMatch_find [OF wf inv_cmp_ok [OF inv key(2)]]
  show ?thesis
  proof (cases rule: hsh_lookup_cases [OF inv, of key])
    case 1
    then show ?thesis using key_args [OF key] by (simp add: hsh_get_def Let_def run)
  next
    case (2 p o')
    have ok: "blob_ok (ch_cs h) o'" using str 2(2) by (rule str_inv_blob)
    show ?thesis
    proof (cases "length (bo_val o') \<le> unat vlen")
      case True
      obtain n out' where "str_get (ch_cs h) (bo_head o') (bo_ver o') out vlen = Some (n, out', Some n, ch_cs h)"
        "take (length (bo_val o')) out' = bo_val o'" "length out' = length out"
        "length (bo_val o') \<le> unat n" "unat n \<le> unat vlen"
        using get_value [OF _ ok True assms(4)] str by (auto simp: str_inv_def)
      then show ?thesis using 2 key_args [OF key]
        by (simp add: hsh_get_def Let_def run) (simp add: vi_of_def)
    qed (simp add: 2)
  qed
qed

section \<open>Deleting\<close>

lemma scan_key_butlast:
  assumes "hsh_inv h F L"
  shows "find (\<lambda>p. \<not> free_vi (slot h p) \<and> holds L key (slot h p)) (butlast (scan h hash)) =
    find (\<lambda>p. tbl_key (entries h L) p = Some key) (butlast (scan h hash))"
proof (rule find_cong')
  fix p
  show "(\<not> free_vi (slot h p) \<and> holds L key (slot h p)) = (tbl_key (entries h L) p = Some key)"
    by (cases "free_vi (slot h p)") (simp_all add: entries_key, simp add: entries_def tbl_key_def)
qed

text \<open>\<open>del\<close> frees the first blob of the key, in every slot of the order but the last.\<close>

lemma hsh_del_entries:
  assumes inv: "hsh_inv h F L" and key: "key \<noteq> []" "length key < 2 ^ 32"
  shows "case find (\<lambda>p. tbl_key (entries h L) p = Some key) (butlast (scan h (HashBytes key))) of
      None \<Rightarrow> hsh_del h key (of_nat (length key)) = Some (False, h)
    | Some p \<Rightarrow> \<exists>h' F' L'. hsh_del h key (of_nat (length key)) = Some (True, h') \<and>
        hsh_inv h' F' L' \<and> shape h' = shape h \<and> cs_version (ch_cs h') = cs_version (ch_cs h) \<and>
        length F' + blocks_of L' = length F + blocks_of L \<and> length F \<le> length F' \<and>
        (\<forall>q < ch_sz h. entries h' L' q = ((entries h L)(p := None)) q)"
proof -
  have wf: "hsh_wf h" and str: "str_inv (ch_cs h) F L" using inv by (auto simp: hsh_inv_def)
  note run = delHashed_find [OF wf inv_cmp_ok [OF inv key(2)], unfolded scan_key_butlast [OF inv]]
  let ?f = "find (\<lambda>p. tbl_key (entries h L) p = Some key) (butlast (scan h (HashBytes key)))"
  show ?thesis
  proof (cases ?f)
    case None
    then show ?thesis
      using run key_args [OF key] by (simp add: hsh_del_def Let_def empty_vi_def DELETED_def EMPTY_def)
  next
    case (Some p)
    have "p \<in> set (scan h (HashBytes key))"
      using Some by (auto simp: find_Some_iff dest!: nth_mem intro: in_set_butlastD)
    then have p: "p < ch_sz h" using scan_set [OF wf] by auto
    have pk: "tbl_key (entries h L) p = Some key" using Some by (auto simp: find_Some_iff)
    then have nf: "\<not> free_vi (slot h p)" by (auto simp: tbl_key_def entries_def)
    obtain b where b: "b \<in> set L" "slot h p = vi_of b" using inv_slot [OF inv p nf] by blast
    obtain La Lb where L: "L = La @ b # Lb" using b(1) by (meson split_list)
    obtain s3 where free: "str_free (ch_cs h) (vi_idx (slot h p)) (vi_version (slot h p)) = Some (False, s3)"
      and str3: "str_inv s3 (bo_chain b @ F) (La @ Lb)"
      and s3: "cs_version s3 = cs_version (ch_cs h)" "cs_blockSize s3 = cs_blockSize (ch_cs h)"
        "length (cs_bls s3) = length (cs_bls (ch_cs h))"
      using str_free_blob [of "ch_cs h" F La b Lb] str L b(2) by (auto simp: vi_of_def)
    have L2: "set (La @ Lb) = {c \<in> set L. vi_of c \<noteq> slot h p}"
    proof -
      have "b \<notin> set (La @ Lb)"
        using str L blob_head [OF str_inv_blob [OF str b(1)]] by (auto simp: str_inv_def)
      moreover have "c \<in> set L \<Longrightarrow> vi_of c = vi_of b \<Longrightarrow> c = b" for c
        using vi_of_inj [OF str _ b(1)] by blast
      ultimately show ?thesis using L b(2) by auto
    qed
    note st2 = set_slot_del [OF inv p str3 s3(3,2) L2]
    have "hsh_del h key (of_nat (length key)) = Some (True, set_slot (h\<lparr>ch_cs := s3\<rparr>) p deleted_vi)"
      using run Some nf free key_args [OF key] by (simp add: hsh_del_def free_vi_def Let_def)
    moreover have "length (bo_chain b @ F) + blocks_of (La @ Lb) = length F + blocks_of L"
      using L by (simp add: blocks_of_def)
    ultimately show ?thesis using Some st2 s3
      by (simp del: fun_upd_apply, intro exI [of _ "set_slot (h\<lparr>ch_cs := s3\<rparr>) p deleted_vi"]
          exI [of _ "bo_chain b @ F"] exI [of _ "La @ Lb"]) (simp add: shape_def)
  qed
qed

text \<open>The key is in one slot at most, and not in the last one of its order.\<close>

definition once :: "cncr_hsh \<Rightarrow> blob list \<Rightarrow> bytes \<Rightarrow> bool" where
  "once h L key \<longleftrightarrow> (\<forall>p < ch_sz h. \<forall>q < ch_sz h. tbl_key (entries h L) p = Some key \<longrightarrow>
      tbl_key (entries h L) q = Some key \<longrightarrow> p = q) \<and>
    tbl_key (entries h L) (last (scan h (HashBytes key))) \<noteq> Some key"

lemma find_butlast: "xs \<noteq> [] \<Longrightarrow> \<not> P (last xs) \<Longrightarrow> find P (butlast xs) = find P xs"
  by (induction xs) auto

lemma hsh_del_lookup:
  assumes inv: "hsh_inv h F L" and key: "key \<noteq> []" "length key < 2 ^ 32" and once: "once h L key"
  shows "\<exists>h' F' L'. hsh_del h key (of_nat (length key)) = Some (hsh_lookup h L key \<noteq> None, h') \<and>
    hsh_inv h' F' L' \<and> shape h' = shape h \<and> cs_version (ch_cs h') = cs_version (ch_cs h) \<and>
    length F' + blocks_of L' = length F + blocks_of L \<and>
    (\<forall>q < ch_sz h. entries h' L' q =
      (if tbl_key (entries h L) q = Some key then None else entries h L q)) \<and>
    hsh_lookup h' L' = (hsh_lookup h L)(key := None)"
proof -
  let ?e = "entries h L" and ?scan = "scan h (HashBytes key)"
  have wf: "hsh_wf h" using inv by (simp add: hsh_inv_def)
  have ne: "?scan \<noteq> []" using scan_set [OF wf, of "HashBytes key"] home_less [OF wf] by auto
  have bl: "find (\<lambda>p. tbl_key ?e p = Some key) (butlast ?scan) =
      find (\<lambda>p. tbl_key ?e p = Some key) ?scan"
    using once by (intro find_butlast ne) (simp add: once_def)
  show ?thesis
  proof (cases "find (\<lambda>p. tbl_key ?e p = Some key) ?scan")
    case None
    then have "hsh_lookup h L key = None" by (simp add: hsh_lookup_def tbl_get_find)
    moreover have "\<forall>q < ch_sz h. tbl_key ?e q \<noteq> Some key"
      using None scan_set [OF wf] by (auto simp: find_None_iff)
    moreover have "hsh_del h key (of_nat (length key)) = Some (False, h)"
      using hsh_del_entries [OF inv key] None bl by simp
    ultimately show ?thesis using inv
      by (intro exI [of _ h] exI [of _ F] exI [of _ L]) (auto simp: fun_eq_iff)
  next
    case (Some p)
    then have p: "p < ch_sz h" "tbl_key ?e p = Some key"
      using scan_set [OF wf] by (auto simp: find_Some_iff dest: nth_mem)
    then have uniq: "q < ch_sz h \<Longrightarrow> tbl_key ?e q = Some key \<longleftrightarrow> q = p" for q
      using once by (auto simp: once_def)
    obtain h' F' L' where h': "hsh_del h key (of_nat (length key)) = Some (True, h')"
        "hsh_inv h' F' L'" "shape h' = shape h" "cs_version (ch_cs h') = cs_version (ch_cs h)"
        "length F' + blocks_of L' = length F + blocks_of L"
      and e: "\<forall>q < ch_sz h. entries h' L' q = (?e(p := None)) q"
      using hsh_del_entries [OF inv key] Some bl by auto
    have "hsh_lookup h' L' k = ((hsh_lookup h L)(key := None)) k" for k
    proof (cases "k = key")
      case True
      have "tbl_get (?e(p := None)) (scan h (HashBytes key)) key = None"
        using uniq scan_set [OF wf] by (intro tbl_get_del_same) auto
      then show ?thesis unfolding lookup_cong [OF wf h'(3) e] True by simp
    next
      case False
      then show ?thesis
        unfolding lookup_cong [OF wf h'(3) e] tbl_get_del_other [OF p(2) False]
        by (simp add: hsh_lookup_def)
    qed
    moreover have "hsh_lookup h L key \<noteq> None"
      using Some p(2) by (auto simp: hsh_lookup_def tbl_get_find tbl_key_def)
    ultimately show ?thesis using h' e uniq
      by (intro exI [of _ h'] exI [of _ F'] exI [of _ L']) (auto simp: fun_eq_iff)
  qed
qed

section \<open>A new table\<close>

lemma hsh_init_inv:
  assumes str: "str_inv cs F []" and "1 < unat (cs_blockSize cs)" and sz: "unat sz = length (cs_bls cs)"
    and "unat sz \<le> length mem"
  shows "\<exists>h. hsh_init sz mem cs = Some h \<and> hsh_inv h F [] \<and> ch_cs h = cs \<and> ch_sz h = sz \<and>
    (\<forall>p < sz. entries h [] p = None) \<and> hsh_lookup h [] = Map.empty"
proof -
  have wf: "str_wf cs" using str by (simp add: str_inv_def)
  have "unat sz * 2 \<le> unat sz * unat (cs_blockSize cs)" using assms(2) by (intro mult_le_mono2) simp
  also have "\<dots> < 2 ^ 32" using wf sz by (simp add: str_wf_def)
  finally have small: "unat sz + 2 < 2 ^ 32" by simp
  have "0 < unat sz" using wf sz by (simp add: str_wf_def)
  then obtain h where h: "hsh_init sz mem cs = Some h" "hsh_wf h" "ch_sz h = sz" "ch_cs h = cs"
    "\<forall>p < sz. slot h p = empty_vi"
    using hsh_init_ok [OF _ small assms(4)] by blast
  then have e: "\<forall>p < sz. entries h [] p = None" by (simp add: entries_def)
  have "hsh_lookup h [] k = None" for k
  proof -
    have "hsh_lookup h [] k = tbl_get (\<lambda>_. None) (scan h (HashBytes k)) k"
      unfolding hsh_lookup_def using e h(2,3) scan_set [OF h(2)] by (intro tbl_get_cong) auto
    moreover have "tbl_get (\<lambda>_. None) ps k = None" for ps by (induction ps) auto
    ultimately show ?thesis by simp
  qed
  then have "hsh_lookup h [] = Map.empty" by (simp add: fun_eq_iff)
  moreover have "hsh_inv h F []"
    using h str assms(2) sz by (simp add: hsh_inv_def)
  ultimately show ?thesis using h e by blast
qed

end
