(* ===== verification/Kv_Store.thy ===== *)
theory Kv_Store
  imports Prelude
begin

text \<open>
  The interface between the shared-memory database and its clients: a store from keys to byte strings, with what each operation promises as a refinement of a map. The transactors'
  lemmas are proved inside the locale; the database is shown to satisfy it in \<open>Simdb\<close>.
\<close>

section \<open>Runs of operations\<close>

text \<open>What a client asks of a store and what it hears, with the run of a list of requests on a store given
  by its operations and on a map.\<close>

datatype kv_op = Op_put bytes bytes | Op_get bytes | Op_del bytes

datatype kv_res = Res_done bool | Res_value bytes

fun kv_step :: "('s \<Rightarrow> bytes \<Rightarrow> bytes \<Rightarrow> (bool \<times> 's) option) \<Rightarrow> ('s \<Rightarrow> bytes \<Rightarrow> (bytes \<times> 's) option) \<Rightarrow>
    ('s \<Rightarrow> bytes \<Rightarrow> (bool \<times> 's) option) \<Rightarrow> 's \<Rightarrow> kv_op \<Rightarrow> (kv_res \<times> 's) option" where
  "kv_step put get del s (Op_put k v) = do { (b, s) \<leftarrow> put s k v; Some (Res_done b, s) }"
| "kv_step put get del s (Op_get k) = do { (x, s) \<leftarrow> get s k; Some (Res_value x, s) }"
| "kv_step put get del s (Op_del k) = do { (b, s) \<leftarrow> del s k; Some (Res_done b, s) }"

fun kv_run :: "('s \<Rightarrow> bytes \<Rightarrow> bytes \<Rightarrow> (bool \<times> 's) option) \<Rightarrow> ('s \<Rightarrow> bytes \<Rightarrow> (bytes \<times> 's) option) \<Rightarrow>
    ('s \<Rightarrow> bytes \<Rightarrow> (bool \<times> 's) option) \<Rightarrow> 's \<Rightarrow> kv_op list \<Rightarrow> (kv_res list \<times> 's) option" where
  "kv_run put get del s [] = Some ([], s)"
| "kv_run put get del s (c # cs) = do {
     (r, s) \<leftarrow> kv_step put get del s c;
     (rs, s) \<leftarrow> kv_run put get del s cs;
     Some (r # rs, s)
   }"

fun map_step :: "(bytes \<Rightarrow> bytes option) \<Rightarrow> kv_op \<Rightarrow> kv_res \<times> (bytes \<Rightarrow> bytes option)" where
  "map_step m (Op_put k v) = (Res_done True, m(k \<mapsto> v))"
| "map_step m (Op_get k) = (Res_value (case m k of None \<Rightarrow> [] | Some v \<Rightarrow> v), m)"
| "map_step m (Op_del k) = (Res_done (m k \<noteq> None), m(k := None))"

fun map_run :: "(bytes \<Rightarrow> bytes option) \<Rightarrow> kv_op list \<Rightarrow> kv_res list \<times> (bytes \<Rightarrow> bytes option)" where
  "map_run m [] = ([], m)"
| "map_run m (c # cs) =
     (let (r, m) = map_step m c; (rs, m) = map_run m cs in (r # rs, m))"

fun op_fits :: "(bytes \<Rightarrow> bool) \<Rightarrow> (bytes \<Rightarrow> bytes \<Rightarrow> bool) \<Rightarrow> kv_op \<Rightarrow> bool" where
  "op_fits key_ok fits (Op_put k v) = fits k v"
| "op_fits key_ok fits (Op_get k) = key_ok k"
| "op_fits key_ok fits (Op_del k) = key_ok k"

fun op_puts :: "kv_op \<Rightarrow> nat" where
  "op_puts (Op_put _ _) = 1"
| "op_puts (Op_get _) = 0"
| "op_puts (Op_del _) = 0"

section \<open>The contract\<close>

text \<open>\<open>rep s m n\<close>: the state \<open>s\<close> stands for the map \<open>m\<close>, and \<open>n\<close> more values can be put. \<open>key_ok\<close> says
  which keys may be used, \<open>fits\<close> which values may be stored under a key. \<open>get\<close> returns a buffer that
  starts with the value, or the empty one when the key is not there; \<open>del\<close> says whether it was.\<close>

locale kv_store =
  fixes rep :: "'s \<Rightarrow> (bytes \<Rightarrow> bytes option) \<Rightarrow> nat \<Rightarrow> bool"
    and key_ok :: "bytes \<Rightarrow> bool"
    and fits :: "bytes \<Rightarrow> bytes \<Rightarrow> bool"
    and put :: "'s \<Rightarrow> bytes \<Rightarrow> bytes \<Rightarrow> (bool \<times> 's) option"
    and get :: "'s \<Rightarrow> bytes \<Rightarrow> (bytes \<times> 's) option"
    and del :: "'s \<Rightarrow> bytes \<Rightarrow> (bool \<times> 's) option"
  assumes fits_key: "fits k v \<Longrightarrow> key_ok k \<and> v \<noteq> []"
    and put_ok: "rep s m (Suc n) \<Longrightarrow> fits k v \<Longrightarrow> \<exists>s'. put s k v = Some (True, s') \<and> rep s' (m(k \<mapsto> v)) n"
    and get_ok: "rep s m n \<Longrightarrow> key_ok k \<Longrightarrow> \<exists>x. get s k = Some (x, s) \<and>
      (case m k of None \<Rightarrow> x = [] | Some v \<Rightarrow> v \<noteq> [] \<and> take (length v) x = v)"
    and del_ok: "rep s m n \<Longrightarrow> key_ok k \<Longrightarrow> \<exists>s'. del s k = Some (m k \<noteq> None, s') \<and> rep s' (m(k := None)) n"
begin

lemma get_empty_iff: "rep s m n \<Longrightarrow> key_ok k \<Longrightarrow> \<exists>x. get s k = Some (x, s) \<and> (x = [] \<longleftrightarrow> m k = None)"
  using get_ok [of s m n k] by (cases "m k") auto

lemma get_Some: "rep s m n \<Longrightarrow> key_ok k \<Longrightarrow> m k = Some v \<Longrightarrow> \<exists>x. get s k = Some (x, s) \<and> x \<noteq> [] \<and> take (length v) x = v"
  using get_ok [of s m n k] by (fastforce split: option.splits)

lemma get_None: "rep s m n \<Longrightarrow> key_ok k \<Longrightarrow> m k = None \<Longrightarrow> get s k = Some ([], s)"
  using get_ok [of s m n k] by auto

lemma get_put_same: "rep s m (Suc n) \<Longrightarrow> fits k v \<Longrightarrow>
  \<exists>s' x. put s k v = Some (True, s') \<and> get s' k = Some (x, s') \<and> take (length v) x = v"
  using put_ok [of s m n k v] fits_key [of k v] get_ok [of _ "m(k \<mapsto> v)" n k] by fastforce

lemma get_del_same: "rep s m n \<Longrightarrow> key_ok k \<Longrightarrow>
  \<exists>b s'. del s k = Some (b, s') \<and> get s' k = Some ([], s')"
  using del_ok [of s m n k] get_ok [of _ "m(k := None)" n k] by fastforce

text \<open>Deleting when there is something, the way the transactors clean up before they put.\<close>

lemma del_if_ok:
  assumes "rep s m n" and "key_ok k"
  shows "\<exists>x s'. get s k = Some (x, s) \<and>
    (if x \<noteq> [] then del s k else Some (False, s)) = Some (m k \<noteq> None, s') \<and> rep s' (m(k := None)) n"
proof -
  obtain x where x: "get s k = Some (x, s)" "x = [] \<longleftrightarrow> m k = None"
    using get_empty_iff [OF assms] by (elim exE conjE)
  show ?thesis
  proof (cases "m k")
    case None
    then have "m(k := None) = m" by (simp add: fun_upd_idem)
    with None x assms(1) show ?thesis by auto
  next
    case (Some v)
    with x del_ok [OF assms] show ?thesis by auto
  qed
qed

end

text \<open>A store whose \<open>get\<close> returns exactly the value: a run of requests gives the same results as the
  run on the map.\<close>

locale kv_map = kv_store +
  assumes get_exact: "rep s m n \<Longrightarrow> key_ok k \<Longrightarrow> get s k = Some (case m k of None \<Rightarrow> [] | Some v \<Rightarrow> v, s)"
begin

lemma step_ok:
  assumes "rep s m (op_puts c + n)" and "op_fits key_ok fits c"
  shows "\<exists>s'. kv_step put get del s c = Some (fst (map_step m c), s') \<and> rep s' (snd (map_step m c)) n"
  using assms put_ok [of s m n] get_exact [of s m n] del_ok [of s m n]
  by (cases c) (fastforce split: option.splits)+

lemma run_ok:
  assumes "rep s m (sum_list (map op_puts cs) + n)" and "list_all (op_fits key_ok fits) cs"
  shows "\<exists>s'. kv_run put get del s cs = Some (fst (map_run m cs), s') \<and> rep s' (snd (map_run m cs)) n"
  using assms
proof (induction cs arbitrary: s m)
  case Nil
  then show ?case by simp
next
  case (Cons c cs)
  from Cons.prems step_ok [of s m c "sum_list (map op_puts cs) + n"]
  obtain s1 where 1: "kv_step put get del s c = Some (fst (map_step m c), s1)"
    "rep s1 (snd (map_step m c)) (sum_list (map op_puts cs) + n)" by (auto simp: add.assoc)
  with Cons.IH [OF 1(2)] Cons.prems(2) show ?case by (auto simp: Let_def split: prod.splits)
qed

end

end
