(* ===== verification/Simdb.thy ===== *)
theory Simdb
  imports Shm_Db Kv_Store
begin

text \<open>
  The class \<open>simdb\<close> of \<open>shm_lib/simdb.hpp\<close>: the database over the hash table and the block store, with
  the operations on strings and vectors that the transactors use. A \<open>std::string\<close> or a
  \<open>std::vector\<close> is the list of its bytes.
\<close>

section \<open>State and operations\<close>

record simdb =
  sd_ch :: cncr_hsh
  sd_nxtChIdx :: u32
  sd_blkCnt :: u64

definition u32len :: "bytes \<Rightarrow> u32" where "u32len k = of_nat (length k)"

definition sd_len :: "simdb \<Rightarrow> bytes \<Rightarrow> (u64 \<times> u32 option \<times> u32 option \<times> simdb) option" where
  "sd_len db key = do {
     (l, vlen, ver, ch) \<leftarrow> hsh_len (sd_ch db) key (u32len key);
     Some (l, vlen, ver, db\<lparr>sd_ch := ch\<rparr>)
   }"

definition sd_put :: "simdb \<Rightarrow> bytes \<Rightarrow> bytes \<Rightarrow> (bool \<times> simdb) option" where
  "sd_put db key value = do {
     (ok, ch) \<leftarrow> hsh_put (sd_ch db) key (u32len key) value (u32len value);
     Some (ok, db\<lparr>sd_ch := ch\<rparr>)
   }"

definition sd_del :: "simdb \<Rightarrow> bytes \<Rightarrow> (bool \<times> simdb) option" where
  "sd_del db key = do {
     (ok, ch) \<leftarrow> hsh_del (sd_ch db) key (u32len key);
     Some (ok, db\<lparr>sd_ch := ch\<rparr>)
   }"

text \<open>\<open>get(key, &out)\<close> and \<open>get(key)\<close> on strings.\<close>

definition sd_get_out :: "simdb \<Rightarrow> bytes \<Rightarrow> (bool \<times> bytes \<times> simdb) option" where
  "sd_get_out db key = do {
     (_, vlen, _, db) \<leftarrow> sd_len db key;
     let vlen = (case vlen of None \<Rightarrow> 0 | Some n \<Rightarrow> n);
     (ok, out, _, ch) \<leftarrow> hsh_get (sd_ch db) key (u32len key) (replicate (unat vlen) 0) vlen;
     Some (ok, out, db\<lparr>sd_ch := ch\<rparr>)
   }"

definition sd_get_str :: "simdb \<Rightarrow> bytes \<Rightarrow> (bytes \<times> simdb) option" where
  "sd_get_str db key = do {
     (ok, out, db) \<leftarrow> sd_get_out db key;
     Some (if ok then out else [], db)
   }"

text \<open>\<open>get<T>\<close> on vectors of elements of \<open>tsize\<close> bytes: the vector has \<open>vlen\<close> elements, of which the
  first \<open>vlen\<close> bytes are read.\<close>

definition sd_get_vec :: "nat \<Rightarrow> simdb \<Rightarrow> bytes \<Rightarrow> (bytes \<times> simdb) option" where
  "sd_get_vec tsize db key = do {
     (_, vlen, _, db) \<leftarrow> sd_len db key;
     let vlen = (case vlen of None \<Rightarrow> 0 | Some n \<Rightarrow> n);
     if vlen = 0 then Some ([], db)
     else do {
       (_, out, _, ch) \<leftarrow> hsh_get (sd_ch db) key (u32len key) (replicate (unat vlen * tsize) 0) vlen;
       Some (out, db\<lparr>sd_ch := ch\<rparr>)
     }
   }"

text \<open>Going through the slots: \<open>nxt\<close> returns the next slot in use and moves \<open>m_nxtChIdx\<close> past it.\<close>

definition sd_nxt :: "simdb \<Rightarrow> (ver_idx \<times> simdb) option" where
  "sd_nxt db = do {
     chNxt \<leftarrow> hsh_nxt (sd_ch db) (sd_nxtChIdx db);
     if chNxt \<noteq> SLOT_END then do {
       ret \<leftarrow> hsh_at (sd_ch db) chNxt;
       Some (ret, db\<lparr>sd_nxtChIdx := ucast ((ucast (chNxt + 1) :: u64) mod sd_blkCnt db)\<rparr>)
     } else Some (empty_vi, db\<lparr>sd_nxtChIdx := ucast ((ucast (sd_nxtChIdx db + 1) :: u64) mod sd_blkCnt db)\<rparr>)
   }"

definition sd_getKey :: "simdb \<Rightarrow> u32 \<Rightarrow> u32 \<Rightarrow> bytes \<Rightarrow> u32 \<Rightarrow> (bool \<times> bytes \<times> simdb) option" where
  "sd_getKey db i version out klen =
     (if klen < 1 then Some (False, out, db)
      else do {
        vi \<leftarrow> load (sd_ch db) i;
        if DELETED \<le> vi_idx vi \<or> vi_version vi \<noteq> version then Some (False, out, db)
        else do {
          (l, out, cs) \<leftarrow> str_getKey (ch_cs (sd_ch db)) (vi_idx vi) (vi_version vi) out klen;
          Some (\<not> l < 1, out, db\<lparr>sd_ch := (sd_ch db)\<lparr>ch_cs := cs\<rparr>\<rparr>)
        }
      })"

text \<open>\<open>len(idx, version, &klen, &vlen)\<close>: the total length, and the two lengths when written.\<close>

definition sd_len_at :: "simdb \<Rightarrow> u32 \<Rightarrow> u32 \<Rightarrow> (u64 \<times> u32 option \<times> u32 option) option" where
  "sd_len_at db i version = do {
     vi \<leftarrow> load (sd_ch db) i;
     if DELETED \<le> vi_idx vi \<or> vi_version vi \<noteq> version then Some (0, None, None)
     else do {
       (total_len, vlen) \<leftarrow> str_len (ch_cs (sd_ch db)) (vi_idx vi) (vi_version vi);
       (case vlen of
          Some v \<Rightarrow> Some (if total_len > 0 then (ucast total_len, Some (total_len - v), vlen)
                         else (0, None, vlen))
        | None \<Rightarrow> Some (0, None, None))
     }
   }"

text \<open>\<open>nxtKey\<close>: the version and key of the next slot in use, and how many slots were searched. The
  distance is computed on 64-bit values.\<close>

definition sd_nxtKey :: "simdb \<Rightarrow> ((u32 \<times> bytes) \<times> u64 \<times> simdb) option" where
  "sd_nxtKey db = do {
     let prev = (ucast (sd_nxtChIdx db) :: u64);
     (viNxt, db) \<leftarrow> sd_nxt db;
     let inxt = (ucast (sd_nxtChIdx db) :: u64);
     let cur = prevIdx (sd_ch db) (ucast inxt);
     let searched = (if 0 < sint (inxt - prev - 1) then inxt - prev - 1 else (sd_blkCnt db - prev) + inxt);
     if DELETED \<le> vi_idx viNxt then Some ((vi_version viNxt, []), searched, db)
     else do {
       (total_len, klen, _) \<leftarrow> sd_len_at db cur (vi_version viNxt);
       (case klen of
          Some klen \<Rightarrow>
            if total_len = 0 then Some ((vi_version viNxt, []), searched, db)
            else do {
              (ok, key, db) \<leftarrow> sd_getKey db cur (vi_version viNxt) (replicate (unat klen) 0) klen;
              Some ((vi_version viNxt, if \<not> ok \<or> 0 \<in> set key then [] else key), searched, db)
            }
        | None \<Rightarrow> Some ((vi_version viNxt, []), searched, db))
     }
   }"

text \<open>\<open>getKeyStrs\<close>: the keys collected until as many slots as the table has were searched, in a
  \<open>std::set\<close> ordered by the key alone.\<close>

fun bytes_less :: "bytes \<Rightarrow> bytes \<Rightarrow> bool" where
  "bytes_less xs [] = False"
| "bytes_less [] (y # ys) = True"
| "bytes_less (x # xs) (y # ys) = (x < y \<or> (x = y \<and> bytes_less xs ys))"

primrec keys_insert :: "u32 \<times> bytes \<Rightarrow> (u32 \<times> bytes) list \<Rightarrow> (u32 \<times> bytes) list" where
  "keys_insert x [] = [x]"
| "keys_insert x (y # ys) =
     (if bytes_less (snd x) (snd y) then x # y # ys
      else if bytes_less (snd y) (snd x) then y # keys_insert x ys
      else y # ys)"

partial_function (option) getKeyStrs_loop ::
    "simdb \<Rightarrow> u64 \<Rightarrow> (u32 \<times> bytes) list \<Rightarrow> ((u32 \<times> bytes) list \<times> simdb) option" where
  "getKeyStrs_loop db srchCnt keys =
     (if srchCnt < sd_blkCnt db then do {
        r \<leftarrow> sd_nxtKey db;
        (case r of (nxt, searched, db') \<Rightarrow>
           getKeyStrs_loop db' (srchCnt + searched)
             (if snd nxt \<noteq> [] then keys_insert nxt keys else keys))
      } else Some (keys, db))"

definition getKeyStrs :: "simdb \<Rightarrow> ((u32 \<times> bytes) list \<times> simdb) option" where
  "getKeyStrs db = getKeyStrs_loop db 0 []"

declare getKeyStrs_loop.simps [code]

text \<open>The overloads on C strings, and on vectors, which are lists of the bytes of their elements.\<close>

definition strlen :: "bytes \<Rightarrow> u32" where "strlen s = of_nat (length (takeWhile (\<lambda>b. b \<noteq> 0) s))"

definition sd_get_cstr :: "simdb \<Rightarrow> bytes \<Rightarrow> bytes \<Rightarrow> u32 \<Rightarrow> (bool \<times> bytes \<times> simdb) option" where
  "sd_get_cstr db key val vlen = do {
     (ok, out, _, ch) \<leftarrow> hsh_get (sd_ch db) key (strlen key) val vlen;
     Some (ok, out, db\<lparr>sd_ch := ch\<rparr>)
   }"

definition sd_put_cstr :: "simdb \<Rightarrow> bytes \<Rightarrow> bytes \<Rightarrow> u32 \<Rightarrow> (bool \<times> simdb) option" where
  "sd_put_cstr db key val vlen =
     (if strlen key > 0 then do {
        (ok, ch) \<leftarrow> hsh_put (sd_ch db) key (strlen key) val vlen;
        Some (ok, db\<lparr>sd_ch := ch\<rparr>)
      } else None)"

definition sd_put_vec :: "simdb \<Rightarrow> bytes \<Rightarrow> bytes list \<Rightarrow> (bool \<times> simdb) option" where
  "sd_put_vec db key val = do {
     (ok, ch) \<leftarrow> hsh_put (sd_ch db) key (u32len key) (concat val) (u32len (concat val));
     Some (ok, db\<lparr>sd_ch := ch\<rparr>)
   }"

lemma sd_put_vec_single [simp]: "sd_put_vec db key [v] = sd_put db key v"
  by (simp add: sd_put_vec_def sd_put_def)

section \<open>The database as a map\<close>

text \<open>Keys of \<open>K\<close> all have slots of their own, every key in the table is at its slot, each value takes
  at most \<open>c\<close> blocks, and there are blocks for one value more than there are keys: then no put finds
  the store full, no key is ever in two slots, and a deletion always finds its key.\<close>

record db_params =
  dp_keys :: "bytes set"
  dp_chain :: nat
  dp_sz :: u32
  dp_bs :: u32

definition home :: "db_params \<Rightarrow> bytes \<Rightarrow> u32" where "home P k = HashBytes k mod dp_sz P"

definition params_ok :: "db_params \<Rightarrow> bool" where
  "params_ok P \<longleftrightarrow> finite (dp_keys P) \<and> inj_on (home P) (dp_keys P) \<and> 2 \<le> unat (dp_sz P) \<and>
     (\<forall>k \<in> dp_keys P. k \<noteq> [] \<and> length k < 2 ^ 32 \<and> length k mod unat (dp_bs P) \<noteq> 0) \<and>
     (card (dp_keys P) + 1) * dp_chain P \<le> unat (dp_sz P)"

definition db_key_ok :: "db_params \<Rightarrow> bytes \<Rightarrow> bool" where "db_key_ok P k \<longleftrightarrow> params_ok P \<and> k \<in> dp_keys P"

definition db_fits :: "db_params \<Rightarrow> bytes \<Rightarrow> bytes \<Rightarrow> bool" where
  "db_fits P k v \<longleftrightarrow> db_key_ok P k \<and> v \<noteq> [] \<and> length k + length v < 2 ^ 32 \<and>
     ceil_div (length k + length v) (unat (dp_bs P)) \<le> dp_chain P"

definition homed :: "db_params \<Rightarrow> cncr_hsh \<Rightarrow> blob list \<Rightarrow> bool" where
  "homed P h L \<longleftrightarrow> (\<forall>p < ch_sz h. \<forall>k v. entries h L p = Some (k, v) \<longrightarrow> db_fits P k v \<and> p = home P k)"

text \<open>\<open>n\<close> values can still be put before the 32-bit version of a value wraps to 0, which readers take
  for a freed block.\<close>

definition db_rep :: "db_params \<Rightarrow> simdb \<Rightarrow> (bytes \<Rightarrow> bytes option) \<Rightarrow> nat \<Rightarrow> bool" where
  "db_rep P db m n \<longleftrightarrow> (\<exists>F L. let h = sd_ch db in hsh_inv h F L \<and>
     ch_sz h = dp_sz P \<and> cs_blockSize (ch_cs h) = dp_bs P \<and> homed P h L \<and>
     length F + blocks_of L = unat (dp_sz P) \<and>
     1 \<le> unat (cs_version (ch_cs h)) \<and> unat (cs_version (ch_cs h)) + n = 2 ^ 32 \<and>
     m = hsh_lookup h L)"

lemma homed_once:
  assumes "homed P h L" and "k \<in> dp_keys P" and "params_ok P" and "hsh_wf h" and "ch_sz h = dp_sz P"
  shows "once h L k"
proof -
  have at_home: "p = home P k" if "p < ch_sz h" "tbl_key (entries h L) p = Some k" for p
    using assms(1) that by (auto simp: homed_def tbl_key_def)
  let ?i = "HashBytes k mod ch_sz h"
  have "last (scan h (HashBytes k)) \<noteq> ?i"
  proof -
    have "?i < ch_sz h" using home_less [OF assms(4)] .
    then show ?thesis
      using probes_last_step [of "unat (ch_sz h) - 1" "ch_sz h" ?i "last (scan h (HashBytes k))"]
        assms(3,5) by (auto simp: scan_Cons [OF assms(4)] params_ok_def simp del: probes.simps)
  qed
  moreover have "last (scan h (HashBytes k)) < ch_sz h"
  proof -
    have "scan h (HashBytes k) \<noteq> []"
      using scan_set [OF assms(4), of "HashBytes k"] home_less [OF assms(4)] by auto
    from last_in_set [OF this] scan_set [OF assms(4)] show ?thesis by auto
  qed
  ultimately show ?thesis using at_home assms(5) by (auto simp: once_def home_def)
qed

lemma blob_entry:
  assumes inv: "hsh_inv h F L" and "o' \<in> set L"
  shows "\<exists>p < ch_sz h. slot h p = vi_of o' \<and> entries h L p = Some (bo_key o', bo_val o')"
proof -
  obtain p where p: "p < ch_sz h" "slot h p = vi_of o'" using assms by (auto simp: hsh_inv_def)
  have str: "str_inv (ch_cs h) F L" using inv by (simp add: hsh_inv_def)
  have "\<not> free_vi (slot h p)"
    using not_free_vi_of [OF inv str_inv_blob [OF str assms(2)]] p(2) by simp
  with p blob_at_in [OF str assms(2)] show ?thesis
    by (intro exI [of _ p]) (simp add: entries_def)
qed

lemma distinct_chains: "distinct (concat (map f L)) \<Longrightarrow> \<forall>x \<in> set L. f x \<noteq> [] \<Longrightarrow> distinct L"
proof (induction L)
  case (Cons x L)
  have "x \<notin> set L"
  proof
    assume x: "x \<in> set L"
    obtain y where "y \<in> set (f x)" using Cons.prems(2) by (cases "f x") auto
    with x Cons.prems(1) show False by auto
  qed
  with Cons show ?case by simp
qed simp

lemma homed_blocks:
  assumes inv: "hsh_inv h F L" and homed: "homed P h L" and P: "params_ok P"
    and bs: "cs_blockSize (ch_cs h) = dp_bs P"
  shows "blocks_of L \<le> card (dp_keys P) * dp_chain P"
proof -
  have str: "str_inv (ch_cs h) F L" using inv by (simp add: hsh_inv_def)
  have entry: "\<exists>p. p < ch_sz h \<and> slot h p = vi_of o' \<and> p = home P (bo_key o') \<and> db_fits P (bo_key o') (bo_val o')"
    if "o' \<in> set L" for o'
    using blob_entry [OF inv that] homed by (fastforce simp: homed_def)
  have "inj_on bo_key (set L)"
  proof (rule inj_onI)
    fix a b
    assume ab: "a \<in> set L" "b \<in> set L" "bo_key a = bo_key b"
    then have "vi_of a = vi_of b" using entry [OF ab(1)] entry [OF ab(2)] by auto
    then show "a = b" using vi_of_inj [OF str ab(1,2)] by blast
  qed
  moreover have "bo_key ` set L \<subseteq> dp_keys P" using entry by (auto simp: db_fits_def db_key_ok_def)
  moreover have "finite (dp_keys P)" using P by (simp add: params_ok_def)
  ultimately have "card (set L) \<le> card (dp_keys P)" by (metis card_image card_mono)
  moreover have "distinct L"
  proof -
    have "distinct (concat (map bo_chain L))" and "\<forall>o' \<in> set L. bo_chain o' \<noteq> []"
      using str by (auto simp: str_inv_def blob_ok_def)
    then show ?thesis by (rule distinct_chains)
  qed
  ultimately have "length L \<le> card (dp_keys P)" by (simp add: distinct_card)
  moreover have "blocks_of L \<le> length L * dp_chain P"
  proof -
    have "\<forall>o' \<in> set L. length (bo_chain o') \<le> dp_chain P"
    proof
      fix o' assume o: "o' \<in> set L"
      have "length (bo_chain o') = ceil_div (bo_size o') (unat (dp_bs P))"
        using str_inv_blob [OF str o] bs by (simp add: blob_ok_def)
      with entry [OF o] show "length (bo_chain o') \<le> dp_chain P"
        by (auto simp: db_fits_def bo_size_def)
    qed
    then show ?thesis by (induction L) (auto simp: blocks_of_def)
  qed
  ultimately show ?thesis by (meson le_trans mult_le_mono1)
qed

lemma db_put_ok:
  assumes rep: "db_rep P db m (Suc n)" and fits: "db_fits P k v"
  shows "\<exists>db'. sd_put db k v = Some (True, db') \<and> db_rep P db' (m(k \<mapsto> v)) n"
proof -
  define h where "h = sd_ch db"
  obtain F L where inv: "hsh_inv h F L" and sz: "ch_sz h = dp_sz P" and bs: "cs_blockSize (ch_cs h) = dp_bs P"
    and homed: "homed P h L" and blocks: "length F + blocks_of L = unat (dp_sz P)"
    and ver: "1 \<le> unat (cs_version (ch_cs h))" "unat (cs_version (ch_cs h)) + Suc n = 2 ^ 32"
    and m: "m = hsh_lookup h L"
    using rep by (auto simp: db_rep_def Let_def h_def)
  have P: "params_ok P" and k: "k \<in> dp_keys P" "k \<noteq> []" "length k < 2 ^ 32" "length k mod unat (dp_bs P) \<noteq> 0"
    and v: "v \<noteq> []" "length k + length v < 2 ^ 32"
      "ceil_div (length k + length v) (unat (dp_bs P)) \<le> dp_chain P"
    using fits by (auto simp: db_fits_def db_key_ok_def params_ok_def)
  have wf: "hsh_wf h" using inv by (simp add: hsh_inv_def)
  have "dp_chain P \<le> length F"
  proof -
    have "(card (dp_keys P) + 1) * dp_chain P \<le> length F + blocks_of L"
      using P blocks by (simp add: params_ok_def)
    then show ?thesis using homed_blocks [OF inv homed P bs] by simp
  qed
  moreover have "unat (ucast (cs_version (ch_cs h)) :: u32) = unat (cs_version (ch_cs h))"
    using ver(2) by (simp add: unsigned_ucast_eq take_bit_nat_eq_self_iff)
  then have "(ucast (cs_version (ch_cs h)) :: u32) \<noteq> 0" using ver(1) by auto
  ultimately have st: "storable (ch_cs h) F k v"
    using k v bs by (simp add: storable_def)
  obtain h' F' L' p where put: "hsh_put h k (of_nat (length k)) v (of_nat (length v)) = Some (True, h')"
      and inv': "hsh_inv h' F' L'" and shape: "shape h' = shape h"
      and ver': "cs_version (ch_cs h') = cs_version (ch_cs h) + 1"
      and blocks': "length F' + blocks_of L' = length F + blocks_of L"
      and p: "find (\<lambda>p. entries h L p = None \<or> tbl_key (entries h L) p = Some k) (scan h (HashBytes k)) = Some p"
      and e: "\<forall>q < ch_sz h. entries h' L' q = ((entries h L)(p \<mapsto> (k, v))) q"
    using hsh_put_entries [OF inv st] by blast
  have "p = home P k"
  proof -
    have home: "home P k < ch_sz h" using home_less [OF wf] sz by (simp add: home_def)
    have "entries h L (home P k) = None \<or> tbl_key (entries h L) (home P k) = Some k"
    proof (cases "entries h L (home P k)")
      case (Some kv)
      obtain k' v' where kv: "kv = (k', v')" by force
      with Some homed home have "k' \<in> dp_keys P" "home P k = home P k'"
        by (auto simp: homed_def db_fits_def db_key_ok_def)
      then have "k' = k" using P k(1) by (auto simp: params_ok_def inj_on_def)
      with Some kv show ?thesis by (simp add: tbl_key_def)
    qed simp
    moreover have "\<exists>ps. scan h (HashBytes k) = home P k # ps"
      using scan_Cons [OF wf, of "HashBytes k"] sz by (simp add: home_def)
    ultimately show ?thesis using p by auto
  qed
  then have "homed P h' L'"
    using e homed fits shape by (auto simp: homed_def shape_def)
  moreover have "m(k \<mapsto> v) = hsh_lookup h' L'"
  proof
    fix k'
    have Pp: "entries h L p = None \<or> tbl_key (entries h L) p = Some k"
      using p by (auto simp: find_Some_iff)
    show "(m(k \<mapsto> v)) k' = hsh_lookup h' L' k'"
      unfolding lookup_cong [OF wf shape e]
      using tbl_get_put_same [OF p] tbl_get_put_other [OF Pp] m
      by (cases "k' = k") (simp_all add: hsh_lookup_def fun_upd_same fun_upd_other del: fun_upd_apply)
  qed
  moreover have "unat (cs_version (ch_cs h')) = Suc (unat (cs_version (ch_cs h)))"
    unfolding ver' using ver(2) by (simp add: unat_word_ariths)
  ultimately have "db_rep P (db\<lparr>sd_ch := h'\<rparr>) (m(k \<mapsto> v)) n"
    using inv' shape sz bs blocks blocks' ver
    by (auto simp: db_rep_def shape_def Let_def)
  then show ?thesis using put by (simp add: sd_put_def u32len_def flip: h_def)
qed

lemma db_del_ok:
  assumes rep: "db_rep P db m n" and key: "db_key_ok P k"
  shows "\<exists>db'. sd_del db k = Some (m k \<noteq> None, db') \<and> db_rep P db' (m(k := None)) n"
proof -
  define h where "h = sd_ch db"
  obtain F L where inv: "hsh_inv h F L" and sz: "ch_sz h = dp_sz P" and bs: "cs_blockSize (ch_cs h) = dp_bs P"
    and homed: "homed P h L" and blocks: "length F + blocks_of L = unat (dp_sz P)"
    and ver: "1 \<le> unat (cs_version (ch_cs h))" "unat (cs_version (ch_cs h)) + n = 2 ^ 32"
    and m: "m = hsh_lookup h L"
    using rep by (auto simp: db_rep_def Let_def h_def)
  have P: "params_ok P" and k: "k \<in> dp_keys P" "k \<noteq> []" "length k < 2 ^ 32"
    using key by (auto simp: db_key_ok_def params_ok_def)
  have wf: "hsh_wf h" using inv by (simp add: hsh_inv_def)
  obtain h' F' L' where del: "hsh_del h k (of_nat (length k)) = Some (hsh_lookup h L k \<noteq> None, h')"
      and inv': "hsh_inv h' F' L'" and shape: "shape h' = shape h"
      and ver': "cs_version (ch_cs h') = cs_version (ch_cs h)"
      and blocks': "length F' + blocks_of L' = length F + blocks_of L"
      and e: "\<forall>q < ch_sz h. entries h' L' q =
        (if tbl_key (entries h L) q = Some k then None else entries h L q)"
      and m': "hsh_lookup h' L' = (hsh_lookup h L)(k := None)"
    using hsh_del_lookup [OF inv k(2,3) homed_once [OF homed k(1) P wf sz]] by blast
  have "homed P h' L'"
    using e homed shape by (auto simp: homed_def shape_def split: if_splits)
  then have "db_rep P (db\<lparr>sd_ch := h'\<rparr>) (m(k := None)) n"
    using inv' shape sz bs blocks blocks' ver ver' unfolding m m' [symmetric] db_rep_def Let_def
    by (intro exI [of _ F'] exI [of _ L']) (simp add: shape_def)
  then show ?thesis using del m by (simp add: sd_del_def u32len_def flip: h_def)
qed

lemma lookup_blob:
  assumes inv: "hsh_inv h F L" and "hsh_lookup h L k = Some v"
  shows "v \<noteq> [] \<and> length k + length v < 2 ^ 32"
proof (cases rule: hsh_lookup_cases [OF inv, of k])
  case 1
  with assms(2) show ?thesis by simp
next
  case (2 p o')
  have "blob_ok (ch_cs h) o'" using inv 2(2) by (auto simp: hsh_inv_def str_inv_def)
  with 2(4,5) assms(2) show ?thesis by (auto simp: blob_ok_def bo_size_def)
qed

lemma sd_len_ok:
  assumes inv: "hsh_inv (sd_ch db) F L" and k: "k \<noteq> []" "length k < 2 ^ 32"
  shows "\<exists>l vlen ver. sd_len db k = Some (l, vlen, ver, db) \<and>
    vlen = map_option (\<lambda>v. of_nat (length v)) (hsh_lookup (sd_ch db) L k)"
  using hsh_len_lookup [OF inv k]
  by (cases "hsh_lookup (sd_ch db) L k") (auto simp: sd_len_def u32len_def)

lemma sd_get_vec_lookup:
  assumes inv: "hsh_inv (sd_ch db) F L" and k: "k \<noteq> []" "length k < 2 ^ 32" and ts: "1 \<le> ts"
  shows "\<exists>x. sd_get_vec ts db k = Some (x, db) \<and>
    (case hsh_lookup (sd_ch db) L k of None \<Rightarrow> x = []
     | Some v \<Rightarrow> v \<noteq> [] \<and> take (length v) x = v \<and> length x = length v * ts)"
proof -
  obtain l vlen ver where len: "sd_len db k = Some (l, vlen, ver, db)"
    "vlen = map_option (\<lambda>v. of_nat (length v)) (hsh_lookup (sd_ch db) L k)"
    using sd_len_ok [OF inv k] by blast
  show ?thesis
  proof (cases "hsh_lookup (sd_ch db) L k")
    case None
    with len show ?thesis by (simp add: sd_get_vec_def)
  next
    case (Some v)
    note v = lookup_blob [OF inv Some]
    have uv: "unat (of_nat (length v) :: u32) = length v" using v by (intro unat_length) simp
    then have v0: "(of_nat (length v) :: u32) \<noteq> 0" using v by (cases v) auto
    let ?out = "replicate (length v * ts) (0 :: u8)"
    have "unat (of_nat (length v) :: u32) \<le> length ?out" using uv ts by (cases ts) simp_all
    from hsh_get_lookup [OF inv k this] obtain n out' where
      "hsh_get (sd_ch db) k (of_nat (length k)) ?out (of_nat (length v)) = Some (True, out', Some n, sd_ch db)"
      "take (length v) out' = v" "length out' = length ?out"
      using Some uv by auto
    then show ?thesis
      using len Some v uv v0 by (simp add: sd_get_vec_def u32len_def)
  qed
qed

lemma sd_get_str_lookup:
  assumes inv: "hsh_inv (sd_ch db) F L" and k: "k \<noteq> []" "length k < 2 ^ 32"
  shows "sd_get_str db k = Some (case hsh_lookup (sd_ch db) L k of None \<Rightarrow> [] | Some v \<Rightarrow> v, db)"
proof -
  obtain l vlen ver where len: "sd_len db k = Some (l, vlen, ver, db)"
    "vlen = map_option (\<lambda>v. of_nat (length v)) (hsh_lookup (sd_ch db) L k)"
    using sd_len_ok [OF inv k] by blast
  show ?thesis
  proof (cases "hsh_lookup (sd_ch db) L k")
    case None
    then have "hsh_get (sd_ch db) k (of_nat (length k)) [] 0 = Some (False, [], None, sd_ch db)"
      using hsh_get_lookup [OF inv k, of 0 "[]"] by simp
    with None len show ?thesis by (simp add: sd_get_str_def sd_get_out_def u32len_def)
  next
    case (Some v)
    have uv: "unat (of_nat (length v) :: u32) = length v"
      using lookup_blob [OF inv Some] by (intro unat_length) simp
    from hsh_get_lookup [OF inv k, of "of_nat (length v)" "replicate (length v) 0"] obtain n out' where
      "hsh_get (sd_ch db) k (of_nat (length k)) (replicate (length v) 0) (of_nat (length v)) =
        Some (True, out', Some n, sd_ch db)" "take (length v) out' = v" "length out' = length v"
      using Some uv by auto
    then show ?thesis
      using len Some uv by (simp add: sd_get_str_def sd_get_out_def u32len_def)
  qed
qed

lemma db_rep_inv: "db_rep P db m n \<Longrightarrow> \<exists>F L. hsh_inv (sd_ch db) F L \<and> m = hsh_lookup (sd_ch db) L"
  by (auto simp: db_rep_def Let_def)

lemma db_key: "db_key_ok P k \<Longrightarrow> k \<noteq> [] \<and> length k < 2 ^ 32"
  by (auto simp: db_key_ok_def params_ok_def)

lemma db_get_vec_ok: "db_rep P db m n \<Longrightarrow> db_key_ok P k \<Longrightarrow> 1 \<le> ts \<Longrightarrow>
  \<exists>x. sd_get_vec ts db k = Some (x, db) \<and>
    (case m k of None \<Rightarrow> x = [] | Some v \<Rightarrow> v \<noteq> [] \<and> take (length v) x = v)"
  using sd_get_vec_lookup [of db _ _ k ts] db_rep_inv [of P db m n] db_key [of P k]
  by (cases "m k") fastforce+

text \<open>The transactors read vectors of \<open>trans_payload\<close> (16 bytes) and \<open>irq_trans_payload\<close> (4 bytes).\<close>

interpretation db16: kv_store "db_rep P" "db_key_ok P" "db_fits P" sd_put "sd_get_vec 16" sd_del for P
proof unfold_locales
  show "db_fits P k v \<Longrightarrow> db_key_ok P k \<and> v \<noteq> []" for k v by (simp add: db_fits_def)
  show "db_rep P s m n \<Longrightarrow> db_key_ok P k \<Longrightarrow> \<exists>x. sd_get_vec 16 s k = Some (x, s) \<and>
      (case m k of None \<Rightarrow> x = [] | Some v \<Rightarrow> v \<noteq> [] \<and> take (length v) x = v)" for s m n k
    by (rule db_get_vec_ok) simp_all
qed (fact db_put_ok db_del_ok)+

interpretation db4: kv_store "db_rep P" "db_key_ok P" "db_fits P" sd_put "sd_get_vec 4" sd_del for P
proof unfold_locales
  show "db_fits P k v \<Longrightarrow> db_key_ok P k \<and> v \<noteq> []" for k v by (simp add: db_fits_def)
  show "db_rep P s m n \<Longrightarrow> db_key_ok P k \<Longrightarrow> \<exists>x. sd_get_vec 4 s k = Some (x, s) \<and>
      (case m k of None \<Rightarrow> x = [] | Some v \<Rightarrow> v \<noteq> [] \<and> take (length v) x = v)" for s m n k
    by (rule db_get_vec_ok) simp_all
qed (fact db_put_ok db_del_ok)+

text \<open>On strings \<open>get\<close> returns exactly the value.\<close>

interpretation db_str: kv_map "db_rep P" "db_key_ok P" "db_fits P" sd_put sd_get_str sd_del for P
proof unfold_locales
  show "db_fits P k v \<Longrightarrow> db_key_ok P k \<and> v \<noteq> []" for k v by (simp add: db_fits_def)
  show exact: "db_rep P s m n \<Longrightarrow> db_key_ok P k \<Longrightarrow>
      sd_get_str s k = Some (case m k of None \<Rightarrow> [] | Some v \<Rightarrow> v, s)" for s m n k
    using db_rep_inv [of P s m n] sd_get_str_lookup [of s _ _ k] db_key [of P k] by fastforce
  show "db_rep P s m n \<Longrightarrow> db_key_ok P k \<Longrightarrow> \<exists>x. sd_get_str s k = Some (x, s) \<and>
      (case m k of None \<Rightarrow> x = [] | Some v \<Rightarrow> v \<noteq> [] \<and> take (length v) x = v)" for s m n k
    using db_rep_inv [of P s m n] lookup_blob [of "sd_ch s" _ _ k] exact [of s m n k]
    by (auto split: option.splits)
qed (fact db_put_ok db_del_ok)+

section \<open>A new database\<close>

text \<open>The owner's constructor over memory whose hash table and store were just laid out.\<close>

definition simdb_init :: "u32 \<Rightarrow> u32 \<Rightarrow> u32 list \<Rightarrow> bytes \<Rightarrow> u64 list \<Rightarrow> simdb option" where
  "simdb_init blockSize blockCount lmem bmem vmem = do {
     cs \<leftarrow> CncrStr_init blockSize blockCount lmem bmem;
     ch \<leftarrow> CncrHsh_init blockCount vmem cs True;
     Some \<lparr>sd_ch = ch, sd_nxtChIdx = 0, sd_blkCnt = ucast blockCount\<rparr>
   }"

lemma simdb_init_rep:
  assumes "4 < bs" and "0 < unat cnt" and "length lmem = unat cnt" and "length bmem = unat cnt * unat bs"
    and "unat cnt * unat bs < 2 ^ 32" and "unat cnt \<le> length vmem"
    and "dp_sz P = cnt" and "dp_bs P = bs"
  shows "\<exists>db. simdb_init bs cnt lmem bmem vmem = Some db \<and> db_rep P db Map.empty (2 ^ 32 - 1)"
proof -
  obtain cs where cs: "CncrStr_init bs cnt lmem bmem = Some cs" "str_inv cs (map of_nat [0..<unat cnt]) []"
    "cs_version cs = 1" "cs_blockSize cs = bs" "length (cs_bls cs) = unat cnt"
    using CncrStr_init_inv [OF assms(1-4)] assms(4,5) by auto
  have "1 < unat (cs_blockSize cs)" using assms(1) cs(4) by (simp add: word_less_nat_alt)
  then obtain h where h: "hsh_init cnt vmem cs = Some h" "hsh_inv h (map of_nat [0..<unat cnt]) []"
    "ch_cs h = cs" "ch_sz h = cnt" "\<forall>p < cnt. entries h [] p = None" "hsh_lookup h [] = Map.empty"
    using hsh_init_inv [OF cs(2)] cs(5) assms(6) by metis
  then have "db_rep P \<lparr>sd_ch = h, sd_nxtChIdx = 0, sd_blkCnt = ucast cnt\<rparr> Map.empty (2 ^ 32 - 1)"
    using cs assms(7,8) unfolding db_rep_def Let_def
    by (intro exI [of _ "map of_nat [0..<unat cnt]"] exI [of _ "[]"]) (simp add: homed_def blocks_of_def)
  then show ?thesis using cs(1) h(1) by (simp add: simdb_init_def CncrHsh_init_def)
qed

end
