(* ===== verification/Simdb_Spec.thy ===== *)
theory Simdb_Spec
  imports Simdb
begin

text \<open>
  The properties of the hash table and of the database, with instances on a database of four blocks of
  eight bytes.
\<close>

section \<open>A small database\<close>

definition small_db :: "simdb option" where
  "small_db = simdb_init 8 4 (replicate 4 0) (replicate 32 0) (replicate 4 0)"

definition small_params :: db_params where
  "small_params = \<lparr>dp_keys = {[97], [98]}, dp_chain = 1, dp_sz = 4, dp_bs = 8\<rparr>"

lemma small_homes: "HashBytes [97] mod 4 = 0" "HashBytes [98] mod 4 = 1" "HashBytes [101] mod 4 = 0"
  by code_simp+

lemma two_homes: "HashBytes [97] mod 2 = 0" "HashBytes [99] mod 2 = 0"
  by code_simp+

lemma small_params_ok: "params_ok small_params"
  by (auto simp: params_ok_def small_params_def home_def small_homes inj_on_def)

lemma small_keys: "db_key_ok small_params [97]" "db_key_ok small_params [98]"
  by (auto simp: db_key_ok_def small_params_ok) (simp_all add: small_params_def)

lemma ceil_div_8: "a \<le> 8 \<Longrightarrow> ceil_div a 8 \<le> 1"
  by (cases "a = 8") (simp_all add: ceil_div_def)

lemma small_fits: "v \<noteq> [] \<Longrightarrow> length v \<le> 7 \<Longrightarrow> k = [97] \<or> k = [98] \<Longrightarrow> db_fits small_params k v"
  using small_keys ceil_div_8 [of "length k + length v"]
  by (auto simp: db_fits_def) (auto simp: small_params_def)

lemma small_db_rep: "\<exists>db. small_db = Some db \<and> db_rep small_params db Map.empty (2 ^ 32 - 1)"
  unfolding small_db_def by (rule simdb_init_rep) (simp_all add: small_params_def)

lemma small_rep: "\<exists>db. db_rep small_params db [[97] \<mapsto> [1, 2]] (2 ^ 32 - 2)"
proof -
  obtain db where "db_rep small_params db Map.empty (2 ^ 32 - 1)" using small_db_rep by blast
  then have "db_rep small_params db Map.empty (Suc (2 ^ 32 - 2))" by simp
  from db16.put_ok [OF this small_fits, of "[1, 2]" "[97]"] show ?thesis by auto
qed

lemma small_hsh: "\<exists>h L. hsh_inv h [0, 1, 2, 3] L \<and> L = [] \<and> shape h = (4, 8, 4) \<and>
  cs_version (ch_cs h) = 1 \<and> (\<forall>p < 4. entries h L p = None)"
proof -
  have F: "map of_nat [0..<unat (4 :: u32)] = [0, 1, 2, 3 :: u32]" by (simp add: upt_rec)
  obtain s where s: "str_inv s [0, 1, 2, 3] []" "cs_version s = 1" "cs_blockSize s = 8" "length (cs_bls s) = 4"
    using CncrStr_init_inv [of 8 4 "replicate 4 0" "replicate 32 0"] unfolding F by auto
  then show ?thesis
    using hsh_init_inv [OF s(1), of 4 "replicate 4 0"] by (fastforce simp: shape_def)
qed

section \<open>Properties of the hash function and the slots\<close>

text \<open>The hash of a key is 64-bit FNV-1a: each byte is mixed in by an exclusive or and a
  multiplication with the FNV prime, which the code writes as a sum of shifts.\<close>

theorem fnv_is_fnv1a:
  "fnv_64a_buf buf = foldl (\<lambda>h b. (h XOR ucast b) * 0x100000001B3) 0xCBF29CE484222325 buf"
  unfolding fnv_64a_buf_def by (intro foldl_cong) (simp_all add: fnv_step_prime)

text \<open>Smearing the bits of a word downwards gives a mask.\<close>

definition smeared :: "u32 \<Rightarrow> nat \<Rightarrow> u32 \<Rightarrow> bool" where
  "smeared w m v \<longleftrightarrow> (\<forall>n. bit v n \<longleftrightarrow> (\<exists>i. n \<le> i \<and> i < n + m \<and> bit w i))"

lemma smear_step: "smeared w m v \<Longrightarrow> m' = m + m \<Longrightarrow> smeared w m' (v OR drop_bit m v)"
proof (elim ssubst)
  have "n \<le> i \<and> i < n + (m + m) \<longleftrightarrow> (n \<le> i \<and> i < n + m) \<or> (m + n \<le> i \<and> i < m + n + m)" for n i
    by arith
  then show "smeared w m v \<Longrightarrow> smeared w (m + m) (v OR drop_bit m v)"
    by (simp add: smeared_def bit_simps ex_disj_distrib [symmetric] conj_disj_distribR
        flip: conj_assoc)
qed

lemma bit_u32_unat: "bit (w :: u32) i \<longleftrightarrow> bit (unat w) i"
  by (auto simp: bit_unsigned_iff dest: bit_imp_le_length)

lemma top_bit: "2 ^ k \<le> n \<Longrightarrow> n < 2 ^ Suc k \<Longrightarrow> bit (n :: nat) k"
proof -
  assume "2 ^ k \<le> n" "n < 2 ^ Suc k"
  then have "n div 2 ^ k = 1" by (intro div_nat_eqI) simp_all
  then show ?thesis by (simp add: bit_iff_odd)
qed

lemma bit_below: "bit (n :: nat) i \<Longrightarrow> n < 2 ^ k \<Longrightarrow> i < k"
proof (rule ccontr)
  assume "bit n i" "n < 2 ^ k" "\<not> i < k"
  then have "n < 2 ^ i" by (meson less_le_trans linorder_not_less one_le_numeral power_increasing)
  with \<open>bit n i\<close> show False by (simp add: bit_iff_odd)
qed

lemma smeared_mask:
  assumes "smeared w 32 v" and "unat w < 2 ^ k" and "k = 0 \<or> 2 ^ (k - 1) \<le> unat w"
  shows "v = mask k"
proof (rule bit_word_eqI)
  fix n assume n: "n < LENGTH(32)"
  have "(\<exists>i. n \<le> i \<and> i < n + 32 \<and> bit w i) \<longleftrightarrow> n < k"
  proof
    assume "\<exists>i. n \<le> i \<and> i < n + 32 \<and> bit w i"
    then show "n < k" using bit_below [OF _ assms(2)] bit_u32_unat le_less_trans by blast
  next
    assume nk: "n < k"
    then have "bit (unat w) (k - 1)"
      using assms(2,3) top_bit [of "k - 1" "unat w"] by simp
    then have b: "bit w (k - 1)" by (simp add: bit_u32_unat)
    then have "k - 1 < 32" using bit_imp_le_length [OF b] by simp
    with b nk show "\<exists>i. n \<le> i \<and> i < n + 32 \<and> bit w i" by (intro exI [of _ "k - 1"]) auto
  qed
  with assms(1) n show "bit v n = bit (mask k :: u32) n" by (simp add: smeared_def bit_mask_iff)
qed

text \<open>\<open>nextPowerOf2\<close> returns the smallest power of two that is not below its argument, for arguments
  from 1 to \<open>2 ^ 31\<close>.\<close>

theorem nextPowerOf2_least:
  assumes "1 \<le> unat v" and "unat v \<le> 2 ^ 31"
  shows "\<exists>k \<le> 31. nextPowerOf2 v = 2 ^ k \<and> unat v \<le> 2 ^ k \<and> 2 ^ k < 2 * unat v"
proof -
  define w where "w = v - 1"
  have w: "unat w = unat v - 1" using assms(1) by (simp add: w_def unat_sub_u32)
  define k where "k = (LEAST k. unat w < 2 ^ k)"
  have "unat w < 2 ^ 31" using w assms by simp
  then have k: "unat w < 2 ^ k" "k \<le> 31"
    unfolding k_def by (rule LeastI, rule Least_le)
  have k1: "k = 0 \<or> 2 ^ (k - 1) \<le> unat w"
    using not_less_Least [of "k - 1" "\<lambda>k. unat w < 2 ^ k"] by (fastforce simp: k_def)
  define v1 where "v1 = w OR drop_bit 1 w"
  define v2 where "v2 = v1 OR drop_bit 2 v1"
  define v3 where "v3 = v2 OR drop_bit 4 v2"
  define v4 where "v4 = v3 OR drop_bit 8 v3"
  define v5 where "v5 = v4 OR drop_bit 16 v4"
  have "smeared w 1 w" by (auto simp: smeared_def) (metis Suc_leI le_antisym less_Suc_eq_le)
  then have "smeared w 2 v1" unfolding v1_def by (rule smear_step) simp
  then have "smeared w 4 v2" unfolding v2_def by (rule smear_step) simp
  then have "smeared w 8 v3" unfolding v3_def by (rule smear_step) simp
  then have "smeared w 16 v4" unfolding v4_def by (rule smear_step) simp
  then have "smeared w 32 v5" unfolding v5_def by (rule smear_step) simp
  then have "v5 = mask k" using k(1) k1 by (rule smeared_mask)
  moreover have "nextPowerOf2 v = v5 + 1"
    by (simp only: nextPowerOf2_def Let_def v1_def v2_def v3_def v4_def v5_def w_def)
  ultimately have "nextPowerOf2 v = mask k + 1" by simp
  then have "nextPowerOf2 v = 2 ^ k" by (simp add: mask_eq_exp_minus_1)
  moreover have "unat v \<le> 2 ^ k" using k(1) w by simp
  moreover have "2 ^ k < 2 * unat v"
    using k1 w assms(1) by (cases k) auto
  ultimately show ?thesis using k(2) by blast
qed

theorem nextPowerOf2_least_witness: "\<exists>k \<le> 31. nextPowerOf2 1000 = 2 ^ k \<and> 1000 \<le> (2 ^ k :: nat) \<and> 2 ^ k < (2000 :: nat)"
  using nextPowerOf2_least [of 1000] by simp

text \<open>A slot reads back as the block index and version it was last set to, at even and at odd
  positions, although the halves are swapped in memory at odd ones; no other slot changes.\<close>

theorem slot_round_trip:
  assumes "hsh_wf h" and "i < ch_sz h"
  shows "\<exists>old h'. store_vi h i (asInt vi) = Some (old, h') \<and> load h i = Some old \<and>
      cmpex_vi h i old vi = Some (True, h') \<and> load h' i = Some vi \<and>
      (\<forall>j < ch_sz h. j \<noteq> i \<longrightarrow> load h' j = load h j)"
proof -
  have "hsh_wf (set_slot h i vi)" using assms(1) by simp
  then show ?thesis
    using assms store_vi_slot [OF assms, of vi] slot_set [OF assms, of vi]
    by (auto simp: hash_simps)
qed

theorem slot_round_trip_witness:
  "\<exists>old h'. let h = \<lparr>ch_sz = 2, ch_vis = [7, 8], ch_cs = undefined\<rparr> in
    store_vi h 1 (asInt (VerIdx 5 6)) = Some (old, h') \<and> load h' 1 = Some (VerIdx 5 6)"
  using slot_round_trip [of "\<lparr>ch_sz = 2, ch_vis = [7, 8], ch_cs = undefined\<rparr>" 1 "VerIdx 5 6"]
  by (auto simp: hsh_wf_def Let_def)

section \<open>Properties of the hash table\<close>

text \<open>C7. Putting a key and value changes the table's map at that key and nowhere else, whatever
  collisions and deleted slots the key meets on its way, and keeps the invariant.\<close>

theorem hash_put_updates_map:
  assumes "hsh_inv h F L" and "storable (ch_cs h) F key val"
  shows "\<exists>h' F' L'. hsh_put h key (of_nat (length key)) val (of_nat (length val)) = Some (True, h') \<and>
    hsh_inv h' F' L' \<and> hsh_lookup h' L' = (hsh_lookup h L)(key \<mapsto> val)"
  using hsh_put_lookup [OF assms] by blast

lemma small_hsh_storable: "shape h = (4, 8, 4) \<Longrightarrow> cs_version (ch_cs h) = 1 \<Longrightarrow>
  storable (ch_cs h) [0, 1, 2, 3] [97] [5, 6]"
  by (auto simp: storable_def shape_def ceil_div_def)

theorem hash_put_updates_map_witness:
  "\<exists>h h' F' L'. hsh_put h [97] (of_nat (length [97 :: u8])) [5, 6] (of_nat (length [5 :: u8, 6])) = Some (True, h') \<and>
    hsh_inv h' F' L' \<and> hsh_lookup h' L' [97] = Some [5, 6]"
proof -
  obtain h where h: "hsh_inv h [0, 1, 2, 3] []" "shape h = (4, 8, 4)" "cs_version (ch_cs h) = 1"
    using small_hsh by blast
  obtain h' F' L' where "hsh_put h [97] (of_nat (length [97 :: u8])) [5, 6] (of_nat (length [5 :: u8, 6])) =
      Some (True, h')" "hsh_inv h' F' L'" "hsh_lookup h' L' = (hsh_lookup h [])([97] \<mapsto> [5, 6])"
    using hash_put_updates_map [OF h(1) small_hsh_storable [OF h(2,3)]] by blast
  then show ?thesis
    by (intro exI [of _ h] exI [of _ h'] exI [of _ F'] exI [of _ L']) simp
qed

text \<open>C8. \<open>get\<close> says whether the key is in the table's map; if it is, a buffer of at least the value's
  length starts with the value. The table and the reader counts are left as they were.\<close>

theorem hash_get_reads_map:
  assumes "hsh_inv h F L" and "key \<noteq> []" and "length key < 2 ^ 32" and "unat vlen \<le> length out"
    and "\<forall>v. hsh_lookup h L key = Some v \<longrightarrow> length v \<le> unat vlen"
  shows "\<exists>out' n. hsh_get h key (of_nat (length key)) out vlen =
      Some (hsh_lookup h L key \<noteq> None, out', n, h) \<and> length out' = length out \<and>
    (case hsh_lookup h L key of None \<Rightarrow> out' = out | Some v \<Rightarrow> take (length v) out' = v)"
  using hsh_get_lookup [OF assms(1-4)] assms(5) by (cases "hsh_lookup h L key") auto

theorem hash_get_reads_map_witness:
  "\<exists>h out' n. hsh_get h [97] (of_nat (length [97 :: u8])) [0, 0, 0] 3 = Some (True, out', n, h) \<and>
    take 2 out' = [5, 6]"
proof -
  obtain h where h: "hsh_inv h [0, 1, 2, 3] []" "shape h = (4, 8, 4)" "cs_version (ch_cs h) = 1"
    using small_hsh by blast
  obtain h' F' L' where h': "hsh_inv h' F' L'" "hsh_lookup h' L' [97] = Some [5, 6]"
    using hsh_put_lookup [OF h(1) small_hsh_storable [OF h(2,3)]] by auto
  have "\<exists>out' n. hsh_get h' [97] (of_nat (length [97 :: u8])) [0, 0, 0] 3 =
      Some (hsh_lookup h' L' [97] \<noteq> None, out', n, h') \<and> length out' = length [0 :: u8, 0, 0] \<and>
    (case hsh_lookup h' L' [97] of None \<Rightarrow> out' = [0, 0, 0] | Some v \<Rightarrow> take (length v) out' = v)"
    by (rule hash_get_reads_map [OF h'(1)]) (simp_all add: h'(2))
  with h'(2) show ?thesis by (auto simp: numeral_2_eq_2)
qed

text \<open>When no block is free, putting is refused and nothing changes.\<close>

theorem hash_put_full_refused:
  assumes "hsh_inv h [] L" and "key \<noteq> []" and "length key < 2 ^ 32"
  shows "hsh_put h key (of_nat (length key)) val vlen = Some (False, h)"
  using assms by (rule hsh_put_full)

theorem hash_put_full_refused_witness:
  "\<exists>h L. hsh_inv h [] L \<and> hsh_put h [98] (of_nat (length [98 :: u8])) [1] 1 = Some (False, h)"
proof -
  obtain h where h: "hsh_inv h [0, 1, 2, 3] []" "shape h = (4, 8, 4)" "cs_version (ch_cs h) = 1"
    using small_hsh by blast
  let ?v = "replicate 31 (1 :: u8)"
  have "storable (ch_cs h) [0, 1, 2, 3] [97] ?v"
    using h(2,3) by (auto simp: storable_def shape_def ceil_div_def)
  then obtain h' F' L' where h': "hsh_inv h' F' L'" "length F' + blocks_of L' = 4" "shape h' = shape h"
    "hsh_lookup h' L' [97] = Some ?v"
    using hsh_put_lookup [OF h(1)] by (fastforce simp: blocks_of_def)
  have str: "str_inv (ch_cs h') F' L'" using h'(1) by (simp add: hsh_inv_def)
  obtain b where b: "b \<in> set L'" "bo_key b = [97]" "bo_val b = ?v"
    using h'(4) by (cases rule: hsh_lookup_cases [OF h'(1), of "[97]"]) auto
  then have "length (bo_chain b) = 4"
    using str_inv_blob [OF str b(1)] h'(3) h(2)
    by (simp add: blob_ok_def bo_size_def shape_def ceil_div_def)
  moreover have "length (bo_chain b) \<le> blocks_of L'"
    using b(1) by (induction L') (auto simp: blocks_of_def)
  ultimately have "length F' = 0" using h'(2) by linarith
  then have "F' = []" by simp
  then show ?thesis using hash_put_full_refused [of h' L' "[98]"] h'(1) by auto
qed

text \<open>C31. A key whose home slot was deleted can be in the table twice: putting it again writes the home
  slot although the key still sits further on, and deleting it then brings the older value back.\<close>

theorem put_del_resurrects_old_value:
  assumes inv: "hsh_inv h F L" and st: "storable (ch_cs h) F key val" and "2 \<le> unat (ch_sz h)"
    and home: "entries h L (HashBytes key mod ch_sz h) = None" and old: "hsh_lookup h L key = Some old"
  shows "\<exists>h1 h2 F1 L1 F2 L2.
    hsh_put h key (of_nat (length key)) val (of_nat (length val)) = Some (True, h1) \<and>
    hsh_inv h1 F1 L1 \<and> hsh_lookup h1 L1 key = Some val \<and>
    hsh_del h1 key (of_nat (length key)) = Some (True, h2) \<and>
    hsh_inv h2 F2 L2 \<and> hsh_lookup h2 L2 key = Some old"
proof -
  let ?i = "HashBytes key mod ch_sz h" and ?e = "entries h L"
  have wf: "hsh_wf h" using inv by (simp add: hsh_inv_def)
  obtain k where k: "unat (ch_sz h) = Suc (Suc k)" using assms(3) by (cases "unat (ch_sz h)"; cases "unat (ch_sz h) - 1") auto
  then have scan: "scan h (HashBytes key) = ?i # probes (ch_sz h) (Suc k) ((?i + 1) mod ch_sz h)"
    by (simp add: scan_def)
  obtain h1 F1 L1 where put: "hsh_put h key (of_nat (length key)) val (of_nat (length val)) = Some (True, h1)"
    and inv1: "hsh_inv h1 F1 L1" and sh: "shape h1 = shape h"
    and e1: "\<forall>q < ch_sz h. entries h1 L1 q = (?e(?i \<mapsto> (key, val))) q"
    using hsh_put_entries [OF inv st] home scan by auto
  have key: "key \<noteq> []" "length key < 2 ^ 32" using st by (auto simp: storable_def)
  have i: "?i < ch_sz h" using wf by (rule home_less)
  have look1: "hsh_lookup h1 L1 key = Some val"
    unfolding lookup_cong [OF wf sh e1] by (simp add: scan)
  have "find (\<lambda>p. tbl_key (entries h1 L1) p = Some key) (butlast (scan h1 (HashBytes key))) = Some ?i"
    using e1 i by (simp add: shape_scan [OF sh] scan tbl_key_def)
  then obtain h2 F2 L2 where del: "hsh_del h1 key (of_nat (length key)) = Some (True, h2)"
    and inv2: "hsh_inv h2 F2 L2" and sh2: "shape h2 = shape h1"
    and e2: "\<forall>q < ch_sz h1. entries h2 L2 q = ((entries h1 L1)(?i := None)) q"
    using hsh_del_entries [OF inv1 key] by auto
  have "\<forall>q < ch_sz h. entries h2 L2 q = ?e q"
    using e1 e2 home sh by (auto simp: shape_def)
  then have "hsh_lookup h2 L2 key = hsh_lookup h L key"
    using lookup_cong [OF wf trans [OF sh2 sh]] by (simp add: hsh_lookup_def [of h])
  with put inv1 look1 del inv2 old show ?thesis by fastforce
qed

lemma find_hd: "P x \<Longrightarrow> find P (x # xs) = Some x" by simp

theorem put_del_resurrects_old_value_witness:
  "\<exists>h h1 h2 F1 L1 F2 L2. hsh_put h [101] (of_nat (length [101 :: u8])) [8] (of_nat (length [8 :: u8])) = Some (True, h1) \<and>
    hsh_inv h1 F1 L1 \<and> hsh_lookup h1 L1 [101] = Some [8] \<and>
    hsh_del h1 [101] (of_nat (length [101 :: u8])) = Some (True, h2) \<and>
    hsh_inv h2 F2 L2 \<and> hsh_lookup h2 L2 [101] = Some [7]"
proof -
  obtain h0 where h0: "hsh_inv h0 [0, 1, 2, 3] []" "shape h0 = (4, 8, 4)" "cs_version (ch_cs h0) = 1"
    "\<forall>p < 4. entries h0 [] p = None"
    using small_hsh by blast
  have scan: "scan h hash = [hash mod 4, (hash mod 4 + 1) mod 4, ((hash mod 4 + 1) mod 4 + 1) mod 4,
      (((hash mod 4 + 1) mod 4 + 1) mod 4 + 1) mod 4]" if "shape h = (4, 8, 4)" for h hash
  proof -
    have "unat (ch_sz h) = Suc (Suc (Suc (Suc 0)))" using that by (simp add: shape_def)
    then show ?thesis unfolding scan_def by (simp only: probes.simps) (use that in \<open>simp add: shape_def\<close>)
  qed
  have sz: "ch_sz h = 4" "cs_blockSize (ch_cs h) = 8" if "shape h = (4, 8, 4)" for h
    using that by (simp_all add: shape_def)
  have c: "ceil_div (Suc (Suc 0)) 8 = 1" by (simp add: ceil_div_def)
  (* Put [97] in its home slot 0. *)
  have st0: "storable (ch_cs h0) [0, 1, 2, 3] [97] [5]"
    using h0(3) sz [OF h0(2)] c by (simp add: storable_def)
  obtain h1 F1 L1 p1 where h1: "hsh_inv h1 F1 L1" "shape h1 = (4, 8, 4)" "cs_version (ch_cs h1) = 2"
      "3 \<le> length F1"
    and p1: "find (\<lambda>p. entries h0 [] p = None \<or> tbl_key (entries h0 []) p = Some [97]) (scan h0 (HashBytes [97])) = Some p1"
    and e1: "\<forall>q < 4. entries h1 L1 q = ((entries h0 [])(p1 \<mapsto> ([97], [5]))) q"
    using hsh_put_entries [OF h0(1) st0] h0(2,3) sz [OF h0(2)] c by auto
  have "p1 = 0" using p1 h0(4) by (simp add: scan [OF h0(2)] small_homes)
  then have e1: "\<forall>q < 4. entries h1 L1 q = (if q = 0 then Some ([97], [5]) else None)"
    using e1 h0(4) by simp
  (* Put [101], which has the same home, in slot 1. *)
  have st1: "storable (ch_cs h1) F1 [101] [7]"
    using h1(3,4) sz [OF h1(2)] c by (simp add: storable_def)
  obtain h2 F2 L2 p2 where h2: "hsh_inv h2 F2 L2" "shape h2 = (4, 8, 4)" "cs_version (ch_cs h2) = 3"
      "2 \<le> length F2"
    and p2: "find (\<lambda>p. entries h1 L1 p = None \<or> tbl_key (entries h1 L1) p = Some [101]) (scan h1 (HashBytes [101])) = Some p2"
    and e2: "\<forall>q < 4. entries h2 L2 q = ((entries h1 L1)(p2 \<mapsto> ([101], [7]))) q"
    using hsh_put_entries [OF h1(1) st1] h1(2-4) sz [OF h1(2)] c by fastforce
  have "p2 = 1" using p2 e1 by (simp add: scan [OF h1(2)] small_homes tbl_key_def)
  then have e2: "\<forall>q < 4. entries h2 L2 q =
      (if q = 0 then Some ([97], [5]) else if q = 1 then Some ([101], [7]) else None)"
    using e1 e2 by simp
  (* Delete [97]: slot 0 is DELETED. *)
  have "find (\<lambda>p. tbl_key (entries h2 L2) p = Some [97]) (butlast (scan h2 (HashBytes [97]))) = Some 0"
    using e2 by (simp add: scan [OF h2(2)] small_homes tbl_key_def)
  then obtain h3 F3 L3 where h3: "hsh_inv h3 F3 L3" "shape h3 = (4, 8, 4)" "cs_version (ch_cs h3) = 3"
      "2 \<le> length F3" and e3: "\<forall>q < 4. entries h3 L3 q = ((entries h2 L2)(0 := None)) q"
    using hsh_del_entries [OF h2(1), of "[97]"] h2(2-4) sz [OF h2(2)] by fastforce
  have e3: "\<forall>q < 4. entries h3 L3 q = (if q = 1 then Some ([101], [7]) else None)"
    using e2 e3 by simp
  have st3: "storable (ch_cs h3) F3 [101] [8]"
    using h3(3,4) sz [OF h3(2)] c by (simp add: storable_def)
  have "entries h3 L3 (HashBytes [101] mod ch_sz h3) = None"
    using e3 sz [OF h3(2)] by (simp add: small_homes)
  moreover have "hsh_lookup h3 L3 [101] = Some [7]"
    using e3 by (simp add: hsh_lookup_def scan [OF h3(2)] small_homes)
  moreover have "2 \<le> unat (ch_sz h3)" using sz [OF h3(2)] by simp
  ultimately show ?thesis
    using put_del_resurrects_old_value [OF h3(1) st3] by blast
qed

section \<open>Properties of the database\<close>

text \<open>The owner's constructor makes an empty database, ready for \<open>2 ^ 32 - 1\<close> puts.\<close>

theorem simdb_new_is_empty:
  assumes "4 < bs" and "0 < unat cnt" and "length lmem = unat cnt" and "length bmem = unat cnt * unat bs"
    and "unat cnt * unat bs < 2 ^ 32" and "unat cnt \<le> length vmem"
    and "dp_sz P = cnt" and "dp_bs P = bs"
  shows "\<exists>db. simdb_init bs cnt lmem bmem vmem = Some db \<and> db_rep P db Map.empty (2 ^ 32 - 1)"
  using assms by (rule simdb_init_rep)

theorem simdb_new_is_empty_witness:
  "\<exists>db. simdb_init 8 4 (replicate 4 0) (replicate 32 0) (replicate 4 0) = Some db \<and>
    db_rep small_params db Map.empty (2 ^ 32 - 1)"
  by (rule simdb_new_is_empty) (simp_all add: small_params_def)

text \<open>A value put under a key is what \<open>get\<close> returns for that key; every other key keeps its value.\<close>

theorem simdb_get_after_put:
  assumes "db_rep P db m (Suc n)" and "db_fits P k v"
  shows "\<exists>db'. sd_put db k v = Some (True, db') \<and> db_rep P db' (m(k \<mapsto> v)) n \<and>
    sd_get_str db' k = Some (v, db') \<and>
    (\<forall>k'. db_key_ok P k' \<longrightarrow> k' \<noteq> k \<longrightarrow>
      sd_get_str db' k' = Some (case m k' of None \<Rightarrow> [] | Some x \<Rightarrow> x, db'))"
proof -
  obtain db' where put: "sd_put db k v = Some (True, db')" and rep: "db_rep P db' (m(k \<mapsto> v)) n"
    using db16.put_ok [OF assms] by blast
  have get: "sd_get_str db' x = Some (case (m(k \<mapsto> v)) x of None \<Rightarrow> [] | Some y \<Rightarrow> y, db')"
    if "db_key_ok P x" for x
    using db_rep_inv [OF rep] sd_get_str_lookup [of db' _ _ x] db_key [OF that] by fastforce
  have "db_key_ok P k" using assms(2) by (simp add: db_fits_def)
  with put rep get show ?thesis by (intro exI [of _ db']) auto
qed

theorem simdb_get_after_put_witness:
  "\<exists>db db'. db_rep small_params db [[97] \<mapsto> [1, 2]] (2 ^ 32 - 2) \<and>
    sd_put db [98] [3] = Some (True, db') \<and> sd_get_str db' [98] = Some ([3], db') \<and>
    sd_get_str db' [97] = Some ([1, 2], db')"
proof -
  obtain db where "db_rep small_params db [[97] \<mapsto> [1, 2]] (2 ^ 32 - 2)" using small_rep by blast
  moreover from this have "db_rep small_params db [[97] \<mapsto> [1, 2]] (Suc (2 ^ 32 - 3))" by simp
  moreover have "db_fits small_params [98] [3]" by (rule small_fits) simp_all
  ultimately show ?thesis
    using simdb_get_after_put [of small_params db "[[97] \<mapsto> [1, 2]]" "2 ^ 32 - 3" "[98]" "[3]"] small_keys(1)
    by fastforce
qed

text \<open>Deleting a key says whether it was there, and afterwards it is not; every other key keeps its
  value.\<close>

theorem simdb_get_after_del:
  assumes "db_rep P db m n" and "db_key_ok P k"
  shows "\<exists>db'. sd_del db k = Some (m k \<noteq> None, db') \<and> db_rep P db' (m(k := None)) n \<and>
    (\<forall>k'. db_key_ok P k' \<longrightarrow>
      sd_get_str db' k' = Some (if k' = k then [] else case m k' of None \<Rightarrow> [] | Some x \<Rightarrow> x, db'))"
proof -
  obtain db' where del: "sd_del db k = Some (m k \<noteq> None, db')" and rep: "db_rep P db' (m(k := None)) n"
    using db16.del_ok [OF assms] by blast
  have get: "sd_get_str db' x = Some (case (m(k := None)) x of None \<Rightarrow> [] | Some y \<Rightarrow> y, db')"
    if "db_key_ok P x" for x
    using db_rep_inv [OF rep] sd_get_str_lookup [of db' _ _ x] db_key [OF that] by fastforce
  show ?thesis using del rep get by (intro exI [of _ db']) auto
qed

theorem simdb_get_after_del_witness:
  "\<exists>db db'. db_rep small_params db [[97] \<mapsto> [1, 2]] (2 ^ 32 - 2) \<and>
    sd_del db [97] = Some (True, db') \<and> sd_get_str db' [97] = Some ([], db')"
proof -
  obtain db where "db_rep small_params db [[97] \<mapsto> [1, 2]] (2 ^ 32 - 2)" using small_rep by blast
  then show ?thesis
    using simdb_get_after_del [of small_params db "[[97] \<mapsto> [1, 2]]" "2 ^ 32 - 2" "[97]"] small_keys(1)
    by fastforce
qed

text \<open>C6. The database of one process answers as a map, for any sequence of puts, gets and deletes that keeps
  to these conditions, and stands for the resulting map afterwards. The keys used are from a finite set
  in which no two have the same home in the table, are not empty, and their lengths are not multiples
  of the block size; a value is not empty and takes with its key at most \<open>dp_chain\<close> blocks, of which the
  table has room for one more value than there are keys; and the puts over the database's life are
  fewer than \<open>2 ^ 32\<close>, the version's wrap-around. Without them the answers can differ: for keys that
  share a run of slots at the end of this theory, for the lengths in the block store.\<close>

theorem db_is_a_map:
  assumes "db_rep P db m n" and "list_all (op_fits (db_key_ok P) (db_fits P)) cs"
    and "sum_list (map op_puts cs) \<le> n"
  shows "\<exists>db'. kv_run sd_put sd_get_str sd_del db cs = Some (fst (map_run m cs), db') \<and>
    db_rep P db' (snd (map_run m cs)) (n - sum_list (map op_puts cs))"
  using assms db_str.run_ok [of P db m cs "n - sum_list (map op_puts cs)"] by simp

theorem db_is_a_map_witness:
  "\<exists>db db'. db_rep small_params db Map.empty (2 ^ 32 - 1) \<and>
    kv_run sd_put sd_get_str sd_del db
      [Op_put [97] [1, 2], Op_put [98] [3], Op_put [97] [4], Op_get [97], Op_del [97], Op_get [97], Op_get [98]] =
      Some ([Res_done True, Res_done True, Res_done True, Res_value [4], Res_done True, Res_value [],
        Res_value [3]], db')"
proof -
  obtain db where "db_rep small_params db Map.empty (2 ^ 32 - 1)" using small_db_rep by blast
  moreover from db_is_a_map [OF this, of "[Op_put [97] [1, 2], Op_put [98] [3], Op_put [97] [4],
    Op_get [97], Op_del [97], Op_get [97], Op_get [98]]"] small_keys small_fits
  have "\<exists>db'. kv_run sd_put sd_get_str sd_del db
      [Op_put [97] [1, 2], Op_put [98] [3], Op_put [97] [4], Op_get [97], Op_del [97], Op_get [97], Op_get [98]] =
      Some ([Res_done True, Res_done True, Res_done True, Res_value [4], Res_done True, Res_value [],
        Res_value [3]], db')" by fastforce
  ultimately show ?thesis by blast
qed

text \<open>A vector of elements of \<open>ts\<close> bytes read from the database has as many elements as the value has
  bytes, and starts with the value; it is empty when the key is not there.\<close>

theorem simdb_get_vec_size:
  assumes "db_rep P db m n" and "db_key_ok P k" and "1 \<le> ts"
  shows "\<exists>x. sd_get_vec ts db k = Some (x, db) \<and>
    (case m k of None \<Rightarrow> x = [] | Some v \<Rightarrow> take (length v) x = v \<and> length x = length v * ts)"
proof -
  obtain F L where "hsh_inv (sd_ch db) F L" "m = hsh_lookup (sd_ch db) L"
    using db_rep_inv [OF assms(1)] by blast
  then show ?thesis
    using sd_get_vec_lookup [of db F L k ts] db_key [OF assms(2)] assms(3) by (auto split: option.splits)
qed

theorem simdb_get_vec_size_witness:
  "\<exists>db x. sd_get_vec 4 db [97] = Some (x, db) \<and> take 2 x = [1, 2] \<and> length x = 8"
proof -
  obtain db where "db_rep small_params db [[97] \<mapsto> [1, 2]] (2 ^ 32 - 2)" using small_rep by blast
  from simdb_get_vec_size [OF this small_keys(1), of 4] show ?thesis
    by (auto simp: numeral_2_eq_2)
qed

text \<open>C32. A key in the last slot of its probe run can be read but not deleted. Whenever every other slot of
  the run is in use by other keys, a put stores its key in that last slot and succeeds, a get returns
  the value, but a delete answers that there is no such key and changes nothing.\<close>

theorem del_misses_last_slot:
  assumes inv: "hsh_inv (sd_ch db) F L" and st: "storable (ch_cs (sd_ch db)) F key val"
    and used: "\<forall>p \<in> set (butlast (scan (sd_ch db) (HashBytes key))).
      \<exists>k. tbl_key (entries (sd_ch db) L) p = Some k \<and> k \<noteq> key"
  shows "\<exists>db'. sd_put db key val = Some (True, db') \<and> sd_get_str db' key = Some (val, db') \<and>
    sd_del db' key = Some (False, db')"
proof -
  let ?h = "sd_ch db" and ?e = "entries (sd_ch db) L"
  have wf: "hsh_wf ?h" using inv by (simp add: hsh_inv_def)
  have key: "key \<noteq> []" "length key < 2 ^ 32" using st by (auto simp: storable_def)
  obtain h' F' L' p where put: "hsh_put ?h key (of_nat (length key)) val (of_nat (length val)) = Some (True, h')"
    and inv': "hsh_inv h' F' L'" and sh: "shape h' = shape ?h"
    and p: "find (\<lambda>p. ?e p = None \<or> tbl_key ?e p = Some key) (scan ?h (HashBytes key)) = Some p"
    and e: "\<forall>q < ch_sz ?h. entries h' L' q = (?e(p \<mapsto> (key, val))) q"
    using hsh_put_entries [OF inv st] by blast
  have p': "p \<notin> set (butlast (scan ?h (HashBytes key)))" using p used by (auto simp: find_Some_iff tbl_key_def)
  have "tbl_key (entries h' L') q \<noteq> Some key" if "q \<in> set (butlast (scan ?h (HashBytes key)))" for q
  proof -
    have "q \<noteq> p" "q < ch_sz ?h" using that p' scan_set [OF wf, of "HashBytes key"] by (auto dest: in_set_butlastD)
    with e used that show ?thesis by (auto simp: tbl_key_def)
  qed
  then have "find (\<lambda>p. tbl_key (entries h' L') p = Some key) (butlast (scan ?h (HashBytes key))) = None"
    by (simp add: find_None_iff)
  then have del: "hsh_del h' key (of_nat (length key)) = Some (False, h')"
    using hsh_del_entries [OF inv' key] by (simp add: shape_scan [OF sh])
  have "hsh_lookup h' L' key = Some val"
    unfolding lookup_cong [OF wf sh e] by (rule tbl_get_put_same [OF p])
  then show ?thesis using put del sd_get_str_lookup [of "db\<lparr>sd_ch := h'\<rparr>" F' L' key] inv' key
    by (simp add: sd_put_def sd_del_def u32len_def)
qed

text \<open>With two slots, \<open>c\<close> has the same home as \<open>a\<close>, finds it in use and goes to the other.\<close>

theorem del_misses_last_slot_witness:
  "\<exists>db F L db'. hsh_inv (sd_ch db) F L \<and> hsh_lookup (sd_ch db) L (map of_char ''a'') = Some [1] \<and>
    sd_put db (map of_char ''c'') [3] = Some (True, db') \<and> sd_get_str db' (map of_char ''c'') = Some ([3], db') \<and>
    sd_del db' (map of_char ''c'') = Some (False, db')"
proof -
  obtain s where s: "str_inv s [0, 1] []" "cs_version s = 1" "cs_blockSize s = 8" "length (cs_bls s) = 2"
    using CncrStr_init_inv [of 8 2 "replicate 2 0" "replicate 16 0"] by (auto simp: upt_rec)
  obtain h where h: "hsh_inv h [0, 1] []" "ch_cs h = s" "ch_sz h = 2" "\<forall>p < 2. entries h [] p = None"
    using hsh_init_inv [OF s(1), of 2 "replicate 2 0"] s by auto
  have scan: "scan g hash = [hash mod 2, (hash mod 2 + 1) mod 2]" if "ch_sz g = 2" for g hash
  proof -
    have "unat (ch_sz g) = Suc (Suc 0)" using that by simp
    then show ?thesis unfolding scan_def by (simp only: probes.simps) (use that in simp)
  qed
  have st: "storable s [0, 1] [97] [1]" using s by (simp add: storable_def ceil_div_def)
  obtain h1 F1 L1 p where h1: "hsh_inv h1 F1 L1" "shape h1 = shape h" "cs_version (ch_cs h1) = 2" "1 \<le> length F1"
    and p: "find (\<lambda>p. entries h [] p = None \<or> tbl_key (entries h []) p = Some [97]) (scan h (HashBytes [97])) = Some p"
    and e: "\<forall>q < 2. entries h1 L1 q = ((entries h [])(p \<mapsto> ([97], [1]))) q"
    using hsh_put_entries [OF h(1), of "[97]" "[1]"] st h(2,3) s by (auto simp: ceil_div_def)
  have sz: "ch_sz h1 = 2" "cs_blockSize (ch_cs h1) = 8" using h1(2) h(2,3) s(3) by (simp_all add: shape_def)
  have "p = 0" using p h(4) by (simp add: scan [OF h(3)] two_homes)
  then have e: "entries h1 L1 0 = Some ([97], [1])" using e by simp
  have "\<forall>p \<in> set (butlast (scan h1 (HashBytes [99]))). \<exists>k. tbl_key (entries h1 L1) p = Some k \<and> k \<noteq> [99]"
    using e by (simp add: scan [OF sz(1)] two_homes tbl_key_def)
  moreover have "storable (ch_cs h1) F1 [99] [3]" using h1(3,4) sz by (simp add: storable_def ceil_div_def)
  moreover have "hsh_lookup h1 L1 [97] = Some [1]" using e by (simp add: hsh_lookup_def scan [OF sz(1)] two_homes)
  ultimately show ?thesis
    using del_misses_last_slot [of "\<lparr>sd_ch = h1, sd_nxtChIdx = 0, sd_blkCnt = 2\<rparr>" F1 L1 "[99]" "[3]"] h1(1)
    by (intro exI [of _ "\<lparr>sd_ch = h1, sd_nxtChIdx = 0, sd_blkCnt = 2\<rparr>"]) auto
qed

end
