(* ===== verification/Sc_Log.thy ===== *)
theory Sc_Log
  imports Main
begin

text \<open>
  \<open>libs/log/src/log.cpp\<close>: the parser of the \<open>SC_LOG\<close> control string. \<open>sc_report_handler\<close> belongs to
  SystemC, so the model of a run is the list of calls it makes on that class and the lines it prints;
  whether a log file name is set (\<open>get_log_file_name() != NULL\<close>) is a parameter, a function of the
  calls made so far. The actions \<open>SC_DEFAULT_*_ACTIONS\<close> are kept symbolic.
\<close>

section \<open>Calls and constants of the report handler\<close>

datatype severity = SC_INFO | SC_WARNING | SC_ERROR | SC_FATAL

datatype sc_actions = SC_DO_NOTHING | SC_DEFAULT_INFO_ACTIONS | SC_DEFAULT_WARNING_ACTIONS |
  SC_DEFAULT_ERROR_ACTIONS | SC_DEFAULT_FATAL_ACTIONS

datatype log_call = set_log_file_name string | set_verbosity_level int |
  set_actions severity sc_actions | set_msg_actions string severity sc_actions | cout string

primrec severity_int :: "severity \<Rightarrow> int" where
  "severity_int SC_INFO = 0"
| "severity_int SC_WARNING = 1"
| "severity_int SC_ERROR = 2"
| "severity_int SC_FATAL = 3"

text \<open>The severities in the order of the enumeration.\<close>

instantiation severity :: linorder
begin

definition less_eq_severity :: "severity \<Rightarrow> severity \<Rightarrow> bool" where
  "less_eq_severity s t \<longleftrightarrow> severity_int s \<le> severity_int t"

definition less_severity :: "severity \<Rightarrow> severity \<Rightarrow> bool" where
  "less_severity s t \<longleftrightarrow> severity_int s < severity_int t"

instance
proof
  show "s \<le> t \<Longrightarrow> t \<le> s \<Longrightarrow> s = t" for s t :: severity
    by (cases s; cases t) (simp_all add: less_eq_severity_def)
qed (auto simp: less_eq_severity_def less_severity_def)

end

lemma severity_le [simp]: "s \<le> t \<longleftrightarrow> severity_int s \<le> severity_int t"
  by (simp add: less_eq_severity_def)

section \<open>Strings\<close>

text \<open>\<open>getline(ss, token, delim)\<close> on a stream that holds \<open>s\<close>: the token and what is left. It fails on
  an exhausted stream, so a delimiter at the end adds no empty token.\<close>

definition getline :: "char \<Rightarrow> string \<Rightarrow> string \<times> string" where
  "getline delim s = (takeWhile (\<lambda>c. c \<noteq> delim) s, drop 1 (dropWhile (\<lambda>c. c \<noteq> delim) s))"

lemma getline_shorter: "getline delim (c # s) = (token, rest) \<Longrightarrow> length rest < Suc (length s)"
  using length_dropWhile_le [of "\<lambda>x. x \<noteq> delim" s] by (auto simp: getline_def)

function split :: "char \<Rightarrow> string \<Rightarrow> string list" where
  "split delim [] = []"
| "split delim (c # s) = (let (token, rest) = getline delim (c # s) in token # split delim rest)"
  by pat_completeness auto
termination
proof (relation "measure (\<lambda>(delim, s). length s)", simp)
  fix delim c s token rest x y
  assume "x = getline delim (c # s)" "(token, y) = x"
  then show "((delim, y), delim, c # s) \<in> measure (\<lambda>(delim, s). length s)"
    using getline_shorter [of delim c s token y] by simp
qed

definition isspace :: "char \<Rightarrow> bool" where
  "isspace c \<longleftrightarrow> c \<in> {CHR '' '', CHR 0x09, CHR 0x0A, CHR 0x0B, CHR 0x0C, CHR 0x0D}"

definition trim :: "string \<Rightarrow> string" where
  "trim s = (let it = dropWhile isspace s in rev (dropWhile isspace (rev it)))"

section \<open>One setting\<close>

definition verbosity_lvl :: "string \<Rightarrow> int" where
  "verbosity_lvl level =
    (let v = -1;
         v = (if level = ''sc_none'' then 0 else v);
         v = (if level = ''sc_low'' then 100 else v);
         v = (if level = ''sc_medium'' then 200 else v);
         v = (if level = ''sc_high'' then 300 else v);
         v = (if level = ''sc_full'' then 400 else v);
         v = (if level = ''sc_debug'' then 500 else v)
     in v)"

definition report_lvl :: "string \<Rightarrow> int" where
  "report_lvl level =
    (let v = -1;
         v = (if level = ''info'' then severity_int SC_INFO else v);
         v = (if level = ''warning'' then severity_int SC_WARNING else v);
         v = (if level = ''error'' then severity_int SC_ERROR else v);
         v = (if level = ''fatal'' then severity_int SC_FATAL else v);
         v = (if level = ''enable'' then 4 else v);
         v = (if level = ''disable'' then 5 else v)
     in v)"

text \<open>The array \<open>sc_actions[4]\<close> of the code, in the order info, warning, error, fatal.\<close>

definition sc_actions_of :: "int \<Rightarrow> sc_actions list" where
  "sc_actions_of lvl =
    (let acts = [if lvl \<le> severity_int SC_INFO then SC_DEFAULT_INFO_ACTIONS else SC_DO_NOTHING,
                 if lvl \<le> severity_int SC_WARNING then SC_DEFAULT_WARNING_ACTIONS else SC_DO_NOTHING,
                 if lvl \<le> severity_int SC_ERROR then SC_DEFAULT_ERROR_ACTIONS else SC_DO_NOTHING,
                 if lvl \<le> severity_int SC_FATAL then SC_DEFAULT_FATAL_ACTIONS else SC_DO_NOTHING];
         acts = (if lvl = 4 then [SC_DEFAULT_INFO_ACTIONS, SC_DEFAULT_WARNING_ACTIONS,
                   SC_DEFAULT_ERROR_ACTIONS, SC_DEFAULT_FATAL_ACTIONS] else acts);
         acts = (if lvl = 5 then [SC_DO_NOTHING, SC_DO_NOTHING, SC_DO_NOTHING, SC_DO_NOTHING] else acts)
     in acts)"

definition set_sc_report :: "string \<Rightarrow> string \<Rightarrow> nat \<Rightarrow> log_call list" where
  "set_sc_report msg level t =
    (if msg = ''outfile'' then
       (if t = 3 then [set_log_file_name level, cout (''Set SC LOG file to '' @ level)]
        else if t = 1 then [set_log_file_name ''outfile'', cout (''Set SC LOG file to default '' @ ''outfile'')]
        else [cout ''Error: Should not come here''])
     else if msg = ''verbosity_level'' then
       (if verbosity_lvl level = -1 then [cout (''Invalid debug verbosity '' @ level @ '' ...Ignore it'')]
        else [set_verbosity_level (verbosity_lvl level), cout (''Set debug verbosity to '' @ level)])
     else if report_lvl level = -1 then [cout (''Invalid report level '' @ level @ '' ...Ignore it'')]
     else
       (let acts = sc_actions_of (report_lvl level) in
        if t = 0 \<or> t = 1 then [cout ''Error: Invalid control string. Should not come here'']
        else if t = 2 then
          [set_actions SC_INFO (acts ! 0), set_actions SC_WARNING (acts ! 1),
           set_actions SC_ERROR (acts ! 2), set_actions SC_FATAL (acts ! 3)]
        else if t = 3 then
          [set_msg_actions msg SC_INFO (acts ! 0), set_msg_actions msg SC_WARNING (acts ! 1),
           set_msg_actions msg SC_ERROR (acts ! 2), set_msg_actions msg SC_FATAL (acts ! 3)]
        else []))"

section \<open>The control string\<close>

definition format_error :: "string \<Rightarrow> string \<Rightarrow> log_call list" where
  "format_error val s = [cout (''Error SC_LOG format '' @ [CHR 0x27] @ val @ [CHR 0x27] @ '' in '' @ s @ '' ...Ignore it'')]"

text \<open>The type bits of a trimmed message and level.\<close>

definition item_type :: "string \<Rightarrow> string \<Rightarrow> nat" where
  "item_type msg_str level_str = (if msg_str \<noteq> '''' then 1 else 0) + (if level_str \<noteq> '''' then 2 else 0)"

text \<open>The body of the loop over the parts between semicolons.\<close>

definition log_item :: "string \<Rightarrow> string \<Rightarrow> log_call list" where
  "log_item s val =
    (if CHR '':'' \<notin> set val then format_error val s
     else
       (let info = split (CHR '':'') val in
        if info = [] then []
        else
          (let info = (if length info = 1 then info @ [''''] else info) in
           if length info = 2 then
             (let msg_str = trim (info ! 0); level_str = trim (info ! 1)
              in set_sc_report msg_str level_str (item_type msg_str level_str))
           else format_error val s)))"

definition log_parse :: "(log_call list \<Rightarrow> bool) \<Rightarrow> string \<Rightarrow> log_call list" where
  "log_parse has_log_file_name s =
    (if s = '''' then [cout ''Warning: No SC_LOG env Here'']
     else
       (let calls = cout (''sc_log control string: ['' @ s @ '']'') #
              concat (map (log_item s) (split (CHR '';'') s)) in
        if has_log_file_name calls then calls
        else calls @ [set_log_file_name ''outfile'', cout (''Set SC LOG file to default '' @ ''outfile'')]))"

section \<open>Splitting and trimming\<close>

text \<open>The fields of a string joined by a delimiter that none of them contains.\<close>

fun join :: "char \<Rightarrow> string list \<Rightarrow> string" where
  "join delim [] = []"
| "join delim [x] = x"
| "join delim (x # y # ys) = x @ delim # join delim (y # ys)"

lemma before_delim: "delim \<notin> set x \<Longrightarrow> takeWhile (\<lambda>c. c \<noteq> delim) x = x \<and> dropWhile (\<lambda>c. c \<noteq> delim) x = []
  \<and> takeWhile (\<lambda>c. c \<noteq> delim) (x @ delim # s) = x \<and> dropWhile (\<lambda>c. c \<noteq> delim) (x @ delim # s) = delim # s"
  by (induction x) auto

lemma dropWhile_none: "s = [] \<or> \<not> P (hd s) \<Longrightarrow> dropWhile P s = s"
  by (cases s) auto

lemma split_step: "delim \<notin> set x \<Longrightarrow> split delim (x @ delim # s) = x # split delim s"
  using before_delim [of delim x s] by (cases x) (auto simp: getline_def)

lemma split_last: "delim \<notin> set x \<Longrightarrow> x \<noteq> [] \<Longrightarrow> split delim x = [x]"
  using before_delim [of delim x] by (cases x) (auto simp: getline_def)

lemma split_join:
  "\<forall>x \<in> set xs. delim \<notin> set x \<Longrightarrow> xs \<noteq> [] \<Longrightarrow> last xs \<noteq> [] \<Longrightarrow> split delim (join delim xs) = xs"
  by (induction delim xs rule: join.induct) (simp_all add: split_step split_last)

lemma join_Nil: "xs \<noteq> [] \<Longrightarrow> last xs \<noteq> [] \<Longrightarrow> join delim xs \<noteq> []"
  by (induction delim xs rule: join.induct) simp_all

text \<open>The fields of a part with one colon: an empty level is dropped by \<open>split\<close> and put back by the code.\<close>

lemma log_item_pair:
  assumes "CHR '':'' \<notin> set m" and "CHR '':'' \<notin> set l"
  shows "log_item s (m @ CHR '':'' # l) = set_sc_report (trim m) (trim l) (item_type (trim m) (trim l))"
  using assms by (cases "l = []") (simp_all add: log_item_def split_step split_last Let_def)

lemma trim_Nil: "trim s = [] \<longleftrightarrow> (\<forall>c \<in> set s. isspace c)"
proof -
  have "trim s = [] \<longleftrightarrow> (\<forall>c \<in> set (dropWhile isspace s). isspace c)" by (simp add: trim_def Let_def)
  also have "\<dots> \<longleftrightarrow> dropWhile isspace s = []"
    using hd_dropWhile [of isspace s] by (cases "dropWhile isspace s") (auto dest: set_dropWhileD)
  finally show ?thesis by simp
qed

lemma trim_id: "s = [] \<or> \<not> isspace (hd s) \<and> \<not> isspace (last s) \<Longrightarrow> trim s = s"
  by (auto simp: trim_def dropWhile_none hd_rev)

text \<open>\<open>trim\<close> removes blanks put around a string that neither begins nor ends with one.\<close>

lemma trim_padded:
  assumes "\<forall>c \<in> set a. isspace c" and "\<forall>c \<in> set b. isspace c"
    and "s \<noteq> []" and "\<not> isspace (hd s)" and "\<not> isspace (last s)"
  shows "trim (a @ s @ b) = s"
proof -
  have "dropWhile isspace (a @ s @ b) = s @ b" using assms(1,3,4) by (cases s) (simp_all add: dropWhile_append2)
  moreover have "dropWhile isspace (rev b @ rev s) = rev s"
  proof -
    have "dropWhile isspace (rev s) = rev s" using assms(3,5) by (intro dropWhile_none) (simp add: hd_rev)
    then show ?thesis using assms(2) dropWhile_append2 [of "rev b" isspace "rev s"] by simp
  qed
  ultimately show ?thesis by (simp add: trim_def)
qed

lemma log_parse_join:
  assumes "\<forall>v \<in> set vals. CHR '';'' \<notin> set v" and "vals \<noteq> []" and "last vals \<noteq> []"
    and "s = join (CHR '';'') vals"
  shows "\<exists>tail. log_parse named s =
      cout (''sc_log control string: ['' @ s @ '']'') # concat (map (log_item s) vals) @ tail \<and>
    (tail = [] \<or> tail = [set_log_file_name ''outfile'', cout ''Set SC LOG file to default outfile''])"
proof -
  have "s \<noteq> []" "split (CHR '';'') s = vals" using assms by (simp_all add: join_Nil split_join)
  then show ?thesis by (simp add: log_parse_def Let_def)
qed

section \<open>What a setting does\<close>

text \<open>The report levels of the control string, and the actions each promises for a severity.\<close>

datatype level = At severity | Enable | Disable

primrec level_name :: "level \<Rightarrow> string" where
  "level_name (At sv) = (case sv of SC_INFO \<Rightarrow> ''info'' | SC_WARNING \<Rightarrow> ''warning''
     | SC_ERROR \<Rightarrow> ''error'' | SC_FATAL \<Rightarrow> ''fatal'')"
| "level_name Enable = ''enable''"
| "level_name Disable = ''disable''"

primrec default_actions :: "severity \<Rightarrow> sc_actions" where
  "default_actions SC_INFO = SC_DEFAULT_INFO_ACTIONS"
| "default_actions SC_WARNING = SC_DEFAULT_WARNING_ACTIONS"
| "default_actions SC_ERROR = SC_DEFAULT_ERROR_ACTIONS"
| "default_actions SC_FATAL = SC_DEFAULT_FATAL_ACTIONS"

primrec reported :: "level \<Rightarrow> severity \<Rightarrow> bool" where
  "reported (At t) sv \<longleftrightarrow> t \<le> sv"
| "reported Enable sv \<longleftrightarrow> True"
| "reported Disable sv \<longleftrightarrow> False"

definition level_actions :: "level \<Rightarrow> severity \<Rightarrow> sc_actions" where
  "level_actions l sv = (if reported l sv then default_actions sv else SC_DO_NOTHING)"

definition severities :: "severity list" where
  "severities = [SC_INFO, SC_WARNING, SC_ERROR, SC_FATAL]"

lemma report_lvl_names [simp]: "report_lvl ''info'' = 0" "report_lvl ''warning'' = 1" "report_lvl ''error'' = 2"
  "report_lvl ''fatal'' = 3" "report_lvl ''enable'' = 4" "report_lvl ''disable'' = 5"
  by (simp_all add: report_lvl_def)

lemma sc_actions_of_level: "sc_actions_of (report_lvl (level_name l)) = map (level_actions l) severities"
proof (cases l)
  case (At sv)
  then show ?thesis
    by (cases sv) (simp_all add: sc_actions_of_def severities_def level_actions_def)
qed (simp_all add: sc_actions_of_def severities_def level_actions_def)

lemma report_lvl_valid: "report_lvl (level_name l) \<noteq> -1"
  by (cases l) (simp_all split: severity.split)

lemma level_name_trim: "trim (level_name l) = level_name l" "level_name l \<noteq> []"
  "CHR '':'' \<notin> set (level_name l)" "CHR '';'' \<notin> set (level_name l)"
proof -
  show "trim (level_name l) = level_name l"
    by (rule trim_id) (cases l; simp add: isspace_def split: severity.split)
  show "level_name l \<noteq> []" "CHR '':'' \<notin> set (level_name l)" "CHR '';'' \<notin> set (level_name l)"
    by (cases l; simp split: severity.split)+
qed

lemma set_sc_report_level: "msg \<noteq> ''outfile'' \<Longrightarrow> msg \<noteq> ''verbosity_level'' \<Longrightarrow>
  set_sc_report msg (level_name l) (item_type msg (level_name l)) =
    map (\<lambda>sv. (if msg = [] then set_actions else set_msg_actions msg) sv (level_actions l sv)) severities"
  using report_lvl_valid [of l] level_name_trim(2) [of l]
  by (simp add: set_sc_report_def Let_def sc_actions_of_level item_type_def severities_def)

text \<open>The branches of \<open>set_sc_report\<close> that the code marks as unreachable are so.\<close>

definition unreachable :: "log_call set" where
  "unreachable = {cout ''Error: Should not come here'',
     cout ''Error: Invalid control string. Should not come here''}"

lemma set_sc_report_reachable: "set (set_sc_report msg level (item_type msg level)) \<inter> unreachable = {}"
  by (auto simp: set_sc_report_def item_type_def report_lvl_def Let_def unreachable_def)

lemma format_error_reachable: "set (format_error val s) \<inter> unreachable = {}"
  by (simp add: format_error_def unreachable_def)

lemma log_item_reachable: "set (log_item s val) \<inter> unreachable = {}"
  by (simp add: log_item_def Let_def set_sc_report_reachable format_error_reachable)

section \<open>Properties\<close>

text \<open>C23. A control string made of settings \<open>msg:level\<close> with any blanks around them performs exactly
  those settings, in the order written; what may follow is the default log file.\<close>

theorem log_parse_settings:
  assumes "items \<noteq> []" and "s = join (CHR '';'') (map (\<lambda>(m, l). m @ CHR '':'' # l) items)"
    and "\<And>m l. (m, l) \<in> set items \<Longrightarrow> {CHR '';'', CHR '':''} \<inter> (set m \<union> set l) = {}"
  shows "\<exists>tail. log_parse named s = cout (''sc_log control string: ['' @ s @ '']'') #
      concat (map (\<lambda>(m, l). set_sc_report (trim m) (trim l) (item_type (trim m) (trim l))) items) @ tail \<and>
    (tail = [] \<or> tail = [set_log_file_name ''outfile'', cout ''Set SC LOG file to default outfile''])"
proof -
  let ?vals = "map (\<lambda>(m, l). m @ CHR '':'' # l) items"
  have vals: "\<forall>v \<in> set ?vals. CHR '';'' \<notin> set v" using assms(3) by fastforce
  have last: "last ?vals \<noteq> []" using assms(1) by (simp add: last_map case_prod_beta)
  have "map (log_item s) ?vals =
      map (\<lambda>(m, l). set_sc_report (trim m) (trim l) (item_type (trim m) (trim l))) items"
  proof -
    have "log_item s (m @ CHR '':'' # l) = set_sc_report (trim m) (trim l) (item_type (trim m) (trim l))"
      if "(m, l) \<in> set items" for m l
      using assms(3) [OF that] by (intro log_item_pair) auto
    then show ?thesis by auto
  qed
  then show ?thesis using log_parse_join [OF vals _ last assms(2), of named] assms(1) by (simp del: map_map)
qed

theorem log_parse_settings_witness:
  "\<exists>tail. log_parse (\<lambda>cs. True) ''outfile : run.log ;McAdaptor:warning'' =
    cout (''sc_log control string: [outfile : run.log ;McAdaptor:warning]'') #
    [set_log_file_name ''run.log'', cout ''Set SC LOG file to run.log'',
     set_msg_actions ''McAdaptor'' SC_INFO SC_DO_NOTHING,
     set_msg_actions ''McAdaptor'' SC_WARNING SC_DEFAULT_WARNING_ACTIONS,
     set_msg_actions ''McAdaptor'' SC_ERROR SC_DEFAULT_ERROR_ACTIONS,
     set_msg_actions ''McAdaptor'' SC_FATAL SC_DEFAULT_FATAL_ACTIONS] @ tail"
  using log_parse_settings [of "[(''outfile '', '' run.log ''), (''McAdaptor'', ''warning'')]"
      "''outfile : run.log ;McAdaptor:warning''" "\<lambda>cs. True"]
  by (fastforce simp: trim_def isspace_def set_sc_report_def item_type_def report_lvl_def sc_actions_of_def Let_def)

text \<open>A setting of a report level gives the message type (or, without one, all messages) the default
  actions of every severity at or above the level and silences those below; \<open>enable\<close> and \<open>disable\<close> give
  all and none.\<close>

theorem log_item_levels:
  assumes "CHR '':'' \<notin> set m" and "trim m \<noteq> ''outfile''" and "trim m \<noteq> ''verbosity_level''"
  shows "log_item s (m @ '':'' @ level_name l) =
    map (\<lambda>sv. (if \<forall>c \<in> set m. isspace c then set_actions else set_msg_actions (trim m)) sv
      (if reported l sv then default_actions sv else SC_DO_NOTHING)) severities"
  using assms log_item_pair [of m "level_name l" s] set_sc_report_level [of "trim m" l]
  by (simp add: level_name_trim trim_Nil level_actions_def)

theorem log_item_levels_witness: "log_item ''McAdaptor:error'' ''McAdaptor:error'' =
  [set_msg_actions ''McAdaptor'' SC_INFO SC_DO_NOTHING, set_msg_actions ''McAdaptor'' SC_WARNING SC_DO_NOTHING,
   set_msg_actions ''McAdaptor'' SC_ERROR SC_DEFAULT_ERROR_ACTIONS,
   set_msg_actions ''McAdaptor'' SC_FATAL SC_DEFAULT_FATAL_ACTIONS]"
  using log_item_levels [of "''McAdaptor''" "''McAdaptor:error''" "At SC_ERROR"]
  by (simp add: trim_def isspace_def severities_def)

text \<open>Whatever the control string, the branches marked ``should not come here'' are not taken.\<close>

theorem log_parse_reachable:
  "cout ''Error: Should not come here'' \<notin> set (log_parse named s) \<and>
   cout ''Error: Invalid control string. Should not come here'' \<notin> set (log_parse named s)"
proof -
  have "set (concat (map (log_item s) vs)) \<inter> unreachable = {}" for vs
    using log_item_reachable by (induction vs) (simp_all add: Int_Un_distrib2)
  then have "set (log_parse named s) \<inter> unreachable = {}"
    by (simp add: log_parse_def Let_def Int_Un_distrib2) (simp add: unreachable_def)
  then show ?thesis by (auto simp: unreachable_def)
qed

end
