(* ===== verification/Cli_Args.thy ===== *)
theory Cli_Args
  imports Prelude Sc_Log
begin

text \<open>
  The command line of \<open>src/aarch64_toplevel.cpp\<close>: one parser per group of options, each of which scans
  the whole line. A parser is a recursion over the arguments after \<open>argv[0]\<close>; \<open>argv[++i]\<close> takes the
  next one. Leaving by \<open>exit\<close> or by an exception of \<open>std::stoi\<close> that nobody catches is \<open>Inl\<close>.
  The environment written by \<open>setenv\<close> is a map that the parsers pass on.
\<close>

datatype abort = exit_success string | exit_failure string | invalid_argument | out_of_range | runtime_error string

type_synonym 'a run = "abort + 'a"
type_synonym env = "string \<Rightarrow> string option"

section \<open>The usage message\<close>

text \<open>What \<open>showUsage\<close> writes; the FPGA options are only there when the platform is built for AWS
  (\<open>AWS_FPGA_PRESENT\<close>).\<close>

definition tab :: string where "tab = [CHR 0x09]"
definition nl :: string where "nl = [CHR 0x0A]"

definition showUsage :: "bool \<Rightarrow> string \<Rightarrow> string" where
  "showUsage aws name = ''Usage: '' @ name @ '' <option(s)>'' @ nl
    @ ''Options:'' @ nl
    @ tab @ ''-h,--help'' @ tab @ tab @ tab @ ''Show this help message'' @ nl
    @ tab @ ''-c,--conf CONFIGURATION_FILE'' @ tab @ ''Specify the configuration file path''
    @ tab @ ''--cosim'' @ tab @ ''Running with QEMU/RTL co-simulation''
    @ tab @ ''--simv'' @ tab @ ''RTL simv file path. Only required with --cosim option''
    @ tab @ ''--timeout'' @ tab @ ''Qemu wait timeout (simulation time in ns) with vcs. Only required with --cosim option''
    @ tab @ ''--plusargs'' @ tab @ ''rtl simulation args. Only required with --cosim option''
    @ (if aws then
         tab @ ''--fpga'' @ tab @ ''Running with FPGA''
         @ tab @ ''--slot_id'' @ tab @ ''FPGA slot id''
         @ tab @ ''--vender_id'' @ tab @ ''FPGA vender id''
         @ tab @ ''--device_id'' @ tab @ ''FPGA device id''
         @ tab @ ''--msi_mask'' @ tab @ ''FPGA msi mask''
       else [])
    @ nl"

section \<open>Options with one value\<close>

text \<open>\<open>parseArgs\<close>: the configuration file, \<open>-c\<close> or \<open>--conf\<close>; \<open>-h\<close> shows the usage and exits.\<close>

fun parseArgs_loop :: "string \<Rightarrow> string list \<Rightarrow> string \<Rightarrow> string run" where
  "parseArgs_loop usage [] configurationFilePath = Inr configurationFilePath"
| "parseArgs_loop usage (arg # rest) configurationFilePath =
    (if arg = ''-h'' \<or> arg = ''--help'' then Inl (exit_success usage)
     else if arg = ''-c'' \<or> arg = ''--conf'' then
       (case rest of [] \<Rightarrow> Inl (exit_failure ''--conf option requires one argument.'')
        | v # rest' \<Rightarrow> parseArgs_loop usage rest' v)
     else parseArgs_loop usage rest configurationFilePath)"

definition parseArgs :: "bool \<Rightarrow> string list \<Rightarrow> string run" where
  "parseArgs aws argv = parseArgs_loop (showUsage aws (hd argv)) (tl argv) ''''"

text \<open>\<open>parseSimvArgs\<close>: the path of the RTL simulator, and its timeout, which goes to the environment.\<close>

fun parseSimvArgs_loop :: "string list \<Rightarrow> string \<Rightarrow> env \<Rightarrow> (string \<times> env) run" where
  "parseSimvArgs_loop [] simvFilePath e = Inr (simvFilePath, e)"
| "parseSimvArgs_loop (arg # rest) simvFilePath e =
    (if arg = ''--simv'' then
       (case rest of [] \<Rightarrow> Inl (exit_failure ''--simv option requires one argument.'')
        | v # rest' \<Rightarrow> parseSimvArgs_loop rest' v e)
     else if arg = ''--timeout'' then
       (case rest of [] \<Rightarrow> Inl (exit_failure ''--timeout option requires one argument.'')
        | v # rest' \<Rightarrow> parseSimvArgs_loop rest' simvFilePath (e(''COSIM_SHM_TIMEOUT_IN_NS'' \<mapsto> v)))
     else parseSimvArgs_loop rest simvFilePath e)"

definition parseSimvArgs :: "string list \<Rightarrow> env \<Rightarrow> (string \<times> env) run" where
  "parseSimvArgs argv e = parseSimvArgs_loop (tl argv) '''' e"

fun parsePlusArgsArgs_loop :: "string list \<Rightarrow> string \<Rightarrow> env \<Rightarrow> (string \<times> env) run" where
  "parsePlusArgsArgs_loop [] plusargs_str e = Inr (plusargs_str, e)"
| "parsePlusArgsArgs_loop (arg # rest) plusargs_str e =
    (if arg = ''--plusargs'' then
       (case rest of [] \<Rightarrow> Inl (exit_failure ''--plusargs option requires one argument.'')
        | v # rest' \<Rightarrow> parsePlusArgsArgs_loop rest' v (e(''COSIM_PLUS_ARGS'' \<mapsto> v)))
     else parsePlusArgsArgs_loop rest plusargs_str e)"

definition parsePlusArgsArgs :: "string list \<Rightarrow> env \<Rightarrow> (string \<times> env) run" where
  "parsePlusArgsArgs argv e = parsePlusArgsArgs_loop (tl argv) '''' e"

fun getSCLog_loop :: "string list \<Rightarrow> string \<Rightarrow> string run" where
  "getSCLog_loop [] sc_log_str = Inr sc_log_str"
| "getSCLog_loop (arg # rest) sc_log_str =
    (if arg = ''-s'' \<or> arg = ''--sc_log'' then
       (case rest of [] \<Rightarrow> Inl (exit_failure ''--sc_log option requires one argument.'')
        | v # rest' \<Rightarrow> getSCLog_loop rest' v)
     else getSCLog_loop rest sc_log_str)"

definition getSCLog :: "string list \<Rightarrow> string run" where
  "getSCLog argv = getSCLog_loop (tl argv) ''''"

section \<open>Switches\<close>

text \<open>\<open>parseCosimArgs\<close> and \<open>parseDmiArgs\<close> look at every argument, also at the values of options.\<close>

primrec parseCosimArgs_loop :: "string list \<Rightarrow> bool \<Rightarrow> bool \<Rightarrow> bool \<times> bool" where
  "parseCosimArgs_loop [] cosim_en simv = (cosim_en, simv)"
| "parseCosimArgs_loop (arg # rest) cosim_en simv =
    (let cosim_en = (if arg = ''--cosim'' then True else cosim_en);
         simv = (if arg = ''--simv'' then True else simv)
     in parseCosimArgs_loop rest cosim_en simv)"

definition parseCosimArgs :: "string list \<Rightarrow> bool run" where
  "parseCosimArgs argv = (let (cosim_en, simv) = parseCosimArgs_loop (tl argv) False False in
    if \<not> simv \<and> cosim_en then Inl (exit_failure ''Need to set simv file path with --simv option'')
    else Inr cosim_en)"

primrec parseDmiArgs_loop :: "string list \<Rightarrow> bool \<Rightarrow> bool" where
  "parseDmiArgs_loop [] dmi_en = dmi_en"
| "parseDmiArgs_loop (arg # rest) dmi_en =
    parseDmiArgs_loop rest (if arg = ''--dmi'' then True else if arg = ''--dmi_disable'' then False else dmi_en)"

definition parseDmiArgs :: "string list \<Rightarrow> bool" where
  "parseDmiArgs argv = parseDmiArgs_loop (tl argv) True"

section \<open>Integers: \<open>std::stoi(s, nullptr, 0)\<close>\<close>

text \<open>The conversion of the standard library with base 0: blanks, a sign, a prefix that chooses the
  base, then the longest run of digits. No digits is \<open>invalid_argument\<close>, a value that is no \<open>int\<close>
  is \<open>out_of_range\<close>.\<close>

definition digit_val :: "char \<Rightarrow> nat option" where
  "digit_val c = (let n = of_char c :: nat in
     if 48 \<le> n \<and> n \<le> 57 then Some (n - 48)
     else if 97 \<le> n \<and> n \<le> 122 then Some (n - 87)
     else if 65 \<le> n \<and> n \<le> 90 then Some (n - 55)
     else None)"

definition is_digit :: "nat \<Rightarrow> char \<Rightarrow> bool" where
  "is_digit base c = (case digit_val c of None \<Rightarrow> False | Some d \<Rightarrow> d < base)"

definition digits_value :: "nat \<Rightarrow> string \<Rightarrow> nat" where
  "digits_value base ds = foldl (\<lambda>acc c. acc * base + the (digit_val c)) 0 ds"

definition strtol_sign :: "string \<Rightarrow> bool \<times> string" where
  "strtol_sign s = (case s of [] \<Rightarrow> (False, [])
     | c # cs \<Rightarrow> if c = CHR ''-'' then (True, cs) else if c = CHR ''+'' then (False, cs) else (False, s))"

definition strtol_base :: "string \<Rightarrow> nat \<times> string" where
  "strtol_base s =
    (if length s \<ge> 3 \<and> s ! 0 = CHR ''0'' \<and> (s ! 1 = CHR ''x'' \<or> s ! 1 = CHR ''X'') \<and> is_digit 16 (s ! 2)
     then (16, drop 2 s)
     else if s \<noteq> [] \<and> hd s = CHR ''0'' then (8, s) else (10, s))"

definition stoi :: "string \<Rightarrow> int run" where
  "stoi str =
    (let (neg, s) = strtol_sign (dropWhile isspace str);
         (base, s) = strtol_base s;
         ds = takeWhile (is_digit base) s;
         v = (if neg then - int (digits_value base ds) else int (digits_value base ds))
     in if ds = [] then Inl invalid_argument
        else if v < - (2 ^ 31) \<or> v \<ge> 2 ^ 31 then Inl out_of_range
        else Inr v)"

section \<open>The FPGA options\<close>

record aws_fpga_info =
  slot_id :: int
  vendor_id :: u16
  device_id :: u16
  msi_mask :: u16

definition stoi_arg :: "string list \<Rightarrow> string \<Rightarrow> (int \<times> string list) run" where
  "stoi_arg rest msg = (case rest of [] \<Rightarrow> Inl (exit_failure msg)
     | v # rest' \<Rightarrow> (case stoi v of Inl e \<Rightarrow> Inl e | Inr n \<Rightarrow> Inr (n, rest')))"

lemma stoi_arg_shorter: "stoi_arg rest msg = Inr (n, rest') \<Longrightarrow> length rest' < length rest"
  by (auto simp: stoi_arg_def split: list.splits sum.splits)

function parseFpgaArgs_loop :: "string list \<Rightarrow> bool \<Rightarrow> aws_fpga_info \<Rightarrow> (bool \<times> aws_fpga_info) run" where
  "parseFpgaArgs_loop [] en info = Inr (en, info)"
| "parseFpgaArgs_loop (arg # rest) en info =
    (if arg = ''--fpga'' then parseFpgaArgs_loop rest True info
     else if arg = ''--slot_id'' then
       (case stoi_arg rest ''--slot_id option requires one argument.'' of Inl e \<Rightarrow> Inl e
        | Inr (n, rest') \<Rightarrow> parseFpgaArgs_loop rest' en (info\<lparr>slot_id := n\<rparr>))
     else if arg = ''--vendor_id'' then
       (case stoi_arg rest ''--vendor_id option requires one argument.'' of Inl e \<Rightarrow> Inl e
        | Inr (n, rest') \<Rightarrow> parseFpgaArgs_loop rest' en (info\<lparr>vendor_id := of_int n\<rparr>))
     else if arg = ''--device_id'' then
       (case stoi_arg rest ''--device_id option requires one argument.'' of Inl e \<Rightarrow> Inl e
        | Inr (n, rest') \<Rightarrow> parseFpgaArgs_loop rest' en (info\<lparr>device_id := of_int n\<rparr>))
     else if arg = ''--msi_mask'' then
       (case stoi_arg rest ''--msi_mask option requires one argument.'' of Inl e \<Rightarrow> Inl e
        | Inr (n, rest') \<Rightarrow> parseFpgaArgs_loop rest' en (info\<lparr>msi_mask := of_int n\<rparr>))
     else parseFpgaArgs_loop rest en info)"
  by pat_completeness auto
termination
  by (relation "measure (\<lambda>(args, en, info). length args)")
    (auto dest!: stoi_arg_shorter simp: sum.case_eq_if split: if_splits)

definition parseFpgaArgs :: "string list \<Rightarrow> aws_fpga_info \<Rightarrow> (bool \<times> aws_fpga_info) run" where
  "parseFpgaArgs argv info = parseFpgaArgs_loop (tl argv) False info"

end
