(* ===== verification/Aws_Fpga.thy ===== *)
theory Aws_Fpga
  imports Cli_Args
begin

text \<open>
  Bringing the AWS FPGA up and down: \<open>check_afi_ready\<close>, \<open>aws_fpga_init\<close> and \<open>aws_fpga_cleanup\<close> of
  \<open>src/aarch64_toplevel.cpp\<close>. The AWS management library and the operating system are a record of the
  results of their calls. The resources a run holds are listed: the BARs it attached and the event
  files it opened. A field of the handle that was not written yet is \<open>None\<close>.
\<close>

datatype pci_bar = APP_PF_BAR0 | APP_PF_BAR1 | APP_PF_BAR4

record image_info =
  im_status :: int
  im_vendor_id :: u16
  im_device_id :: u16

text \<open>\<open>describe_local_image\<close> takes the number of the call, since the image can change with a rescan.\<close>

record aws_lib =
  FPGA_STATUS_LOADED :: int
  describe_local_image :: "int \<Rightarrow> nat \<Rightarrow> int \<times> image_info"
  rescan_slot_app_pfs :: "int \<Rightarrow> int"
  log_init :: int
  log_attach :: int
  pci_init :: int
  pci_attach :: "int \<Rightarrow> pci_bar \<Rightarrow> int \<times> int"
  pci_detach :: "int \<Rightarrow> int"
  sprintf :: "string \<Rightarrow> int"
  open_file :: "string \<Rightarrow> int"

record aws_fpga_handle =
  pci_bar_handle_ocl :: "int option"
  pci_bar_handle_pcis :: "int option"
  pci_bar_handle_bar1 :: "int option"
  pci_msi_fd :: "int option list"

definition MAX_NUM_INT :: nat where "MAX_NUM_INT = 16"

definition no_handle :: aws_fpga_handle where
  "no_handle = \<lparr>pci_bar_handle_ocl = None, pci_bar_handle_pcis = None, pci_bar_handle_bar1 = None,
    pci_msi_fd = replicate MAX_NUM_INT None\<rparr>"

section \<open>The image\<close>

definition image_matches :: "aws_fpga_info \<Rightarrow> image_info \<Rightarrow> bool" where
  "image_matches a info \<longleftrightarrow> im_vendor_id info = vendor_id a \<and> im_device_id info = device_id a"

definition check_afi_ready :: "aws_lib \<Rightarrow> aws_fpga_info \<Rightarrow> int" where
  "check_afi_ready lib a =
    (let (rc, info) = describe_local_image lib (slot_id a) 0 in
     if rc \<noteq> 0 then 1
     else if im_status info \<noteq> FPGA_STATUS_LOADED lib then 1
     else if \<not> image_matches a info then
       (let rc = rescan_slot_app_pfs lib (slot_id a) in
        if rc \<noteq> 0 then 1
        else
          (let (rc, info) = describe_local_image lib (slot_id a) 1 in
           if rc \<noteq> 0 then 1
           else if \<not> image_matches a info then 1
           else if rc \<noteq> 0 then 1 else 0))
     else if rc \<noteq> 0 then 1 else 0)"

section \<open>Initialisation\<close>

definition event_file_name :: "int \<Rightarrow> nat \<Rightarrow> string" where
  "event_file_name slot i = ''/dev/fpga'' @ show_int slot @ ''_event'' @ show_num 10 i"

record aws_run =
  ar_rc :: int
  ar_handle :: aws_fpga_handle
  ar_bars :: "int list"
  ar_fds :: "int list"

text \<open>The loop over the interrupts: it opens the event file of each one in the mask.\<close>

primrec msi_loop :: "aws_lib \<Rightarrow> aws_fpga_info \<Rightarrow> nat list \<Rightarrow> aws_run \<Rightarrow> aws_run" where
  "msi_loop lib a [] r = r"
| "msi_loop lib a (i # is) r =
    (let h = ar_handle r in
     if drop_bit i (ucast (msi_mask a) :: u32) AND 1 \<noteq> 0 then
       (let name = event_file_name (slot_id a) i; rc = sprintf lib name;
            rc = (if rc < 0 then 1 else 0) in
        if rc \<noteq> 0 then r\<lparr>ar_rc := 1\<rparr>
        else
          (let fd = open_file lib name; r = r\<lparr>ar_handle := h\<lparr>pci_msi_fd := (pci_msi_fd h)[i := Some fd]\<rparr>\<rparr> in
           if fd = -1 then r\<lparr>ar_rc := 1\<rparr>
           else msi_loop lib a is (r\<lparr>ar_rc := rc, ar_fds := ar_fds r @ [fd]\<rparr>)))
     else msi_loop lib a is (r\<lparr>ar_handle := h\<lparr>pci_msi_fd := (pci_msi_fd h)[i := Some (-1)]\<rparr>\<rparr>))"

definition aws_fpga_init :: "aws_lib \<Rightarrow> aws_fpga_info \<Rightarrow> aws_run" where
  "aws_fpga_init lib a =
    (let r = \<lparr>ar_rc = 1, ar_handle = no_handle, ar_bars = [], ar_fds = []\<rparr> in
     if log_init lib \<noteq> 0 then r
     else if log_attach lib \<noteq> 0 then r
     else if pci_init lib \<noteq> 0 then r
     else if check_afi_ready lib a \<noteq> 0 then r
     else
       (let (rc, ocl) = pci_attach lib (slot_id a) APP_PF_BAR0 in
        if rc \<noteq> 0 then r
        else
          (let h = no_handle\<lparr>pci_bar_handle_ocl := Some ocl\<rparr>; r = r\<lparr>ar_handle := h, ar_bars := [ocl]\<rparr>;
               (rc, bar1) = pci_attach lib (slot_id a) APP_PF_BAR1 in
           if rc \<noteq> 0 then r
           else
             (let h = h\<lparr>pci_bar_handle_bar1 := Some bar1\<rparr>; r = r\<lparr>ar_handle := h, ar_bars := [ocl, bar1]\<rparr>;
                  (rc, pcis) = pci_attach lib (slot_id a) APP_PF_BAR4 in
              if rc \<noteq> 0 then r
              else
                (let h = h\<lparr>pci_bar_handle_pcis := Some pcis\<rparr>;
                     r = r\<lparr>ar_rc := rc, ar_handle := h, ar_bars := [ocl, bar1, pcis]\<rparr>;
                     r = msi_loop lib a [0..<MAX_NUM_INT] r
                 in r\<lparr>ar_rc := (if ar_rc r \<noteq> 0 then 1 else 0)\<rparr>)))))"

section \<open>Cleanup\<close>

text \<open>One BAR: the result code so far, and the handles that were detached.\<close>

definition detach_bar :: "aws_lib \<Rightarrow> int \<Rightarrow> int \<times> int list \<Rightarrow> int \<times> int list" where
  "detach_bar lib b = (\<lambda>(rc, gone). if b \<ge> 0 then
     (if pci_detach lib b \<noteq> 0 then (1, gone) else (rc, gone @ [b])) else (rc, gone))"

definition close_fds :: "int list \<Rightarrow> int list" where
  "close_fds fds = filter (\<lambda>fd. fd \<noteq> -1) fds"

text \<open>The result code, the BARs detached and the files closed; \<open>None\<close> reads a field never written.\<close>

definition aws_fpga_cleanup :: "aws_lib \<Rightarrow> aws_fpga_handle \<Rightarrow> (int \<times> int list \<times> int list) option" where
  "aws_fpga_cleanup lib h = do {
     ocl \<leftarrow> pci_bar_handle_ocl h;
     bar1 \<leftarrow> pci_bar_handle_bar1 h;
     pcis \<leftarrow> pci_bar_handle_pcis h;
     fds \<leftarrow> those (pci_msi_fd h);
     let (rc, gone) = detach_bar lib pcis (detach_bar lib bar1 (detach_bar lib ocl (0, [])));
     Some (rc, gone, close_fds fds) }"

section \<open>What the loop over the interrupts does\<close>

lemma bit_mask_test: "drop_bit i (ucast (m :: u16) :: u32) AND 1 = 0 \<longleftrightarrow> \<not> bit m i"
proof -
  have "drop_bit i (ucast m :: u32) AND 1 = 0 \<longleftrightarrow> \<not> bit (ucast m :: u32) i"
    by (simp add: and_one_eq bit_iff_odd_drop_bit odd_iff_mod_2_eq_one)
  then show ?thesis using bit_imp_le_length [of m i] by (auto simp: bit_simps)
qed

text \<open>What the descriptor of an interrupt is after a successful initialisation.\<close>

definition event_fd :: "aws_lib \<Rightarrow> aws_fpga_info \<Rightarrow> nat \<Rightarrow> int" where
  "event_fd lib a i = (if bit (msi_mask a) i then open_file lib (event_file_name (slot_id a) i) else -1)"

definition events_open :: "aws_lib \<Rightarrow> aws_fpga_info \<Rightarrow> nat set \<Rightarrow> bool" where
  "events_open lib a I \<longleftrightarrow> (\<forall>i \<in> I. bit (msi_mask a) i \<longrightarrow>
     sprintf lib (event_file_name (slot_id a) i) \<ge> 0 \<and> event_fd lib a i \<noteq> -1)"

lemma msi_loop_ok:
  assumes "events_open lib a (set is)" and "ar_rc r = 0"
  shows "msi_loop lib a is r = r\<lparr>
    ar_handle := (ar_handle r)\<lparr>pci_msi_fd := fold (\<lambda>i fds. fds[i := Some (event_fd lib a i)]) is (pci_msi_fd (ar_handle r))\<rparr>,
    ar_fds := ar_fds r @ close_fds (map (event_fd lib a) is)\<rparr>"
  using assms
proof (induction "is" arbitrary: r)
  case Nil
  then show ?case by (simp add: close_fds_def)
next
  case (Cons i "is")
  then have "events_open lib a (set is)" by (simp add: events_open_def)
  with Cons show ?case
    by (cases r; cases "bit (msi_mask a) i")
      (simp_all add: bit_mask_test Let_def events_open_def event_fd_def close_fds_def)
qed

text \<open>The loop fails at the first event file that cannot be opened, and only then.\<close>

lemma msi_loop_fail:
  "ar_rc r = 0 \<Longrightarrow> \<not> events_open lib a (set is) \<Longrightarrow> ar_rc (msi_loop lib a is r) = 1"
proof (induction "is" arbitrary: r)
  case Nil
  then show ?case by (simp add: events_open_def)
next
  case (Cons i "is")
  show ?case
  proof (cases "events_open lib a {i}")
    case True
    then have "\<not> events_open lib a (set is)" using Cons.prems(2) by (simp add: events_open_def)
    with True Cons show ?thesis
      by (cases "bit (msi_mask a) i") (simp_all add: bit_mask_test Let_def events_open_def event_fd_def)
  next
    case False
    then show ?thesis by (auto simp: bit_mask_test Let_def events_open_def event_fd_def)
  qed
qed

lemma msi_loop_bars: "ar_bars (msi_loop lib a is r) = ar_bars r"
  by (induction "is" arbitrary: r) (simp_all add: Let_def)

lemma fold_update: "distinct is \<Longrightarrow> \<forall>i \<in> set is. i < length xs \<Longrightarrow>
  length (fold (\<lambda>i xs. xs[i := f i]) is xs) = length xs \<and>
  (\<forall>i < length xs. fold (\<lambda>i xs. xs[i := f i]) is xs ! i = (if i \<in> set is then f i else xs ! i))"
  by (induction "is" arbitrary: xs) (auto simp: nth_list_update)

lemma fold_update_all:
  assumes "length xs = n"
  shows "fold (\<lambda>i xs. xs[i := f i]) [0..<n] xs = map f [0..<n]"
  using fold_update [of "[0..<n]" xs f] assms by (intro nth_equalityI) auto

lemma those_Some: "those (map (\<lambda>i. Some (f i)) is) = Some (map f is)"
  by (induction "is") simp_all

text \<open>The part of the initialisation before the interrupts.\<close>

definition bars_attached :: "aws_lib \<Rightarrow> aws_fpga_info \<Rightarrow> int \<Rightarrow> int \<Rightarrow> int \<Rightarrow> bool" where
  "bars_attached lib a ocl bar1 pcis \<longleftrightarrow> log_init lib = 0 \<and> log_attach lib = 0 \<and> pci_init lib = 0 \<and>
     check_afi_ready lib a = 0 \<and> pci_attach lib (slot_id a) APP_PF_BAR0 = (0, ocl) \<and>
     pci_attach lib (slot_id a) APP_PF_BAR1 = (0, bar1) \<and> pci_attach lib (slot_id a) APP_PF_BAR4 = (0, pcis)"

lemma init_bars: "ar_rc (aws_fpga_init lib a) = 0 \<Longrightarrow> \<exists>ocl bar1 pcis. bars_attached lib a ocl bar1 pcis"
  by (auto simp: aws_fpga_init_def bars_attached_def Let_def split: prod.splits if_splits)

definition attached_run :: "int \<Rightarrow> int \<Rightarrow> int \<Rightarrow> aws_run" where
  "attached_run ocl bar1 pcis = \<lparr>ar_rc = 0, ar_handle = no_handle\<lparr>pci_bar_handle_ocl := Some ocl,
     pci_bar_handle_bar1 := Some bar1, pci_bar_handle_pcis := Some pcis\<rparr>, ar_bars = [ocl, bar1, pcis], ar_fds = []\<rparr>"

lemma init_attached: "bars_attached lib a ocl bar1 pcis \<Longrightarrow> aws_fpga_init lib a =
  (let r = msi_loop lib a [0..<MAX_NUM_INT] (attached_run ocl bar1 pcis) in r\<lparr>ar_rc := (if ar_rc r \<noteq> 0 then 1 else 0)\<rparr>)"
  by (simp add: aws_fpga_init_def bars_attached_def attached_run_def Let_def)

lemma init_ok:
  assumes "bars_attached lib a ocl bar1 pcis" and "events_open lib a {0..<MAX_NUM_INT}"
  shows "aws_fpga_init lib a = \<lparr>ar_rc = 0, ar_handle = \<lparr>pci_bar_handle_ocl = Some ocl,
      pci_bar_handle_pcis = Some pcis, pci_bar_handle_bar1 = Some bar1,
      pci_msi_fd = map (\<lambda>i. Some (event_fd lib a i)) [0..<MAX_NUM_INT]\<rparr>,
    ar_bars = [ocl, bar1, pcis], ar_fds = close_fds (map (event_fd lib a) [0..<MAX_NUM_INT])\<rparr>"
proof -
  let ?r = "attached_run ocl bar1 pcis"
  have f: "fold (\<lambda>i fds. fds[i := Some (event_fd lib a i)]) [0..<MAX_NUM_INT] (replicate MAX_NUM_INT None) =
      map (\<lambda>i. Some (event_fd lib a i)) [0..<MAX_NUM_INT]"
    by (rule fold_update_all) simp
  have "events_open lib a (set [0..<MAX_NUM_INT])" "ar_rc ?r = 0"
    using assms(2) by (simp_all add: attached_run_def)
  from msi_loop_ok [OF this] f show ?thesis
    by (simp add: init_attached [OF assms(1)] attached_run_def no_handle_def)
qed

section \<open>Properties\<close>

text \<open>The image is taken as ready exactly when it is loaded and shows the vendor and device ids
  expected, at once or after one rescan.\<close>

theorem check_afi_ready_iff:
  "check_afi_ready lib a = (if \<exists>i0. describe_local_image lib (slot_id a) 0 = (0, i0) \<and>
     im_status i0 = FPGA_STATUS_LOADED lib \<and>
     (image_matches a i0 \<or> rescan_slot_app_pfs lib (slot_id a) = 0 \<and>
       (\<exists>i1. describe_local_image lib (slot_id a) 1 = (0, i1) \<and> image_matches a i1)) then 0 else 1)"
  by (auto simp: check_afi_ready_def Let_def split: prod.splits)

text \<open>C21. When the initialisation reports success, the image was ready, every interrupt of the mask has
  its event file open and the others have none, and cleaning up gives back exactly what was taken: the
  three BARs and the open event files.\<close>

theorem aws_init_cleanup_balance:
  assumes "ar_rc (aws_fpga_init lib a) = 0"
    and "\<And>bar. snd (pci_attach lib (slot_id a) bar) \<ge> 0 \<and> pci_detach lib (snd (pci_attach lib (slot_id a) bar)) = 0"
  shows "check_afi_ready lib a = 0 \<and>
    pci_msi_fd (ar_handle (aws_fpga_init lib a)) = map (\<lambda>i. Some (if bit (msi_mask a) i
      then open_file lib (event_file_name (slot_id a) i) else -1)) [0..<MAX_NUM_INT] \<and>
    length (ar_bars (aws_fpga_init lib a)) = 3 \<and>
    aws_fpga_cleanup lib (ar_handle (aws_fpga_init lib a)) =
      Some (0, ar_bars (aws_fpga_init lib a), ar_fds (aws_fpga_init lib a))"
proof -
  obtain ocl bar1 pcis where b: "bars_attached lib a ocl bar1 pcis" using init_bars [OF assms(1)] by blast
  have "events_open lib a {0..<MAX_NUM_INT}"
    using assms(1) msi_loop_fail [of "attached_run ocl bar1 pcis" lib a "[0..<MAX_NUM_INT]"]
    by (auto simp: init_attached [OF b] attached_run_def Let_def split: if_splits)
  note init = init_ok [OF b this]
  have "b \<ge> 0 \<and> pci_detach lib b = 0" if "b \<in> {ocl, bar1, pcis}" for b
    using that assms(2) b by (auto simp: bars_attached_def) (metis snd_conv)+
  then show ?thesis using b
    by (simp add: init aws_fpga_cleanup_def detach_bar_def those_Some event_fd_def [abs_def] bars_attached_def)
qed

definition good_lib :: aws_lib where
  "good_lib = \<lparr>FPGA_STATUS_LOADED = 0,
    describe_local_image = (\<lambda>_ _. (0, \<lparr>im_status = 0, im_vendor_id = 0x1D0F, im_device_id = 0xF001\<rparr>)),
    rescan_slot_app_pfs = (\<lambda>_. 0), log_init = 0, log_attach = 0, pci_init = 0,
    pci_attach = (\<lambda>_ b. (0, case b of APP_PF_BAR0 \<Rightarrow> 1 | APP_PF_BAR1 \<Rightarrow> 2 | APP_PF_BAR4 \<Rightarrow> 3)),
    pci_detach = (\<lambda>_. 0), sprintf = (\<lambda>s. int (length s)), open_file = (\<lambda>_. 7)\<rparr>"

definition good_info :: aws_fpga_info where
  "good_info = \<lparr>slot_id = 0, vendor_id = 0x1D0F, device_id = 0xF001, msi_mask = 1\<rparr>"

lemma good_attached: "bars_attached good_lib good_info 1 2 3"
  by (simp add: bars_attached_def check_afi_ready_def good_lib_def good_info_def image_matches_def)

lemma good_events: "events_open good_lib good_info I"
  by (simp add: events_open_def event_fd_def good_lib_def)

theorem aws_init_cleanup_balance_witness:
  "aws_fpga_cleanup good_lib (ar_handle (aws_fpga_init good_lib good_info)) = Some (0, [1, 2, 3], [7])"
proof -
  have i: "aws_fpga_init good_lib good_info = \<lparr>ar_rc = 0, ar_handle = \<lparr>pci_bar_handle_ocl = Some 1,
      pci_bar_handle_pcis = Some 3, pci_bar_handle_bar1 = Some 2,
      pci_msi_fd = map (\<lambda>i. Some (event_fd good_lib good_info i)) [0..<MAX_NUM_INT]\<rparr>,
    ar_bars = [1, 2, 3], ar_fds = [7]\<rparr>"
    using init_ok [OF good_attached good_events]
    by (simp add: MAX_NUM_INT_def event_fd_def good_info_def good_lib_def close_fds_def upt_rec bit_simps)
  have "snd (pci_attach good_lib (slot_id good_info) bar) \<ge> 0 \<and>
      pci_detach good_lib (snd (pci_attach good_lib (slot_id good_info) bar)) = 0" for bar
    by (cases bar) (simp_all add: good_lib_def)
  then show ?thesis using aws_init_cleanup_balance [of good_lib good_info] i by simp
qed

text \<open>When an event file of the mask cannot be opened the initialisation reports failure, but it
  still holds the three BARs: nothing on that path gives them back.\<close>

theorem aws_init_failure_leaks_bars:
  assumes "bars_attached lib a ocl bar1 pcis" and "i < MAX_NUM_INT" and "bit (msi_mask a) i"
    and "open_file lib (event_file_name (slot_id a) i) = -1"
  shows "ar_rc (aws_fpga_init lib a) = 1 \<and> ar_bars (aws_fpga_init lib a) = [ocl, bar1, pcis]"
proof -
  have "\<not> events_open lib a (set [0..<MAX_NUM_INT])"
    using assms(2-4) by (auto simp: events_open_def event_fd_def intro: bexI [of _ i])
  moreover have "ar_rc (attached_run ocl bar1 pcis) = 0" by (simp add: attached_run_def)
  ultimately show ?thesis
    using msi_loop_fail [of "attached_run ocl bar1 pcis" lib a "[0..<MAX_NUM_INT]"]
    by (simp add: init_attached [OF assms(1)] Let_def msi_loop_bars) (simp add: attached_run_def)
qed

theorem aws_init_failure_leaks_bars_witness:
  "ar_bars (aws_fpga_init (good_lib\<lparr>open_file := \<lambda>_. -1\<rparr>) good_info) = [1, 2, 3]"
proof -
  have "bars_attached (good_lib\<lparr>open_file := \<lambda>_. -1\<rparr>) good_info 1 2 3"
    by (simp add: bars_attached_def check_afi_ready_def good_lib_def good_info_def image_matches_def)
  from aws_init_failure_leaks_bars [OF this, of 0] show ?thesis
    by (simp add: MAX_NUM_INT_def good_info_def bit_simps)
qed

end
