(* ===== verification/Sc_Main.thy ===== *)
theory Sc_Main
  imports Aws_Fpga
begin

text \<open>
  \<open>sc_main\<close> of \<open>src/aarch64_toplevel.cpp\<close>: it reads the configuration and the command line, builds the
  platform (CPU, memory, NVDLA and router), binds the sockets and starts the simulation. The objects
  come from other modules and libraries, so a run is the list of construction steps it makes. \<open>aws\<close>
  is the build switch \<open>AWS_FPGA_PRESENT\<close>.
\<close>

section \<open>Construction steps\<close>

text \<open>The three platforms a memory or an NVDLA can belong to.\<close>

datatype backend = Fpga_hw | Cosim_rtl | Cmod

datatype port = Cpu_master_socket | Cpu_irq_socket | Router_target_socket | Router_init_socket |
  Router_protocol_port | Protocol_router_port | Protocol_scheduler_port | Router | Protocol | Scheduler |
  Ram_target_port | Nvdla_target_port | Nvdla_mc_port | Nvdla_cv_port | Nvdla_irq_socket

datatype build = dmi_mutex_init | new_cpu | cpu_set_dmi_mutex "bool option" | cpu_set_pci_bar_handle |
  new_ram backend | cpu_set_dmi_base_addr backend | new_nvdla backend | nvdla_set_dmi_mutex |
  new_router | bind port port | exec_simv_step string string | sc_start_step

text \<open>The part of \<open>sc_main\<close> that builds the platform, in the order of the code.\<close>

definition build_cpu :: "bool \<Rightarrow> bool \<Rightarrow> bool \<Rightarrow> build list" where
  "build_cpu aws fpga_en dmi_en =
    (if dmi_en then [dmi_mutex_init] else []) @ [new_cpu] @
    (if dmi_en then
       (if aws then
          (if fpga_en then [cpu_set_dmi_mutex (Some fpga_en), cpu_set_pci_bar_handle]
           else [cpu_set_dmi_mutex (Some fpga_en)])
        else [cpu_set_dmi_mutex None])
     else [])"

definition build_ram :: "bool \<Rightarrow> bool \<Rightarrow> bool \<Rightarrow> bool \<Rightarrow> build list" where
  "build_ram aws fpga_en cosim_en dmi_en =
    (if aws then
       (if fpga_en then new_ram Fpga_hw # (if dmi_en then [cpu_set_dmi_base_addr Fpga_hw] else [])
        else new_ram Cmod # (if dmi_en then [cpu_set_dmi_base_addr Cmod] else []))
     else
       (if cosim_en then [new_ram Cosim_rtl]
        else new_ram Cmod # (if dmi_en then [cpu_set_dmi_base_addr Cmod] else [])))"

definition build_nvdla :: "bool \<Rightarrow> bool \<Rightarrow> bool \<Rightarrow> bool \<Rightarrow> build list" where
  "build_nvdla aws fpga_en cosim_en dmi_en =
    (if aws then
       (if fpga_en then [new_nvdla Fpga_hw]
        else new_nvdla Cmod # (if dmi_en then [nvdla_set_dmi_mutex] else []))
     else
       (if cosim_en then [new_nvdla Cosim_rtl]
        else new_nvdla Cmod # (if dmi_en then [nvdla_set_dmi_mutex] else [])))"

definition build_router :: "build list" where
  "build_router = [new_router, bind Protocol_router_port Router, bind Protocol_scheduler_port Scheduler,
     bind Router_protocol_port Protocol]"

definition bind_sockets :: "bool \<Rightarrow> bool \<Rightarrow> bool \<Rightarrow> string \<Rightarrow> string \<Rightarrow> build list" where
  "bind_sockets aws fpga_en cosim_en simv_path plusargs =
    [bind Cpu_master_socket Router_target_socket, bind Router_init_socket Ram_target_port] @
    (if aws then
       (if fpga_en then [bind Router_init_socket Nvdla_target_port, bind Nvdla_irq_socket Cpu_irq_socket]
        else [bind Router_init_socket Nvdla_target_port, bind Nvdla_mc_port Router_target_socket,
              bind Nvdla_cv_port Router_target_socket, bind Nvdla_irq_socket Cpu_irq_socket])
     else
       (if cosim_en then [bind Router_init_socket Nvdla_target_port, bind Nvdla_irq_socket Cpu_irq_socket,
              exec_simv_step simv_path plusargs]
        else [bind Router_init_socket Nvdla_target_port, bind Nvdla_mc_port Router_target_socket,
              bind Nvdla_cv_port Router_target_socket, bind Nvdla_irq_socket Cpu_irq_socket]))"

section \<open>Starting the RTL simulator\<close>

text \<open>The operating system, as the results of its calls. The arguments of \<open>execve\<close> are pointers into
  temporary strings that are gone when it reads them; \<open>os_stale\<close> is what it finds there.\<close>

record os =
  os_config :: "string \<Rightarrow> int"
  os_pid :: int
  os_realpath :: "string \<Rightarrow> string option"
  os_fork :: int
  os_chdir :: "string \<Rightarrow> int"
  os_execve :: int
  os_stale :: "string \<Rightarrow> string"
  os_log_file_set :: "log_call list \<Rightarrow> bool"

datatype simv_result = simv_parent env | simv_child_back env | simv_exec string "string list" env

definition exec_simv :: "os \<Rightarrow> env \<Rightarrow> string \<Rightarrow> string \<Rightarrow> simv_result run" where
  "exec_simv w e simv_path plusargs_c =
    (let e = e(''COSIM_PID_HOST'' \<mapsto> show_int (os_pid w));
         simv_str = ''./simv -l cosim_test.log +ntb_random_seed_automatic +vpdfile+cosim_test.vpd '' @ plusargs_c
     in case os_realpath w simv_path of
          None \<Rightarrow> Inl (exit_failure (''The path is not exist: '' @ simv_path))
        | Some apath \<Rightarrow>
            if os_fork w < 0 then Inl (runtime_error ''failed to fork simv'')
            else if os_fork w = 0 then
              (if os_chdir w apath = -1 then Inr (simv_child_back e)
               else if os_execve w = -1 then Inr (simv_child_back e)
               else Inr (simv_exec ''/bin/bash'' [''/bin/bash'', os_stale w ''-c'', os_stale w simv_str] e))
            else Inr (simv_parent e))"

section \<open>\<open>sc_main\<close>\<close>

text \<open>The log setting: the variable \<open>SC_LOG\<close>, or else the option.\<close>

definition main_log :: "os \<Rightarrow> env \<Rightarrow> string list \<Rightarrow> log_call list run" where
  "main_log w e argv =
    (case e ''SC_LOG'' of
       Some sc_log_str \<Rightarrow> Inr (log_parse (os_log_file_set w) sc_log_str)
     | None \<Rightarrow>
         (case getSCLog argv of
            Inl a \<Rightarrow> Inl a
          | Inr str_from_c \<Rightarrow>
              if str_from_c \<noteq> '''' then Inr (log_parse (os_log_file_set w) str_from_c)
              else Inr [cout ''No sc_log specified, will use the default setting'',
                        cout ''verbosity_level = SC_MEDIUM'']))"

definition main_config :: "bool \<Rightarrow> os \<Rightarrow> string list \<Rightarrow> unit run" where
  "main_config aws w argv =
    (case parseArgs aws argv of
       Inl a \<Rightarrow> Inl a
     | Inr configurationFilePath \<Rightarrow>
         (let openResult = (if configurationFilePath = '''' then os_config w ''config.lua''
                            else os_config w configurationFilePath)
          in if openResult \<noteq> 0 then Inl (exit_failure (showUsage aws (hd argv))) else Inr ()))"

definition default_fpga_info :: aws_fpga_info where
  "default_fpga_info = \<lparr>slot_id = 0, vendor_id = 0x1D0F, device_id = 0xF001, msi_mask = 1\<rparr>"

definition main_fpga :: "bool \<Rightarrow> aws_lib \<Rightarrow> string list \<Rightarrow> (bool \<times> aws_fpga_handle) run" where
  "main_fpga aws lib argv =
    (if \<not> aws then Inr (False, no_handle)
     else
       (case parseFpgaArgs argv default_fpga_info of
          Inl a \<Rightarrow> Inl a
        | Inr (fpga_en, info) \<Rightarrow>
            if fpga_en then
              (let r = aws_fpga_init lib info in
               if ar_rc r \<noteq> 0 then Inl (exit_failure ''Error when initialize the AWS FPGA.'')
               else Inr (True, ar_handle r))
            else Inr (False, no_handle)))"

definition main_cosim :: "string list \<Rightarrow> env \<Rightarrow> (bool \<times> string \<times> string \<times> env) run" where
  "main_cosim argv e =
    (case parseCosimArgs argv of
       Inl a \<Rightarrow> Inl a
     | Inr cosim_en \<Rightarrow>
         if cosim_en then
           (case parseSimvArgs argv e of
              Inl a \<Rightarrow> Inl a
            | Inr (simv_path_str, e) \<Rightarrow>
                (case parsePlusArgsArgs argv e of
                   Inl a \<Rightarrow> Inl a
                 | Inr (rtl_plusargs_str, e) \<Rightarrow> Inr (True, simv_path_str, rtl_plusargs_str, e)))
         else Inr (False, '''', '''', e))"

text \<open>What a process that reaches \<open>sc_start\<close> has done: its log calls, its construction steps, its
  environment, and whether it is the child that came back from \<open>exec_simv\<close>. A child that became the
  simulator is \<open>Main_simv\<close>.\<close>

datatype main_result =
  Main_start (started_log: "log_call list") (started_steps: "build list") (started_env: env) (started_child: bool) |
  Main_simv string "string list" env

definition main_start :: "os \<Rightarrow> log_call list \<Rightarrow> build list \<Rightarrow> env \<Rightarrow> main_result run" where
  "main_start w logs steps e =
    (case last steps of
       exec_simv_step p args \<Rightarrow>
         (case exec_simv w e p args of
            Inl a \<Rightarrow> Inl a
          | Inr (simv_parent e') \<Rightarrow> Inr (Main_start logs (steps @ [sc_start_step]) e' False)
          | Inr (simv_child_back e') \<Rightarrow> Inr (Main_start logs (steps @ [sc_start_step]) e' True)
          | Inr (simv_exec f a e') \<Rightarrow> Inr (Main_simv f a e'))
     | _ \<Rightarrow> Inr (Main_start logs (steps @ [sc_start_step]) e False))"

definition platform :: "bool \<Rightarrow> bool \<Rightarrow> bool \<Rightarrow> bool \<Rightarrow> string \<Rightarrow> string \<Rightarrow> build list" where
  "platform aws fpga_en cosim_en dmi_en simv_path plusargs =
    build_cpu aws fpga_en dmi_en @ build_ram aws fpga_en cosim_en dmi_en @
    build_nvdla aws fpga_en cosim_en dmi_en @ build_router @
    bind_sockets aws fpga_en cosim_en simv_path plusargs"

text \<open>Everything up to \<open>sc_start\<close>.\<close>

definition sc_main_start :: "bool \<Rightarrow> os \<Rightarrow> aws_lib \<Rightarrow> env \<Rightarrow> string list \<Rightarrow> (main_result \<times> bool \<times> aws_fpga_handle) run" where
  "sc_main_start aws w lib e argv =
    (case main_config aws w argv of Inl a \<Rightarrow> Inl a | Inr _ \<Rightarrow>
     (case main_log w e argv of Inl a \<Rightarrow> Inl a | Inr logs \<Rightarrow>
      (case main_fpga aws lib argv of Inl a \<Rightarrow> Inl a | Inr (fpga_en, handle) \<Rightarrow>
       (case main_cosim argv e of Inl a \<Rightarrow> Inl a | Inr (cosim_en, simv_path, plusargs, e) \<Rightarrow>
        (case main_start w logs (platform aws fpga_en cosim_en (parseDmiArgs argv) simv_path plusargs) e of
           Inl a \<Rightarrow> Inl a | Inr r \<Rightarrow> Inr (r, fpga_en, handle))))))"

text \<open>The end of \<open>sc_main\<close>, after the simulation: 0 is returned; \<open>None\<close> is undefined behaviour.\<close>

definition sc_main_finish :: "bool \<Rightarrow> aws_lib \<Rightarrow> bool \<times> aws_fpga_handle \<Rightarrow> (int run) option" where
  "sc_main_finish aws lib fh = (case fh of (fpga_en, handle) \<Rightarrow>
    if aws \<and> fpga_en then do {
      (rc, gone, closed) \<leftarrow> aws_fpga_cleanup lib handle;
      Some (if rc \<noteq> 0 then Inl (exit_failure ''Error when cleanup the AWS FPGA.'') else Inr 0) }
    else Some (Inr 0))"

end
