(* ===== verification/Cli_Args_Spec.thy ===== *)
theory Cli_Args_Spec
  imports Cli_Args "HOL-Library.Sublist"
begin

text \<open>
  What the command line parsers promise: a line made of options in any order is read back by every
  parser, numerals in the three bases are read as their value, and an option without its value stops
  the program.
\<close>

section \<open>Command lines as lists of options\<close>

datatype cli_opt = Conf string | ScLog string | Simv string | Timeout string | PlusArgs string |
  Cosim | Dmi | DmiDisable | Fpga | SlotId string | VendorId string | DeviceId string | MsiMask string

primrec render :: "cli_opt \<Rightarrow> string list" where
  "render (Conf v) = [''--conf'', v]"
| "render (ScLog v) = [''--sc_log'', v]"
| "render (Simv v) = [''--simv'', v]"
| "render (Timeout v) = [''--timeout'', v]"
| "render (PlusArgs v) = [''--plusargs'', v]"
| "render Cosim = [''--cosim'']"
| "render Dmi = [''--dmi'']"
| "render DmiDisable = [''--dmi_disable'']"
| "render Fpga = [''--fpga'']"
| "render (SlotId v) = [''--slot_id'', v]"
| "render (VendorId v) = [''--vendor_id'', v]"
| "render (DeviceId v) = [''--device_id'', v]"
| "render (MsiMask v) = [''--msi_mask'', v]"

definition flags :: "string set" where
  "flags = {''-h'', ''--help'', ''-c'', ''--conf'', ''-s'', ''--sc_log'', ''--simv'', ''--timeout'', ''--plusargs'',
    ''--cosim'', ''--dmi'', ''--dmi_disable'', ''--fpga'', ''--slot_id'', ''--vendor_id'', ''--device_id'', ''--msi_mask''}"

text \<open>The values of the options are not themselves options: the parsers, which scan the whole line,
  would take them for such.\<close>

definition plain_values :: "cli_opt list \<Rightarrow> bool" where
  "plain_values opts \<longleftrightarrow> (\<forall>o' \<in> set opts. (\<forall>v \<in> set (tl (render o')). v \<notin> flags))"

definition command_line :: "string \<Rightarrow> cli_opt list \<Rightarrow> string list" where
  "command_line prog opts = prog # concat (map render opts)"

lemma tl_command_line [simp]: "tl (command_line prog opts) = concat (map render opts)"
  "hd (command_line prog opts) = prog"
  by (simp_all add: command_line_def)

lemma plain_Cons: "plain_values (o' # opts) \<longleftrightarrow> (\<forall>v \<in> set (tl (render o')). v \<notin> flags) \<and> plain_values opts"
  by (simp add: plain_values_def)

lemmas plain_simps = plain_Cons flags_def

text \<open>What the options say, the last one of a kind being the one that counts.\<close>

definition conf_of :: "cli_opt list \<Rightarrow> string \<Rightarrow> string" where
  "conf_of = fold (\<lambda>o' c. case o' of Conf v \<Rightarrow> v | _ \<Rightarrow> c)"
definition sc_log_of :: "cli_opt list \<Rightarrow> string \<Rightarrow> string" where
  "sc_log_of = fold (\<lambda>o' c. case o' of ScLog v \<Rightarrow> v | _ \<Rightarrow> c)"
definition simv_of :: "cli_opt list \<Rightarrow> string \<Rightarrow> string" where
  "simv_of = fold (\<lambda>o' c. case o' of Simv v \<Rightarrow> v | _ \<Rightarrow> c)"
definition timeout_env :: "cli_opt list \<Rightarrow> env \<Rightarrow> env" where
  "timeout_env = fold (\<lambda>o' e. case o' of Timeout v \<Rightarrow> e(''COSIM_SHM_TIMEOUT_IN_NS'' \<mapsto> v) | _ \<Rightarrow> e)"
definition plusargs_of :: "cli_opt list \<Rightarrow> string \<Rightarrow> string" where
  "plusargs_of = fold (\<lambda>o' c. case o' of PlusArgs v \<Rightarrow> v | _ \<Rightarrow> c)"
definition plusargs_env :: "cli_opt list \<Rightarrow> env \<Rightarrow> env" where
  "plusargs_env = fold (\<lambda>o' e. case o' of PlusArgs v \<Rightarrow> e(''COSIM_PLUS_ARGS'' \<mapsto> v) | _ \<Rightarrow> e)"
definition dmi_of :: "cli_opt list \<Rightarrow> bool \<Rightarrow> bool" where
  "dmi_of = fold (\<lambda>o' d. case o' of Dmi \<Rightarrow> True | DmiDisable \<Rightarrow> False | _ \<Rightarrow> d)"

lemmas opts_defs = conf_of_def sc_log_of_def simv_of_def timeout_env_def plusargs_of_def plusargs_env_def dmi_of_def

lemma parseArgs_opts: "plain_values opts \<Longrightarrow>
  parseArgs_loop usage (concat (map render opts)) c = Inr (conf_of opts c)"
proof (induction opts arbitrary: c)
  case (Cons o' opts)
  then show ?case by (cases o') (simp_all add: opts_defs plain_simps)
qed (simp add: opts_defs)

lemma getSCLog_opts: "plain_values opts \<Longrightarrow>
  getSCLog_loop (concat (map render opts)) c = Inr (sc_log_of opts c)"
proof (induction opts arbitrary: c)
  case (Cons o' opts)
  then show ?case by (cases o') (simp_all add: opts_defs plain_simps)
qed (simp add: opts_defs)

lemma parseSimvArgs_opts: "plain_values opts \<Longrightarrow>
  parseSimvArgs_loop (concat (map render opts)) c e = Inr (simv_of opts c, timeout_env opts e)"
proof (induction opts arbitrary: c e)
  case (Cons o' opts)
  then show ?case by (cases o') (simp_all add: opts_defs plain_simps)
qed (simp add: opts_defs)

lemma parsePlusArgs_opts: "plain_values opts \<Longrightarrow>
  parsePlusArgsArgs_loop (concat (map render opts)) c e = Inr (plusargs_of opts c, plusargs_env opts e)"
proof (induction opts arbitrary: c e)
  case (Cons o' opts)
  then show ?case by (cases o') (simp_all add: opts_defs plain_simps)
qed (simp add: opts_defs)

lemma parseDmi_opts: "plain_values opts \<Longrightarrow> parseDmiArgs_loop (concat (map render opts)) d = dmi_of opts d"
proof (induction opts arbitrary: d)
  case (Cons o' opts)
  then show ?case by (cases o') (simp_all add: opts_defs plain_simps)
qed (simp add: opts_defs)

lemma parseCosim_opts: "plain_values opts \<Longrightarrow> parseCosimArgs_loop (concat (map render opts)) a b =
  (a \<or> Cosim \<in> set opts, b \<or> (\<exists>v. Simv v \<in> set opts))"
proof (induction opts arbitrary: a b)
  case (Cons o' opts)
  then show ?case by (cases o') (simp_all add: plain_simps Let_def ex_disj_distrib)
qed simp

text \<open>The FPGA options, whose values are numerals.\<close>

definition numerals_ok :: "cli_opt list \<Rightarrow> bool" where
  "numerals_ok opts \<longleftrightarrow> (\<forall>o' \<in> set opts. \<forall>v. o' = SlotId v \<or> o' = VendorId v \<or> o' = DeviceId v \<or> o' = MsiMask v
     \<longrightarrow> (\<exists>n. stoi v = Inr n))"

definition num :: "string \<Rightarrow> int" where
  "num v = (case stoi v of Inl _ \<Rightarrow> 0 | Inr n \<Rightarrow> n)"

primrec fpga_set :: "cli_opt \<Rightarrow> aws_fpga_info \<Rightarrow> aws_fpga_info" where
  "fpga_set (Conf v) i = i" | "fpga_set (ScLog v) i = i" | "fpga_set (Simv v) i = i"
| "fpga_set (Timeout v) i = i" | "fpga_set (PlusArgs v) i = i" | "fpga_set Cosim i = i"
| "fpga_set Dmi i = i" | "fpga_set DmiDisable i = i" | "fpga_set Fpga i = i"
| "fpga_set (SlotId v) i = i\<lparr>slot_id := num v\<rparr>"
| "fpga_set (VendorId v) i = i\<lparr>vendor_id := of_int (num v)\<rparr>"
| "fpga_set (DeviceId v) i = i\<lparr>device_id := of_int (num v)\<rparr>"
| "fpga_set (MsiMask v) i = i\<lparr>msi_mask := of_int (num v)\<rparr>"

lemma numerals_Cons: "numerals_ok (o' # opts) \<longleftrightarrow> numerals_ok [o'] \<and> numerals_ok opts"
  by (simp add: numerals_ok_def)

lemma numerals_num: "stoi v = Inr n \<Longrightarrow> num v = n"
  by (simp add: num_def)

lemma parseFpga_opts: "plain_values opts \<Longrightarrow> numerals_ok opts \<Longrightarrow>
  parseFpgaArgs_loop (concat (map render opts)) b i = Inr (b \<or> Fpga \<in> set opts, fold fpga_set opts i)"
proof (induction opts arbitrary: b i)
  case (Cons o' opts)
  then have "numerals_ok [o']" "numerals_ok opts" by (simp_all add: numerals_Cons [of o' opts])
  with Cons show ?case
    by (cases o') (auto simp: plain_simps stoi_arg_def numerals_ok_def numerals_num)
qed simp

section \<open>Numerals\<close>

definition prefix_of :: "nat \<Rightarrow> string" where
  "prefix_of base = (if base = 16 then ''0x'' else if base = 8 then ''0'' else [])"

lemma digit_val_digit: "d < 16 \<Longrightarrow> digit_val (digit d) = Some d"
  by (simp add: digit_val_def digit_def)

lemma is_digit_digit: "d < base \<Longrightarrow> base \<le> 16 \<Longrightarrow> is_digit base (digit d)"
  by (simp add: is_digit_def digit_val_digit)

lemma show_num_digits: "2 \<le> base \<Longrightarrow> base \<le> 16 \<Longrightarrow> c \<in> set (show_num base n) \<Longrightarrow> is_digit base c"
proof (induction base n rule: show_num.induct)
  case (1 base n)
  then show ?case by (subst (asm) show_num.simps) (auto simp: is_digit_digit split: if_splits)
qed

lemma show_num_value: "2 \<le> base \<Longrightarrow> base \<le> 16 \<Longrightarrow> digits_value base (show_num base n) = n"
proof (induction base n rule: show_num.induct)
  case (1 base n)
  have "n mod base < 16" using 1 by (meson less_le_trans mod_less_divisor zero_less_numeral)
  with 1 show ?case
    by (subst show_num.simps) (auto simp: digits_value_def digit_val_digit div_mult_mod_eq)
qed

lemma show_num_hd: "2 \<le> base \<Longrightarrow> base \<le> 16 \<Longrightarrow> 0 < n \<Longrightarrow> hd (show_num base n) \<noteq> CHR ''0''"
proof (induction base n rule: show_num.induct)
  case (1 base n)
  have "digit d \<noteq> CHR ''0''" if "0 < d" "d < 16" for d
    using digit_val_digit [OF that(2)] that(1) by (auto simp: digit_val_def)
  with 1 show ?case by (subst show_num.simps) (auto simp: div_greater_zero_iff)
qed

text \<open>A digit is neither a blank, a sign nor the letter of a prefix.\<close>

lemma digit_chars: "is_digit base c \<Longrightarrow> base \<le> 16 \<Longrightarrow> \<not> isspace c \<and> c \<noteq> CHR ''-'' \<and> c \<noteq> CHR ''+'' \<and>
  c \<noteq> CHR ''x'' \<and> c \<noteq> CHR ''X''"
  by (auto simp: is_digit_def digit_val_def isspace_def split: option.splits if_splits)

lemma num_hd: "2 \<le> base \<Longrightarrow> base \<le> 16 \<Longrightarrow> \<exists>c cs. prefix_of base @ show_num base n @ rest = c # cs \<and>
  \<not> isspace c \<and> c \<noteq> CHR ''-'' \<and> c \<noteq> CHR ''+''"
  using show_num_digits [of base _ n] digit_chars
  by (cases "show_num base n") (auto simp: prefix_of_def isspace_def)

lemma strtol_base_num:
  assumes "base = 8 \<or> base = 16 \<or> base = 10 \<and> 0 < n"
  shows "\<exists>z. strtol_base (prefix_of base @ show_num base n @ rest) = (base, z @ show_num base n @ rest) \<and>
    (z = [] \<or> z = ''0'')"
proof -
  obtain c cs where s: "show_num base n = c # cs" by (cases "show_num base n") simp_all
  have c: "is_digit base c" using show_num_digits [of base c n] assms s by auto
  have "c \<noteq> CHR ''0''" if "base = 10" using show_num_hd [of base n] assms s that by auto
  then show ?thesis using assms digit_chars [OF c] c s by (auto simp: prefix_of_def strtol_base_def)
qed

lemma takeWhile_num:
  assumes "2 \<le> base" and "base \<le> 16" and "rest = [] \<or> \<not> is_digit base (hd rest)"
  shows "takeWhile (is_digit base) (show_num base n @ rest) = show_num base n"
  using assms show_num_digits [OF assms(1,2)] by (cases rest) (auto simp: takeWhile_append2 takeWhile_eq_all_conv)

section \<open>Properties\<close>

text \<open>C22. A command line made of options in any order is read back by every parser: each finds its own
  options, the last one of a kind counting, and skips the others'. Co-simulation without a simulator
  path stops the program.\<close>

theorem cli_round_trip:
  assumes "plain_values opts" and "numerals_ok opts" and "argv = command_line prog opts"
  shows "parseArgs aws argv = Inr (conf_of opts []) \<and>
    getSCLog argv = Inr (sc_log_of opts []) \<and>
    parseSimvArgs argv e = Inr (simv_of opts [], timeout_env opts e) \<and>
    parsePlusArgsArgs argv e = Inr (plusargs_of opts [], plusargs_env opts e) \<and>
    parseDmiArgs argv = dmi_of opts True \<and>
    parseCosimArgs argv = (if Cosim \<in> set opts \<and> (\<forall>v. Simv v \<notin> set opts)
      then Inl (exit_failure ''Need to set simv file path with --simv option'') else Inr (Cosim \<in> set opts)) \<and>
    parseFpgaArgs argv info = Inr (Fpga \<in> set opts, fold fpga_set opts info)"
  using assms parseArgs_opts getSCLog_opts parseSimvArgs_opts parsePlusArgs_opts parseDmi_opts
    parseCosim_opts parseFpga_opts
  by (simp_all add: parseArgs_def getSCLog_def parseSimvArgs_def parsePlusArgsArgs_def parseDmiArgs_def
      parseCosimArgs_def parseFpgaArgs_def)

theorem cli_round_trip_witness:
  "parseCosimArgs [''vp'', ''--simv'', ''/rtl'', ''--cosim'', ''--timeout'', ''500''] = Inr True \<and>
   parseSimvArgs [''vp'', ''--simv'', ''/rtl'', ''--cosim'', ''--timeout'', ''500''] Map.empty =
     Inr (''/rtl'', [''COSIM_SHM_TIMEOUT_IN_NS'' \<mapsto> ''500''])"
proof -
  let ?o = "[Simv ''/rtl'', Cosim, Timeout ''500'']"
  have "plain_values ?o" "numerals_ok ?o" by (simp_all add: plain_simps plain_values_def numerals_ok_def)
  from cli_round_trip [where prog = "''vp''" and e = Map.empty, OF this refl] show ?thesis
    by (simp add: command_line_def simv_of_def timeout_env_def)
qed

text \<open>\<open>stoi\<close> with base 0 reads a numeral that is written in base 8, 10 or 16 with the base's prefix,
  after any blanks and sign, as its value, and ignores what follows the digits.\<close>

theorem stoi_reads_numeral:
  assumes "\<forall>c \<in> set blanks. isspace c" and "base = 8 \<or> base = 16 \<or> base = 10 \<and> 0 < n"
    and "rest = [] \<or> \<not> is_digit base (hd rest)" and "sign = (if neg then ''-'' else [])"
    and "v = (if neg then - int n else int n)" and "- (2 ^ 31) \<le> v" and "v < 2 ^ 31"
  shows "stoi (blanks @ sign @ prefix_of base @ show_num base n @ rest) = Inr v"
proof -
  let ?s = "prefix_of base @ show_num base n @ rest"
  have base: "2 \<le> base" "base \<le> 16" using assms(2) by auto
  obtain z where z: "strtol_base ?s = (base, z @ show_num base n @ rest)" "z = [] \<or> z = ''0''"
    using strtol_base_num [OF assms(2)] by blast
  obtain c cs where c: "?s = c # cs" "\<not> isspace c" "c \<noteq> CHR ''-''" "c \<noteq> CHR ''+''"
    using num_hd [OF base] by blast
  have "dropWhile isspace (blanks @ sign @ ?s) = sign @ ?s"
    using assms(1,4) c by (auto simp: dropWhile_append2 isspace_def)
  moreover have "strtol_sign (sign @ ?s) = (neg, ?s)" using assms(4) c by (auto simp: strtol_sign_def)
  moreover have "is_digit base (CHR ''0'')" using base by (simp add: is_digit_def digit_val_def)
  then have "takeWhile (is_digit base) (z @ show_num base n @ rest) = z @ show_num base n"
    using z(2) takeWhile_num [OF base assms(3), of n] by auto
  moreover have "digits_value base (z @ show_num base n) = n"
    using z(2) show_num_value [OF base] by (auto simp: digits_value_def digit_val_def)
  ultimately show ?thesis using z(1) assms(5-7) by (cases neg) (simp_all add: stoi_def)
qed

lemma digit_f: "digit (Suc 0) = CHR ''1''" "digit 15 = CHR ''f''"
  by code_simp+

theorem stoi_reads_numeral_witness: "stoi '' -0x1f, no more'' = Inr (- 31)"
  using stoi_reads_numeral [of "'' ''" 16 31 "'', no more''" "''-''" True "- 31"]
  by (simp add: isspace_def prefix_of_def show_num.simps digit_f is_digit_def digit_val_def)

lemma sublist_behind: "sublist x b \<Longrightarrow> sublist x (a @ b)"
  by (metis sublist_append_leftI sublist_order.order_trans)

text \<open>The usage message offers \<open>--vender_id\<close>, which the parser does not know: the option is
  skipped and the vendor id keeps its default.\<close>

theorem usage_vender_id_ignored:
  "sublist ''--vender_id'' (showUsage True name) \<and>
   parseFpgaArgs [name, ''--fpga'', ''--vender_id'', v] info =
     parseFpgaArgs [name, ''--fpga'', v] info"
proof
  show "sublist ''--vender_id'' (showUsage True name)"
    unfolding showUsage_def if_True append_assoc by (rule sublist_append_rightI | rule sublist_behind)+
  show "parseFpgaArgs [name, ''--fpga'', ''--vender_id'', v] info = parseFpgaArgs [name, ''--fpga'', v] info"
    by (simp add: parseFpgaArgs_def)
qed

end
