(* ===== verification/Sc_Main_Spec.thy ===== *)
theory Sc_Main_Spec
  imports Sc_Main Cli_Args_Spec
begin

text \<open>
  What \<open>sc_main\<close> promises: a co-simulation run that does what the command line and the environment say,
  and what a failing start of the simulator leads to.
\<close>

section \<open>A co-simulation run\<close>

lemmas platform_defs = platform_def build_cpu_def build_ram_def build_nvdla_def build_router_def bind_sockets_def

lemma last_platform: "last (platform aws fpga_en cosim_en dmi_en p a) =
  (if \<not> aws \<and> cosim_en then exec_simv_step p a else bind Nvdla_irq_socket Cpu_irq_socket)"
  by (simp add: platform_defs)

lemma cosim_options:
  assumes "plain_values opts" and "Cosim \<in> set opts" and "Simv v \<in> set opts"
  shows "main_cosim (command_line prog opts) e =
    Inr (True, simv_of opts [], plusargs_of opts [], plusargs_env opts (timeout_env opts e))"
  using assms parseCosim_opts [OF assms(1), of False False] parseSimvArgs_opts [OF assms(1)]
    parsePlusArgs_opts [OF assms(1)]
  by (auto simp: main_cosim_def parseCosimArgs_def parseSimvArgs_def parsePlusArgsArgs_def)

lemma config_options: "plain_values opts \<Longrightarrow> os_config w (if conf_of opts [] = [] then ''config.lua'' else conf_of opts []) = 0 \<Longrightarrow>
  main_config aws w (command_line prog opts) = Inr ()"
  using parseArgs_opts [of opts] by (simp add: main_config_def parseArgs_def split: if_splits)

lemma log_options: "plain_values opts \<Longrightarrow> sc_log_of opts [] = l \<Longrightarrow> main_log w e (command_line prog opts) =
  Inr (case e ''SC_LOG'' of Some s \<Rightarrow> log_parse (os_log_file_set w) s
    | None \<Rightarrow> if l \<noteq> [] then log_parse (os_log_file_set w) l
        else [cout ''No sc_log specified, will use the default setting'', cout ''verbosity_level = SC_MEDIUM''])"
  using getSCLog_opts [of opts] by (simp add: main_log_def getSCLog_def split: option.split)


definition log_lines :: "os \<Rightarrow> cli_opt list \<Rightarrow> env \<Rightarrow> log_call list" where
  "log_lines w opts e = (case e ''SC_LOG'' of Some s \<Rightarrow> log_parse (os_log_file_set w) s
    | None \<Rightarrow> if sc_log_of opts [] \<noteq> [] then log_parse (os_log_file_set w) (sc_log_of opts [])
        else [cout ''No sc_log specified, will use the default setting'', cout ''verbosity_level = SC_MEDIUM''])"

lemma cosim_start:
  assumes "plain_values opts" and "Cosim \<in> set opts" and "Simv v \<in> set opts"
    and "os_config w (if conf_of opts [] = [] then ''config.lua'' else conf_of opts []) = 0"
  shows "sc_main_start False w lib e (command_line prog opts) =
    (case exec_simv w (plusargs_env opts (timeout_env opts e)) (simv_of opts []) (plusargs_of opts []) of
       Inl a \<Rightarrow> Inl a
     | Inr r \<Rightarrow> Inr (case r of
           simv_parent e' \<Rightarrow> Main_start (log_lines w opts e)
             (platform False False True (dmi_of opts True) (simv_of opts []) (plusargs_of opts []) @ [sc_start_step]) e' False
         | simv_child_back e' \<Rightarrow> Main_start (log_lines w opts e)
             (platform False False True (dmi_of opts True) (simv_of opts []) (plusargs_of opts []) @ [sc_start_step]) e' True
         | simv_exec f a e' \<Rightarrow> Main_simv f a e', False, no_handle))"
  using config_options [OF assms(1,4)] cosim_options [OF assms(1-3)] log_options [OF assms(1) refl]
    parseDmi_opts [OF assms(1), of True]
  by (simp add: sc_main_start_def main_fpga_def main_start_def last_platform parseDmiArgs_def log_lines_def
      split: sum.split simv_result.split)


definition small_os :: os where
  "small_os = \<lparr>os_config = (\<lambda>_. 0), os_pid = 42, os_realpath = Some, os_fork = 43, os_chdir = (\<lambda>_. 0),
    os_execve = 0, os_stale = id, os_log_file_set = (\<lambda>_. True)\<rparr>"

lemma small_opts: "plain_values [Simv ''/rtl'', Cosim]" "simv_of [Simv ''/rtl'', Cosim] [] = ''/rtl''"
  by (simp_all add: plain_values_def flags_def simv_of_def)


text \<open>When the simulator's directory cannot be entered, the child process comes back and starts a
  second simulation of the platform, as its parent does.\<close>

theorem cosim_child_starts_too:
  assumes "plain_values opts" and "Cosim \<in> set opts" and "Simv v \<in> set opts"
    and "os_config w (if conf_of opts [] = [] then ''config.lua'' else conf_of opts []) = 0"
    and "os_realpath w (simv_of opts []) = Some path" and "os_fork w = 0" and "os_chdir w path = -1"
  shows "\<exists>r. sc_main_start False w lib e (command_line prog opts) = Inr (r, False, no_handle) \<and>
    started_child r \<and> last (started_steps r) = sc_start_step"
  using cosim_start [OF assms(1-4), of lib e prog] assms(5-7) by (simp add: exec_simv_def Let_def)

theorem cosim_child_starts_too_witness:
  "\<exists>r. sc_main_start False (small_os\<lparr>os_fork := 0, os_chdir := \<lambda>_. -1\<rparr>) good_lib Map.empty [''vp'', ''--simv'', ''/rtl'', ''--cosim''] =
    Inr (r, False, no_handle) \<and> started_child r \<and> last (started_steps r) = sc_start_step"
  using cosim_child_starts_too [OF small_opts(1), of "''/rtl''" "small_os\<lparr>os_fork := 0, os_chdir := \<lambda>_. -1\<rparr>" "''/rtl''"
      good_lib Map.empty "''vp''"]
  by (simp add: small_os_def small_opts command_line_def)

end
