(* ===== verification/Cosim.thy ===== *)
theory Cosim
  imports Simdb Cli_Args
begin

text \<open>
  The co-simulation transactors of \<open>cosim_sc_wrapper/src\<close>: \<open>Gsgp2cosim\<close>, which turns a bus access into a
  request in the shared database and waits for the RTL side's answer, \<open>irq2gss\<close>, which passes interrupts
  on, and the two wrappers that create them. The operations take the database operations as arguments,
  so that what they do is proved from the laws of \<open>kv_store\<close> alone; at the end they are applied to the
  code's database. The process on the other side runs whenever SystemC time passes: it is a
  parameter \<open>peer k\<close>, what it does to the database and to its own state during the \<open>k\<close>-th wait.
  Messages are given without the module's name and the line end.
\<close>

type_synonym ('s, 'w) peer = "nat \<Rightarrow> 's \<times> 'w \<Rightarrow> 's \<times> 'w"

record 's kv_ops =
  kv_put :: "'s \<Rightarrow> bytes \<Rightarrow> bytes \<Rightarrow> (bool \<times> 's) option"
  kv_get :: "'s \<Rightarrow> bytes \<Rightarrow> (bytes \<times> 's) option"
  kv_del :: "'s \<Rightarrow> bytes \<Rightarrow> (bool \<times> 's) option"

definition bytes_of :: "string \<Rightarrow> bytes" where
  "bytes_of = map of_char"

section \<open>Payloads\<close>

text \<open>\<open>struct trans_payload\<close> in memory: the data, four bytes of padding that nothing writes, the address.
  \<open>struct irq_trans_payload\<close> is its value.\<close>

definition trans_payload :: "u32 \<Rightarrow> bytes \<Rightarrow> u64 \<Rightarrow> bytes" where
  "trans_payload data pad addr = le_bytes 4 data @ pad @ le_bytes 8 addr"

definition tp_data :: "bytes \<Rightarrow> u32" where "tp_data p = le_word (take 4 p)"
definition tp_addr :: "bytes \<Rightarrow> u64" where "tp_addr p = le_word (take 8 (drop 8 p))"
definition irq_value_of :: "bytes \<Rightarrow> u32" where "irq_value_of p = le_word (take 4 p)"

lemma trans_payload_fields: "length pad = 4 \<Longrightarrow> tp_data (trans_payload d pad a) = d"
  "length pad = 4 \<Longrightarrow> tp_addr (trans_payload d pad a) = a"
  "length pad = 4 \<Longrightarrow> length (trans_payload d pad a) = 16"
  by (simp_all add: tp_data_def tp_addr_def trans_payload_def)

section \<open>\<open>Gsgp2cosim::b_transact\<close>\<close>

datatype cosim_cmd = CMD_WR | CMD_RD

record cosim_txn =
  ct_cmd :: cosim_cmd
  ct_addr :: u64
  ct_data :: bytes

record gsgp2cosim =
  shm_name_str :: string
  shm_timeout :: u32
  addr_offset :: u64
  base_addr :: u64

text \<open>Uninitialised memory that goes into the database: the payload's padding and, in a read request, its
  data.\<close>

record garbage =
  g_pad :: bytes
  g_data :: u32

definition wr_up :: "gsgp2cosim \<Rightarrow> bytes" where "wr_up c = bytes_of (shm_name_str c @ ''_wr_up'')"
definition wr_dn :: "gsgp2cosim \<Rightarrow> bytes" where "wr_dn c = bytes_of (shm_name_str c @ ''_wr_dn'')"
definition rd_up :: "gsgp2cosim \<Rightarrow> bytes" where "rd_up c = bytes_of (shm_name_str c @ ''_rd_up'')"
definition rd_dn :: "gsgp2cosim \<Rightarrow> bytes" where "rd_dn c = bytes_of (shm_name_str c @ ''_rd_dn'')"

definition txn_address :: "gsgp2cosim \<Rightarrow> cosim_txn \<Rightarrow> u64" where
  "txn_address c t = ct_addr t - base_addr c + addr_offset c"

text \<open>What the two directions do before the request: stale entries are reported and deleted, first the
  answer, then the request.\<close>

definition drop_stale :: "'s kv_ops \<Rightarrow> bytes \<Rightarrow> bytes \<Rightarrow> string \<Rightarrow> string \<Rightarrow> 's \<Rightarrow> (string list \<times> 's) option" where
  "drop_stale ops up dn msg_up msg_dn s = do {
     (tpv_dn, s) \<leftarrow> kv_get ops s dn;
     (tpv_up, s) \<leftarrow> kv_get ops s up;
     s \<leftarrow> (if tpv_up \<noteq> [] then do { (_, s) \<leftarrow> kv_del ops s up; Some s } else Some s);
     s \<leftarrow> (if tpv_dn \<noteq> [] then do { (_, s) \<leftarrow> kv_del ops s dn; Some s } else Some s);
     Some ((if tpv_up \<noteq> [] then [msg_up] else []) @ (if tpv_dn \<noteq> [] then [msg_dn] else []), s) }"

text \<open>The loop that waits for the answer: it looks, waits (the peer runs), and gives up when its count was
  already 0. \<open>k\<close> numbers the waits.\<close>

primrec await_answer :: "'s kv_ops \<Rightarrow> ('s, 'w) peer \<Rightarrow> bytes \<Rightarrow> nat \<Rightarrow> nat \<Rightarrow> 's \<times> 'w \<Rightarrow> (bytes option \<times> 's \<times> 'w) option" where
  "await_answer ops peer up 0 k sw = do {
     (tpv_up, s) \<leftarrow> kv_get ops (fst sw) up;
     if tpv_up \<noteq> [] then Some (Some tpv_up, s, snd sw) else Some (None, peer k (s, snd sw)) }"
| "await_answer ops peer up (Suc timeout) k sw = do {
     (tpv_up, s) \<leftarrow> kv_get ops (fst sw) up;
     if tpv_up \<noteq> [] then Some (Some tpv_up, s, snd sw)
     else await_answer ops peer up timeout (Suc k) (peer k (s, snd sw)) }"

text \<open>A write returns the messages it printed, a read also the transaction with its data.\<close>

definition transact_wr :: "'s kv_ops \<Rightarrow> ('s, 'w) peer \<Rightarrow> garbage \<Rightarrow> gsgp2cosim \<Rightarrow> cosim_txn \<Rightarrow> 's \<times> 'w \<Rightarrow>
    (cosim_txn \<times> string list \<times> 's \<times> 'w) option" where
  "transact_wr ops peer g c t sw = do {
     (msgs, s) \<leftarrow> drop_stale ops (wr_up c) (wr_dn c) ''ERROR: The last write up stream FIFO is not empty!''
       ''ERROR: The last write down stream is not done yet!'' (fst sw);
     (_, s) \<leftarrow> kv_put ops s (wr_dn c) (trans_payload (le_word (take 4 (ct_data t))) (g_pad g) (txn_address c t));
     (ack, s, w) \<leftarrow> await_answer ops peer (wr_up c) (unat (shm_timeout c)) 0 (s, snd sw);
     (_, s) \<leftarrow> kv_del ops s (wr_up c);
     Some (t, msgs @ (if ack = None then [''Write timeout''] else []), s, w) }"

definition transact_rd :: "'s kv_ops \<Rightarrow> ('s, 'w) peer \<Rightarrow> garbage \<Rightarrow> gsgp2cosim \<Rightarrow> cosim_txn \<Rightarrow> 's \<times> 'w \<Rightarrow>
    (cosim_txn \<times> string list \<times> 's \<times> 'w) option" where
  "transact_rd ops peer g c t sw = do {
     (msgs, s) \<leftarrow> drop_stale ops (rd_up c) (rd_dn c) ''ERROR: The last read up stream FIFO is not empty!''
       ''ERROR: The last read down stream is not done yet!'' (fst sw);
     (_, s) \<leftarrow> kv_put ops s (rd_dn c) (trans_payload (g_data g) (g_pad g) (txn_address c t));
     (answer, s, w) \<leftarrow> await_answer ops peer (rd_up c) (unat (shm_timeout c)) 0 (s, snd sw);
     (_, s) \<leftarrow> kv_del ops s (rd_up c);
     Some (case answer of
         None \<Rightarrow> (t, msgs @ [''Read timeout''], s, w)
       | Some tpv_up \<Rightarrow> (t\<lparr>ct_data := le_bytes 4 (tp_data tpv_up)\<rparr>, msgs, s, w)) }"

text \<open>\<open>b_transact\<close>: a size other than 4 stops the simulation (\<open>Inl\<close>).\<close>

definition cosim_b_transact :: "'s kv_ops \<Rightarrow> ('s, 'w) peer \<Rightarrow> garbage \<Rightarrow> gsgp2cosim \<Rightarrow> cosim_txn \<Rightarrow> 's \<times> 'w \<Rightarrow>
    (string + cosim_txn \<times> string list \<times> 's \<times> 'w) option" where
  "cosim_b_transact ops peer g c t sw =
    (if length (ct_data t) \<noteq> 4 then Some (Inl ''sc_assert'')
     else map_option Inr (case ct_cmd t of CMD_WR \<Rightarrow> transact_wr ops peer g c t sw | CMD_RD \<Rightarrow> transact_rd ops peer g c t sw))"

section \<open>The constructor\<close>

text \<open>\<open>strtoul(s, NULL, 0)\<close>: 0 without digits, the largest value on overflow, a negative number wraps.\<close>

definition strtoul :: "string \<Rightarrow> u64" where
  "strtoul str =
    (let (neg, s) = strtol_sign (dropWhile isspace str);
         (base, s) = strtol_base s;
         v = digits_value base (takeWhile (is_digit base) s)
     in if v \<ge> 2 ^ 64 then - 1 else if neg then - of_nat v else of_nat v)"

primrec del_keys :: "('s \<Rightarrow> bytes \<Rightarrow> (bool \<times> 's) option) \<Rightarrow> bytes list \<Rightarrow> 's \<Rightarrow> 's option" where
  "del_keys del [] s = Some s"
| "del_keys del (k # ks) s = do { (_, s) \<leftarrow> del s k; del_keys del ks s }"

text \<open>A transactor's constructor first deletes the keys it finds in its database.\<close>

definition clear_keys :: "simdb \<Rightarrow> simdb option" where
  "clear_keys db = do { (keys, db) \<leftarrow> getKeyStrs db; del_keys sd_del (map snd keys) db }"

definition Gsgp2cosim :: "env \<Rightarrow> string \<Rightarrow> u64 \<Rightarrow> u64 \<Rightarrow> simdb \<Rightarrow> (gsgp2cosim \<times> simdb) option" where
  "Gsgp2cosim e shm_name addr_offset0 base db = do {
     db \<leftarrow> clear_keys db;
     Some (\<lparr>shm_name_str = shm_name,
       shm_timeout = (case e ''COSIM_SHM_TIMEOUT_IN_NS'' of None \<Rightarrow> 0xFFFFFFFF | Some timeout_c \<Rightarrow> ucast (strtoul timeout_c)),
       addr_offset = addr_offset0, base_addr = base\<rparr>, db) }"

section \<open>\<open>irq2gss::transport\<close>\<close>

definition irq_up :: bytes where "irq_up = bytes_of ''irq_ipc_db_up''"
definition irq_dn :: bytes where "irq_dn = bytes_of ''irq_ipc_db_dn''"

text \<open>The thread: it polls for an interrupt, and after it answered one it waits until the answer is
  gone before it sends the interrupt on.\<close>

datatype irq_pc = Irq_poll | Irq_acked u32

record irq2gss =
  ig_irq_number :: u32
  ig_pc :: irq_pc

text \<open>One turn of the thread between two waits: the interrupts sent, as value and line, and the messages.\<close>

definition irq2gss_turn :: "'s kv_ops \<Rightarrow> irq2gss \<Rightarrow> 's \<Rightarrow> ((u32 \<times> u32) list \<times> string list \<times> irq2gss \<times> 's) option" where
  "irq2gss_turn ops i s = (case ig_pc i of
     Irq_poll \<Rightarrow> do {
       (tpv_up, s) \<leftarrow> kv_get ops s irq_up;
       (tpv_dn, s) \<leftarrow> kv_get ops s irq_dn;
       if tpv_up = [] then Some ([], [], i, s)
       else do {
         s \<leftarrow> (if tpv_dn \<noteq> [] then do { (_, s) \<leftarrow> kv_del ops s irq_dn; Some s } else Some s);
         let status = irq_value_of tpv_up;
         (_, s) \<leftarrow> kv_del ops s irq_up;
         (_, s) \<leftarrow> kv_put ops s irq_dn (le_bytes 4 status);
         Some ([], if tpv_dn \<noteq> [] then ['' ERROR: The last INT down stream FIFO is not empty!''] else [],
           i\<lparr>ig_pc := Irq_acked (status AND 1)\<rparr>, s) } }
   | Irq_acked value \<Rightarrow> do {
       (tpv_dn, s) \<leftarrow> kv_get ops s irq_dn;
       if tpv_dn = [] then Some ([(value, ig_irq_number i)], [], i\<lparr>ig_pc := Irq_poll\<rparr>, s)
       else Some ([], [], i, s) })"

text \<open>The constructor clears its database like the other transactor's and starts the thread.\<close>

definition irq2gss_init :: "u32 \<Rightarrow> simdb \<Rightarrow> (irq2gss \<times> simdb) option" where
  "irq2gss_init irq db = do {
     db \<leftarrow> clear_keys db;
     Some (\<lparr>ig_irq_number = irq, ig_pc = Irq_poll\<rparr>, db) }"

section \<open>The wrappers\<close>

text \<open>\<open>nvdla_cosim_sc_wrapper\<close> and \<open>extmem_cosim_sc_wrapper\<close>: the databases they name and the offsets.\<close>

definition apb_db_name :: "int \<Rightarrow> string" where "apb_db_name pid = ''apb_ipc_db_'' @ show_int pid"
definition irq_db_name :: "int \<Rightarrow> string" where "irq_db_name pid = ''irq_ipc_db_'' @ show_int pid"
definition ram_db_name :: "int \<Rightarrow> string" where "ram_db_name pid = ''ram_ipc_db_'' @ show_int pid"

definition nvdla_cosim_sc_wrapper :: "env \<Rightarrow> int \<Rightarrow> u32 \<Rightarrow> u64 \<Rightarrow> simdb \<Rightarrow> simdb \<Rightarrow>
    (gsgp2cosim \<times> simdb \<times> irq2gss \<times> simdb) option" where
  "nvdla_cosim_sc_wrapper e pid irqNumber base apb_db irq_db = do {
     (c, apb_db) \<leftarrow> Gsgp2cosim e (apb_db_name pid) 0 base apb_db;
     (i, irq_db) \<leftarrow> irq2gss_init irqNumber irq_db;
     Some (c, apb_db, i, irq_db) }"

definition extmem_cosim_sc_wrapper :: "env \<Rightarrow> int \<Rightarrow> u64 \<Rightarrow> simdb \<Rightarrow> (gsgp2cosim \<times> simdb) option" where
  "extmem_cosim_sc_wrapper e pid base ram_db = Gsgp2cosim e (ram_db_name pid) 0xC0000000 base ram_db"

section \<open>The code's database\<close>

text \<open>The operations the transactors make: \<open>put\<close> is on vectors of one payload, \<open>get\<close> on vectors of payloads.\<close>

definition cosim_db_ops :: "simdb kv_ops" where
  "cosim_db_ops = \<lparr>kv_put = (\<lambda>db key v. sd_put_vec db key [v]), kv_get = sd_get_vec 16, kv_del = sd_del\<rparr>"

definition irq_db_ops :: "simdb kv_ops" where
  "irq_db_ops = \<lparr>kv_put = (\<lambda>db key v. sd_put_vec db key [v]), kv_get = sd_get_vec 4, kv_del = sd_del\<rparr>"

end
