(* ===== verification/Cosim_Spec.thy ===== *)
theory Cosim_Spec
  imports Cosim
begin

text \<open>
  What the co-simulation bridge promises. The RTL side is any process that follows the protocol of the
  four database keys: it takes a request out of a down stream and puts an answer into the up stream,
  over a memory of words. Against it a read returns the memory's word or times out, and a write stores
  its word or times out; both are proved from the laws of \<open>kv_store\<close> and then hold for the database.
\<close>

section \<open>The RTL side of the protocol\<close>

text \<open>An abstract state: what the database stands for, how many values can still be put, the memory.\<close>

type_synonym link = "(bytes \<Rightarrow> bytes option) \<times> nat \<times> (u64 \<Rightarrow> u32)"

inductive rtl_step :: "gsgp2cosim \<Rightarrow> link \<Rightarrow> link \<Rightarrow> bool" for c where
  idle: "rtl_step c (m, n, mem) (m, n, mem)"
| serve_write: "m (wr_dn c) = Some p \<Longrightarrow>
    rtl_step c (m, Suc n, mem) (m(wr_dn c := None, wr_up c \<mapsto> v), n, mem(tp_addr p := tp_data p))"
| serve_read: "m (rd_dn c) = Some p \<Longrightarrow> length v = 16 \<Longrightarrow> tp_data v = mem (tp_addr p) \<Longrightarrow>
    rtl_step c (m, Suc n, mem) (m(rd_dn c := None, rd_up c \<mapsto> v), n, mem)"

inductive_simps rtl_step_simps: "rtl_step c (m, n, mem) (m', n', mem')"

text \<open>The peer process keeps to the protocol as long as the requests it finds are payloads, and answers a
  request of a stream in its \<open>j\<close>-th wait when there is no other.\<close>

definition requests_ok :: "gsgp2cosim \<Rightarrow> (bytes \<Rightarrow> bytes option) \<Rightarrow> bool" where
  "requests_ok c m \<longleftrightarrow> (\<forall>dn \<in> {rd_dn c, wr_dn c}. \<forall>p. m dn = Some p \<longrightarrow> length p = 16)"

definition only_request :: "gsgp2cosim \<Rightarrow> bytes \<Rightarrow> (bytes \<Rightarrow> bytes option) \<Rightarrow> bool" where
  "only_request c dn m \<longleftrightarrow> (\<forall>d \<in> {rd_dn c, wr_dn c}. d \<noteq> dn \<longrightarrow> m d = None)"

definition peer_ok :: "('s \<Rightarrow> (bytes \<Rightarrow> bytes option) \<Rightarrow> nat \<Rightarrow> bool) \<Rightarrow> gsgp2cosim \<Rightarrow> ('s, u64 \<Rightarrow> u32) peer \<Rightarrow> bool" where
  "peer_ok rep c peer \<longleftrightarrow> (\<forall>k s m n mem. rep s m n \<longrightarrow> 0 < n \<longrightarrow> requests_ok c m \<longrightarrow>
     (\<exists>s' m' n' mem'. peer k (s, mem) = (s', mem') \<and> rep s' m' n' \<and> rtl_step c (m, n, mem) (m', n', mem')))"

definition peer_serves :: "('s \<Rightarrow> (bytes \<Rightarrow> bytes option) \<Rightarrow> nat \<Rightarrow> bool) \<Rightarrow> gsgp2cosim \<Rightarrow> ('s, u64 \<Rightarrow> u32) peer \<Rightarrow>
    bytes \<Rightarrow> nat \<Rightarrow> bool" where
  "peer_serves rep c peer dn j \<longleftrightarrow> (\<forall>s m n mem. rep s m n \<longrightarrow> 0 < n \<longrightarrow>
     requests_ok c m \<longrightarrow> only_request c dn m \<longrightarrow> m dn \<noteq> None \<longrightarrow>
     (\<exists>s' m' n' mem'. peer j (s, mem) = (s', mem') \<and> rep s' m' n' \<and> rtl_step c (m, n, mem) (m', n', mem') \<and> m' dn = None))"

lemma key_neq: "wr_up c \<noteq> wr_dn c" "wr_up c \<noteq> rd_up c" "wr_up c \<noteq> rd_dn c" "wr_dn c \<noteq> rd_up c"
  "wr_dn c \<noteq> rd_dn c" "rd_up c \<noteq> rd_dn c"
  by (simp_all add: wr_up_def wr_dn_def rd_up_def rd_dn_def bytes_of_def)

lemmas key_neqs [simp] = key_neq key_neq [symmetric]

definition ops_of :: "('s \<Rightarrow> bytes \<Rightarrow> bytes \<Rightarrow> (bool \<times> 's) option) \<Rightarrow> ('s \<Rightarrow> bytes \<Rightarrow> (bytes \<times> 's) option) \<Rightarrow>
    ('s \<Rightarrow> bytes \<Rightarrow> (bool \<times> 's) option) \<Rightarrow> 's kv_ops" where
  "ops_of put get del = \<lparr>kv_put = put, kv_get = get, kv_del = del\<rparr>"

lemma ops_of_simps [simp]: "kv_put (ops_of put get del) = put" "kv_get (ops_of put get del) = get"
  "kv_del (ops_of put get del) = del"
  by (simp_all add: ops_of_def)

section \<open>The transactor over any store\<close>

text \<open>The states a read and a write go through while they wait.\<close>

definition rd_inv :: "gsgp2cosim \<Rightarrow> bytes \<Rightarrow> nat \<Rightarrow> (u64 \<Rightarrow> u32) \<Rightarrow> link \<Rightarrow> bool" where
  "rd_inv c req n0 mem0 = (\<lambda>(m, n, mem). mem = mem0 \<and> m (wr_dn c) = None \<and> 0 < n0 \<and> length req = 16 \<and>
     (m (rd_dn c) = Some req \<and> m (rd_up c) = None \<and> n = Suc n0 \<or>
      m (rd_dn c) = None \<and> n = n0 \<and> (\<exists>v. m (rd_up c) = Some v \<and> length v = 16 \<and> tp_data v = mem0 (tp_addr req))))"

definition wr_inv :: "gsgp2cosim \<Rightarrow> bytes \<Rightarrow> nat \<Rightarrow> (u64 \<Rightarrow> u32) \<Rightarrow> link \<Rightarrow> bool" where
  "wr_inv c req n0 mem0 = (\<lambda>(m, n, mem). m (rd_dn c) = None \<and> 0 < n0 \<and> length req = 16 \<and>
     (m (wr_dn c) = Some req \<and> m (wr_up c) = None \<and> n = Suc n0 \<and> mem = mem0 \<or>
      m (wr_dn c) = None \<and> m (wr_up c) \<noteq> None \<and> n = n0 \<and> mem = mem0(tp_addr req := tp_data req)))"

lemma rd_inv_step: "rd_inv c req n0 mem0 (m, n, mem) \<Longrightarrow> m (rd_up c) = None \<Longrightarrow>
  rtl_step c (m, n, mem) (m', n', mem') \<Longrightarrow> rd_inv c req n0 mem0 (m', n', mem')"
  by (auto simp: rd_inv_def rtl_step_simps)

lemma wr_inv_step: "wr_inv c req n0 mem0 (m, n, mem) \<Longrightarrow> m (wr_up c) = None \<Longrightarrow>
  rtl_step c (m, n, mem) (m', n', mem') \<Longrightarrow> wr_inv c req n0 mem0 (m', n', mem')"
  by (auto simp: wr_inv_def rtl_step_simps)

text \<open>An invariant of the waiting loop on the stream \<open>dn\<close>, \<open>up\<close>: the peer's steps keep it until there is an
  answer, and exactly one of request and answer is there.\<close>

definition await_inv :: "gsgp2cosim \<Rightarrow> bytes \<Rightarrow> bytes \<Rightarrow> (link \<Rightarrow> bool) \<Rightarrow> bool" where
  "await_inv c up dn I \<longleftrightarrow> (\<forall>m n mem. I (m, n, mem) \<longrightarrow>
     0 < n \<and> requests_ok c m \<and> only_request c dn m \<and> (m up = None \<longleftrightarrow> m dn \<noteq> None) \<and>
     (\<forall>m' n' mem'. m up = None \<longrightarrow> rtl_step c (m, n, mem) (m', n', mem') \<longrightarrow> I (m', n', mem')))"

lemma rd_await: "await_inv c (rd_up c) (rd_dn c) (rd_inv c req n0 mem0)"
  unfolding await_inv_def
proof (intro allI impI)
  fix m n mem
  assume I: "rd_inv c req n0 mem0 (m, n, mem)"
  then have "0 < n" "requests_ok c m" "only_request c (rd_dn c) m" "m (rd_up c) = None \<longleftrightarrow> m (rd_dn c) \<noteq> None" 
    by (auto simp: rd_inv_def requests_ok_def only_request_def)
  with rd_inv_step [OF I] show "0 < n \<and> requests_ok c m \<and> only_request c (rd_dn c) m \<and>
      (m (rd_up c) = None \<longleftrightarrow> m (rd_dn c) \<noteq> None) \<and>
      (\<forall>m' n' mem'. m (rd_up c) = None \<longrightarrow> rtl_step c (m, n, mem) (m', n', mem') \<longrightarrow> rd_inv c req n0 mem0 (m', n', mem'))"
    by simp
qed

lemma wr_await: "await_inv c (wr_up c) (wr_dn c) (wr_inv c req n0 mem0)"
  unfolding await_inv_def
proof (intro allI impI)
  fix m n mem
  assume I: "wr_inv c req n0 mem0 (m, n, mem)"
  then have "0 < n" "requests_ok c m" "only_request c (wr_dn c) m" "m (wr_up c) = None \<longleftrightarrow> m (wr_dn c) \<noteq> None" 
    by (auto simp: wr_inv_def requests_ok_def only_request_def)
  with wr_inv_step [OF I] show "0 < n \<and> requests_ok c m \<and> only_request c (wr_dn c) m \<and>
      (m (wr_up c) = None \<longleftrightarrow> m (wr_dn c) \<noteq> None) \<and>
      (\<forall>m' n' mem'. m (wr_up c) = None \<longrightarrow> rtl_step c (m, n, mem) (m', n', mem') \<longrightarrow> wr_inv c req n0 mem0 (m', n', mem'))"
    by simp
qed

lemma await_invD:
  assumes "await_inv c up dn I" and "I (m, n, mem)"
  shows "0 < n \<and> requests_ok c m \<and> only_request c dn m" and "m up = None \<longleftrightarrow> m dn \<noteq> None"
    and "m up = None \<Longrightarrow> rtl_step c (m, n, mem) (m', n', mem') \<Longrightarrow> I (m', n', mem')"
  using assms unfolding await_inv_def by blast+

context kv_store
begin

lemma drop_stale_ok:
  assumes "rep s m n" and "key_ok up" and "key_ok dn" and "up \<noteq> dn"
  shows "\<exists>s'. drop_stale (ops_of put get del) up dn mu md s =
      Some ((if m up \<noteq> None then [mu] else []) @ (if m dn \<noteq> None then [md] else []), s') \<and>
    rep s' (m(up := None, dn := None)) n"
proof -
  obtain x where x: "get s dn = Some (x, s)" "x = [] \<longleftrightarrow> m dn = None"
    using get_empty_iff [OF assms(1,3)] by (elim exE conjE)
  obtain y s1 where y: "get s up = Some (y, s)"
      "(if y \<noteq> [] then del s up else Some (False, s)) = Some (m up \<noteq> None, s1)" and r1: "rep s1 (m(up := None)) n"
    using del_if_ok [OF assms(1,2)] by (elim exE conjE)
  have y0: "y = [] \<longleftrightarrow> m up = None" using get_empty_iff [OF assms(1,2)] y(1) by auto
  obtain s2 where s2: "del s1 dn = Some (m dn \<noteq> None, s2)" "rep s2 (m(up := None, dn := None)) n"
    using del_ok [OF r1 assms(3)] assms(4) by auto
  have "m(up := None, dn := None) = m(up := None)" if "m dn = None" using that assms(4) by auto
  with x y y0 r1 s2 show ?thesis by (auto simp: drop_stale_def split: if_splits)
qed

text \<open>The waiting loop: an invariant of the peer's steps holds at the end, an answer is what the database
  then holds, and a peer that serves in time is heard.\<close>

lemma await_ok:
  assumes "peer_ok rep c peer" and "key_ok up"
    and inv: "await_inv c up dn I"
  shows "rep s m n \<Longrightarrow> I (m, n, mem) \<Longrightarrow> \<exists>answer s' m' n' mem'.
    await_answer (ops_of put get del) peer up t k (s, mem) = Some (answer, s', mem') \<and> rep s' m' n' \<and> I (m', n', mem') \<and>
    (\<forall>x. answer = Some x \<longrightarrow> (\<exists>v. m' up = Some v \<and> take (length v) x = v)) \<and>
    ((\<exists>j < t. peer_serves rep c peer dn (k + j)) \<longrightarrow> answer \<noteq> None)"
proof (induction t arbitrary: s m n mem k)
  case 0
  show ?case
  proof (cases "m up")
    case None
    obtain s' m' n' mem' where p: "peer k (s, mem) = (s', mem')" "rep s' m' n'" "rtl_step c (m, n, mem) (m', n', mem')"
      using assms(1) 0(1) await_invD(1) [OF inv 0(2)] unfolding peer_ok_def by meson
    have "I (m', n', mem')" using await_invD(3) [OF inv 0(2) None p(3)] .
    with p None get_None [OF 0(1) assms(2)] show ?thesis by auto
  next
    case (Some v)
    with get_Some [OF 0(1) assms(2)] 0 show ?thesis by fastforce
  qed
next
  case (Suc t)
  show ?case
  proof (cases "m up")
    case None
    then have mdn: "m dn \<noteq> None" using await_invD(2) [OF inv Suc.prems(2)] by simp
    obtain s' m' n' mem' where p: "peer k (s, mem) = (s', mem')" "rep s' m' n'" "rtl_step c (m, n, mem) (m', n', mem')"
      and served: "peer_serves rep c peer dn k \<longrightarrow> m' dn = None"
    proof (cases "peer_serves rep c peer dn k")
      case True
      then show ?thesis using that Suc.prems(1) await_invD(1) [OF inv Suc.prems(2)] mdn unfolding peer_serves_def by meson
    next
      case False
      then show ?thesis using that assms(1) Suc.prems(1) await_invD(1) [OF inv Suc.prems(2)] unfolding peer_ok_def by meson
    qed
    have I: "I (m', n', mem')" using await_invD(3) [OF inv Suc.prems(2) None p(3)] .
    obtain answer s2 m2 n2 mem2 where IH:
      "await_answer (ops_of put get del) peer up t (Suc k) (s', mem') = Some (answer, s2, mem2)" "rep s2 m2 n2" "I (m2, n2, mem2)"
      "\<forall>x. answer = Some x \<longrightarrow> (\<exists>v. m2 up = Some v \<and> take (length v) x = v)"
      "(\<exists>j < t. peer_serves rep c peer dn (Suc k + j)) \<longrightarrow> answer \<noteq> None"
      using Suc.IH [OF p(2) I, of "Suc k"] by blast
    have "answer \<noteq> None" if "peer_serves rep c peer dn k"
    proof -
      from that served have "m' up \<noteq> None" using await_invD(2) [OF inv I] by simp
      then obtain x where "get s' up = Some (x, s')" "x \<noteq> []" using get_Some [OF p(2) assms(2)] by blast
      with IH(1) show ?thesis by (cases t) auto
    qed
    moreover have "peer_serves rep c peer dn k \<or> (\<exists>j < t. peer_serves rep c peer dn (Suc k + j))"
      if "\<exists>j < Suc t. peer_serves rep c peer dn (k + j)"
      using that by (metis add_0_right add_Suc_right add_Suc_shift less_Suc_eq_0_disj)
    ultimately show ?thesis using IH p(1) get_None [OF Suc.prems(1) assms(2) None] by auto
  next
    case (Some v)
    with get_Some [OF Suc.prems(1) assms(2)] Suc.prems show ?thesis by fastforce
  qed
qed

text \<open>The messages about stale entries.\<close>

lemma transact_rd_ok:
  assumes peer: "peer_ok rep c peer" and keys: "key_ok (rd_up c)" "key_ok (rd_dn c)"
    and fits: "fits (rd_dn c) req" and req: "req = trans_payload (g_data g) (g_pad g) (txn_address c t)" "length (g_pad g) = 4"
    and rep: "rep s m (Suc (Suc n0))" "0 < n0" and wr: "m (wr_dn c) = None"
  shows "\<exists>msgs t' ms s' m' n'. transact_rd (ops_of put get del) peer g c t (s, mem) = Some (t', msgs @ ms, s', mem) \<and>
    rep s' m' n' \<and> n0 \<le> n' \<and> m' (rd_up c) = None \<and> m' (wr_dn c) = None \<and>
    (ms = [] \<and> t' = t\<lparr>ct_data := le_bytes 4 (mem (txn_address c t))\<rparr> \<and> m' (rd_dn c) = None \<or>
     ms = [''Read timeout''] \<and> t' = t) \<and>
    (msgs = [] \<longleftrightarrow> m (rd_up c) = None \<and> m (rd_dn c) = None) \<and>
    ((\<exists>j < unat (shm_timeout c). peer_serves rep c peer (rd_dn c) j) \<longrightarrow> ms = [])"
proof -
  let ?ops = "ops_of put get del" and ?I = "rd_inv c req n0 mem"
  let ?mu = "''ERROR: The last read up stream FIFO is not empty!''"
  let ?md = "''ERROR: The last read down stream is not done yet!''"
  define msgs where "msgs = (if m (rd_up c) \<noteq> None then [?mu] else []) @ (if m (rd_dn c) \<noteq> None then [?md] else [])"
  obtain s1 where s1: "drop_stale ?ops (rd_up c) (rd_dn c) ?mu ?md s = Some (msgs, s1)"
      "rep s1 (m(rd_up c := None, rd_dn c := None)) (Suc (Suc n0))"
    using drop_stale_ok [OF rep(1) keys] unfolding msgs_def by auto
  let ?m = "m(rd_up c := None, rd_dn c := Some req)"
  obtain s2 where s2: "put s1 (rd_dn c) req = Some (True, s2)" "rep s2 ?m (Suc n0)"
    using put_ok [OF s1(2) fits] by auto
  have I: "?I (?m, Suc n0, mem)" using rep(2) wr trans_payload_fields(3) [OF req(2)] by (simp add: rd_inv_def req(1))
  obtain answer s3 m3 n3 mem3 where a: "await_answer ?ops peer (rd_up c) (unat (shm_timeout c)) 0 (s2, mem) = Some (answer, s3, mem3)"
      "rep s3 m3 n3" "?I (m3, n3, mem3)" "\<forall>x. answer = Some x \<longrightarrow> (\<exists>v. m3 (rd_up c) = Some v \<and> take (length v) x = v)"
      "(\<exists>j < unat (shm_timeout c). peer_serves rep c peer (rd_dn c) (0 + j)) \<longrightarrow> answer \<noteq> None"
    using await_ok [where t = "unat (shm_timeout c)" and k = 0, OF peer keys(1) rd_await s2(2) I]
    by (elim exE conjE)
  have mem3: "mem3 = mem" "n0 \<le> n3" "m3 (wr_dn c) = None" using a(3) by (auto simp: rd_inv_def)
  obtain b s4 where s4: "del s3 (rd_up c) = Some (b, s4)" "rep s4 (m3(rd_up c := None)) n3"
    using del_ok [OF a(2) keys(1)] by blast
  show ?thesis
  proof (cases answer)
    case None
    have "transact_rd ?ops peer g c t (s, mem) = Some (t, msgs @ [''Read timeout''], s4, mem)"
      using s1(1) s2(1) a(1) s4(1) None mem3(1) by (simp add: transact_rd_def req(1))
    with None s4(2) mem3 a(5) show ?thesis
      by (intro exI [of _ msgs] exI [of _ t] exI [of _ "[''Read timeout'']"] exI [of _ s4]
          exI [of _ "m3(rd_up c := None)"] exI [of _ n3]) (simp add: msgs_def)
  next
    case (Some x)
    then obtain v where v: "m3 (rd_up c) = Some v" "take (length v) x = v" using a(4) by blast
    with a(3) have "length v = 16" "tp_data v = mem (tp_addr req)" "m3 (rd_dn c) = None"
      by (auto simp: rd_inv_def)
    moreover from this(1) v(2) have "take 4 x = take 4 v" by (metis min.absorb1 numeral_le_iff semiring_norm(68,71,69) take_take)
    ultimately have x: "tp_data x = mem (txn_address c t)" "m3 (rd_dn c) = None"
      using trans_payload_fields(2) [OF req(2)] by (simp_all add: tp_data_def req(1))
    have "transact_rd ?ops peer g c t (s, mem) = Some (t\<lparr>ct_data := le_bytes 4 (mem (txn_address c t))\<rparr>, msgs, s4, mem)"
      using s1(1) s2(1) a(1) s4(1) Some mem3(1) x(1) by (simp add: transact_rd_def req(1))
    with s4(2) mem3 x(2) show ?thesis
      by (intro exI [of _ msgs] exI [of _ "t\<lparr>ct_data := le_bytes 4 (mem (txn_address c t))\<rparr>"] exI [of _ "[]"] exI [of _ s4]
          exI [of _ "m3(rd_up c := None)"] exI [of _ n3]) (simp add: msgs_def)
  qed
qed

lemma transact_wr_ok:
  assumes peer: "peer_ok rep c peer" and keys: "key_ok (wr_up c)" "key_ok (wr_dn c)"
    and fits: "fits (wr_dn c) req" and req: "req = trans_payload d (g_pad g) (txn_address c t)" "length (g_pad g) = 4"
    and d: "ct_data t = le_bytes 4 d"
    and rep: "rep s m (Suc (Suc n0))" "0 < n0" and rd: "m (rd_dn c) = None"
  shows "\<exists>msgs ms s' m' n' mem'. transact_wr (ops_of put get del) peer g c t (s, mem) = Some (t, msgs @ ms, s', mem') \<and>
    rep s' m' n' \<and> n0 \<le> n' \<and> m' (wr_up c) = None \<and> m' (rd_dn c) = None \<and>
    (ms = [] \<and> mem' = mem(txn_address c t := d) \<and> m' (wr_dn c) = None \<or>
     ms = [''Write timeout''] \<and> (mem' = mem \<or> mem' = mem(txn_address c t := d))) \<and>
    (msgs = [] \<longleftrightarrow> m (wr_up c) = None \<and> m (wr_dn c) = None) \<and>
    ((\<exists>j < unat (shm_timeout c). peer_serves rep c peer (wr_dn c) j) \<longrightarrow> ms = [])"
proof -
  let ?ops = "ops_of put get del" and ?I = "wr_inv c req n0 mem"
  let ?mu = "''ERROR: The last write up stream FIFO is not empty!''"
  let ?md = "''ERROR: The last write down stream is not done yet!''"
  define msgs where "msgs = (if m (wr_up c) \<noteq> None then [?mu] else []) @ (if m (wr_dn c) \<noteq> None then [?md] else [])"
  obtain s1 where s1: "drop_stale ?ops (wr_up c) (wr_dn c) ?mu ?md s = Some (msgs, s1)"
      "rep s1 (m(wr_up c := None, wr_dn c := None)) (Suc (Suc n0))"
    using drop_stale_ok [OF rep(1) keys] unfolding msgs_def by auto
  let ?m = "m(wr_up c := None, wr_dn c := Some req)"
  obtain s2 where s2: "put s1 (wr_dn c) req = Some (True, s2)" "rep s2 ?m (Suc n0)"
    using put_ok [OF s1(2) fits] by auto
  have I: "?I (?m, Suc n0, mem)" using rep(2) rd trans_payload_fields(3) [OF req(2)] by (simp add: wr_inv_def req(1))
  obtain answer s3 m3 n3 mem3 where a: "await_answer ?ops peer (wr_up c) (unat (shm_timeout c)) 0 (s2, mem) = Some (answer, s3, mem3)"
      "rep s3 m3 n3" "?I (m3, n3, mem3)" "\<forall>x. answer = Some x \<longrightarrow> (\<exists>v. m3 (wr_up c) = Some v \<and> take (length v) x = v)"
      "(\<exists>j < unat (shm_timeout c). peer_serves rep c peer (wr_dn c) (0 + j)) \<longrightarrow> answer \<noteq> None"
    using await_ok [where t = "unat (shm_timeout c)" and k = 0, OF peer keys(1) wr_await s2(2) I]
    by (elim exE conjE)
  have fields: "tp_addr req = txn_address c t" "tp_data req = d"
    using trans_payload_fields [OF req(2)] by (simp_all add: req(1))
  obtain b s4 where s4: "del s3 (wr_up c) = Some (b, s4)" "rep s4 (m3(wr_up c := None)) n3"
    using del_ok [OF a(2) keys(1)] by blast
  have run: "transact_wr ?ops peer g c t (s, mem) =
      Some (t, msgs @ (if answer = None then [''Write timeout''] else []), s4, mem3)"
    using s1(1) s2(1) a(1) s4(1) by (simp add: transact_wr_def req(1) d)
  show ?thesis
  proof (cases answer)
    case None
    with run s4(2) a(3,5) fields show ?thesis
      by (intro exI [of _ msgs] exI [of _ "[''Write timeout'']"] exI [of _ s4]
          exI [of _ "m3(wr_up c := None)"] exI [of _ n3] exI [of _ mem3]) (auto simp: msgs_def wr_inv_def)
  next
    case (Some x)
    then have "m3 (wr_up c) \<noteq> None" using a(4) by blast
    with Some run s4(2) a(3) fields show ?thesis
      by (intro exI [of _ msgs] exI [of _ "[]"] exI [of _ s4]
          exI [of _ "m3(wr_up c := None)"] exI [of _ n3] exI [of _ mem3]) (auto simp: msgs_def wr_inv_def)
  qed
qed

end

section \<open>A peer that serves every request\<close>

text \<open>An RTL side that answers at every wait, reads before writes: it shows that the protocol can be kept
  with the store's own operations.\<close>

definition rtl_server :: "'s kv_ops \<Rightarrow> gsgp2cosim \<Rightarrow> ('s, u64 \<Rightarrow> u32) peer" where
  "rtl_server ops c k sw = (case sw of (s, mem) \<Rightarrow> the (do {
     (x, s) \<leftarrow> kv_get ops s (rd_dn c);
     (y, s) \<leftarrow> kv_get ops s (wr_dn c);
     if x \<noteq> [] then do {
       (_, s) \<leftarrow> kv_del ops s (rd_dn c);
       (_, s) \<leftarrow> kv_put ops s (rd_up c) (trans_payload (mem (tp_addr x)) [0, 0, 0, 0] 0);
       Some (s, mem) }
     else if y \<noteq> [] then do {
       (_, s) \<leftarrow> kv_del ops s (wr_dn c);
       (_, s) \<leftarrow> kv_put ops s (wr_up c) (trans_payload 0 [0, 0, 0, 0] 0);
       Some (s, mem(tp_addr y := tp_data y)) }
     else Some (s, mem) }))"

text \<open>The four keys of a transactor can hold payloads.\<close>

definition cosim_keys :: "(bytes \<Rightarrow> bytes \<Rightarrow> bool) \<Rightarrow> gsgp2cosim \<Rightarrow> bool" where
  "cosim_keys fits c \<longleftrightarrow> (\<forall>k \<in> {wr_up c, wr_dn c, rd_up c, rd_dn c}. \<forall>v. length v = 16 \<longrightarrow> fits k v)"

lemma tp_take: "length p = 16 \<Longrightarrow> take (length p) x = p \<Longrightarrow> tp_addr x = tp_addr p \<and> tp_data x = tp_data p"
proof -
  assume p: "length p = 16" "take (length p) x = p"
  have "take 4 x = take 4 (take 16 x)" "take 8 (drop 8 x) = take 8 (drop 8 (take 16 x))"
    by (simp_all add: drop_take)
  moreover have "take 16 x = p" using p by simp
  ultimately have "take 4 x = take 4 p" "take 8 (drop 8 x) = take 8 (drop 8 p)" by (simp_all only:)
  then show ?thesis by (simp add: tp_addr_def tp_data_def)
qed

context kv_store
begin

lemma cosim_keys_ok:
  assumes "cosim_keys fits c"
  shows "key_ok (wr_up c)" and "key_ok (wr_dn c)" and "key_ok (rd_up c)" and "key_ok (rd_dn c)"
  using assms fits_key [of _ "replicate 16 0"] by (simp_all add: cosim_keys_def)

lemma server_step:
  assumes keys: "cosim_keys fits c" and rep: "rep s m n" "0 < n" and reqs: "requests_ok c m"
  shows "\<exists>s' m' n' mem'. rtl_server (ops_of put get del) c k (s, mem) = (s', mem') \<and> rep s' m' n' \<and>
    rtl_step c (m, n, mem) (m', n', mem') \<and> (m (rd_dn c) \<noteq> None \<longrightarrow> m' (rd_dn c) = None) \<and>
    (m (rd_dn c) = None \<longrightarrow> m' (wr_dn c) = None)"
proof -
  note ok = cosim_keys_ok [OF keys]
  obtain n1 where n: "n = Suc n1" using rep(2) by (cases n) auto
  obtain x where x: "get s (rd_dn c) = Some (x, s)" "x = [] \<longleftrightarrow> m (rd_dn c) = None"
    using get_empty_iff [OF rep(1) ok(4)] by (elim exE conjE)
  obtain y where y: "get s (wr_dn c) = Some (y, s)" "y = [] \<longleftrightarrow> m (wr_dn c) = None"
    using get_empty_iff [OF rep(1) ok(2)] by (elim exE conjE)
  consider (rd) p where "m (rd_dn c) = Some p" | (wr) p where "m (rd_dn c) = None" "m (wr_dn c) = Some p"
    | (none) "m (rd_dn c) = None" "m (wr_dn c) = None" by fastforce
  then show ?thesis
  proof cases
    case rd
    let ?v = "trans_payload (mem (tp_addr p)) [0, 0, 0, 0] 0"
    have p: "length p = 16" using reqs rd by (simp add: requests_ok_def)
    have "take (length p) x = p" using get_Some [OF rep(1) ok(4) rd] x(1) by auto
    then have "tp_addr x = tp_addr p" by (rule tp_take [OF p, THEN conjunct1])
    moreover obtain s1 where s1: "del s (rd_dn c) = Some (m (rd_dn c) \<noteq> None, s1)" "rep s1 (m(rd_dn c := None)) (Suc n1)"
      using del_ok [OF rep(1) [unfolded n] ok(4)] by (elim exE conjE)
    moreover have "fits (rd_up c) ?v" using keys by (simp add: cosim_keys_def trans_payload_fields)
    then obtain s2 where "put s1 (rd_up c) ?v = Some (True, s2)" "rep s2 (m(rd_dn c := None, rd_up c \<mapsto> ?v)) n1"
      using put_ok [OF s1(2)] by blast
    moreover have "rtl_step c (m, n, mem) (m(rd_dn c := None, rd_up c \<mapsto> ?v), n1, mem)"
      unfolding n using rd by (rule serve_read) (simp_all add: trans_payload_fields)
    ultimately show ?thesis using x y rd
      by (intro exI [of _ s2] exI [of _ "m(rd_dn c := None, rd_up c \<mapsto> ?v)"] exI [of _ n1] exI [of _ mem])
        (simp add: rtl_server_def)
  next
    case wr
    let ?v = "trans_payload 0 [0, 0, 0, 0] 0"
    have p: "length p = 16" using reqs wr by (simp add: requests_ok_def)
    have "take (length p) y = p" using get_Some [OF rep(1) ok(2) wr(2)] y(1) by auto
    note y_fields = tp_take [OF p this, THEN conjunct1] tp_take [OF p this, THEN conjunct2]
    obtain s1 where s1: "del s (wr_dn c) = Some (m (wr_dn c) \<noteq> None, s1)" "rep s1 (m(wr_dn c := None)) (Suc n1)"
      using del_ok [OF rep(1) [unfolded n] ok(2)] by (elim exE conjE)
    moreover have "fits (wr_up c) ?v" using keys by (simp add: cosim_keys_def trans_payload_fields)
    then obtain s2 where "put s1 (wr_up c) ?v = Some (True, s2)" "rep s2 (m(wr_dn c := None, wr_up c \<mapsto> ?v)) n1"
      using put_ok [OF s1(2)] by blast
    moreover have "rtl_step c (m, n, mem) (m(wr_dn c := None, wr_up c \<mapsto> ?v), n1, mem(tp_addr p := tp_data p))"
      unfolding n using wr(2) by (rule serve_write)
    ultimately show ?thesis using x y wr y_fields s1(1)
      by (intro exI [of _ s2] exI [of _ "m(wr_dn c := None, wr_up c \<mapsto> ?v)"] exI [of _ n1]
          exI [of _ "mem(tp_addr p := tp_data p)"]) (simp add: rtl_server_def)
  next
    case none
    then show ?thesis using x y rep(1)
      by (intro exI [of _ s] exI [of _ m] exI [of _ n] exI [of _ mem]) (simp add: rtl_server_def rtl_step.idle)
  qed
qed

lemma server_ok: "cosim_keys fits c \<Longrightarrow> peer_ok rep c (rtl_server (ops_of put get del) c)"
  unfolding peer_ok_def using server_step by meson

lemma server_serves:
  assumes "cosim_keys fits c" and "dn = rd_dn c \<or> dn = wr_dn c"
  shows "peer_serves rep c (rtl_server (ops_of put get del) c) dn j"
  unfolding peer_serves_def
proof (intro allI impI)
  fix s m n mem
  assume a: "rep s m n" "0 < n" "requests_ok c m" "only_request c dn m" "m dn \<noteq> None"
  have "dn = wr_dn c \<Longrightarrow> m (rd_dn c) = None" using a(4) by (auto simp: only_request_def)
  from server_step [OF assms(1) a(1-3), where mem = mem and k = j] obtain s' m' n' mem' where
    r: "rtl_server (ops_of put get del) c j (s, mem) = (s', mem')" "rep s' m' n'" "rtl_step c (m, n, mem) (m', n', mem')"
    and gone: "m (rd_dn c) \<noteq> None \<longrightarrow> m' (rd_dn c) = None" "m (rd_dn c) = None \<longrightarrow> m' (wr_dn c) = None"
    by (elim exE conjE)
  have "m' dn = None" using assms(2) a(5) gone \<open>dn = wr_dn c \<Longrightarrow> m (rd_dn c) = None\<close> by (elim disjE) simp_all
  with r show "\<exists>s' m' n' mem'. rtl_server (ops_of put get del) c j (s, mem) = (s', mem') \<and> rep s' m' n' \<and>
      rtl_step c (m, n, mem) (m', n', mem') \<and> m' dn = None"
    by (intro exI conjI)
qed

end

section \<open>A small link\<close>

definition small_cosim :: gsgp2cosim where
  "small_cosim = \<lparr>shm_name_str = ''r'', shm_timeout = 5, addr_offset = 0, base_addr = 0\<rparr>"

text \<open>A database of the size the transactors ask for (\<open>SIMDB_BLOCK_SIZE\<close>, \<open>SIMDB_BLOCK_COUNT\<close>).\<close>

definition cosim_params :: "gsgp2cosim \<Rightarrow> db_params" where
  "cosim_params c = \<lparr>dp_keys = {wr_up c, wr_dn c, rd_up c, rd_dn c}, dp_chain = 1, dp_sz = 1024, dp_bs = 1024\<rparr>"

lemma small_cosim_homes: "HashBytes (wr_up small_cosim) mod 1024 = 440" "HashBytes (wr_dn small_cosim) mod 1024 = 715"
  "HashBytes (rd_up small_cosim) mod 1024 = 169" "HashBytes (rd_dn small_cosim) mod 1024 = 478"
  by code_simp+

lemma small_cosim_lengths: "length (wr_up small_cosim) = 7" "length (wr_dn small_cosim) = 7"
  "length (rd_up small_cosim) = 7" "length (rd_dn small_cosim) = 7"
  by (simp_all add: wr_up_def wr_dn_def rd_up_def rd_dn_def bytes_of_def small_cosim_def)

lemma card_le_4: "card {a, b, c, d} \<le> 4"
  using card_length [of "[a, b, c, d]"] by simp

lemma small_cosim_ok: "params_ok (cosim_params small_cosim)"
proof -
  have "k \<noteq> [] \<and> length k < 2 ^ 32 \<and> length k mod 1024 \<noteq> 0" if "k \<in> dp_keys (cosim_params small_cosim)" for k
    using that small_cosim_lengths by (auto simp: cosim_params_def)
  then show ?thesis
    using card_le_4 [of "wr_up small_cosim" "wr_dn small_cosim" "rd_up small_cosim" "rd_dn small_cosim"]
    by (auto simp: params_ok_def cosim_params_def home_def small_cosim_homes inj_on_def)
qed

lemma small_cosim_keys: "cosim_keys (db_fits (cosim_params small_cosim)) small_cosim"
proof -
  have "ceil_div 23 1024 \<le> 1" by (simp add: ceil_div_def)
  then show ?thesis
    by (auto simp: cosim_keys_def db_fits_def db_key_ok_def small_cosim_ok small_cosim_lengths)
      (simp_all add: cosim_params_def)
qed

lemma small_link: "\<exists>db. db_rep (cosim_params small_cosim) db Map.empty (2 ^ 32 - 1)"
  using simdb_init_rep [of 1024 1024 "replicate 1024 0" "replicate (1024 * 1024) 0" "replicate 1024 0" "cosim_params small_cosim"]
  by (auto simp: cosim_params_def)

lemma cosim_db_ops_eq: "cosim_db_ops = ops_of sd_put (sd_get_vec 16) sd_del"
  by (simp add: cosim_db_ops_def ops_of_def)

definition small_garbage :: garbage where
  "small_garbage = \<lparr>g_pad = [0xAA, 0xBB, 0xCC, 0xDD], g_data = 0xDEADBEEF\<rparr>"

section \<open>Properties\<close>


lemma small_serves: "dn = rd_dn small_cosim \<or> dn = wr_dn small_cosim \<Longrightarrow>
    \<exists>j < unat (shm_timeout small_cosim). peer_serves (db_rep (cosim_params small_cosim)) small_cosim
      (rtl_server cosim_db_ops small_cosim) dn j"
  "peer_ok (db_rep (cosim_params small_cosim)) small_cosim (rtl_server cosim_db_ops small_cosim)"
  using db16.server_serves [OF small_cosim_keys, of dn 0] db16.server_ok [OF small_cosim_keys]
  by (auto simp: cosim_db_ops_eq small_cosim_def intro: exI [of _ 0])





text \<open>A write and then a read of the same address.\<close>

lemma write_then_read:
  assumes "peer_ok (db_rep P) c peer" and "cosim_keys (db_fits P) c" and "length (g_pad g) = 4"
    and "\<forall>dn \<in> {rd_dn c, wr_dn c}. \<exists>j < unat (shm_timeout c). peer_serves (db_rep P) c peer dn j"
    and "db_rep P db m (Suc (Suc (Suc (Suc n0))))" and "0 < n0"
    and "\<forall>k \<in> {wr_up c, wr_dn c, rd_up c, rd_dn c}. m k = None"
    and "tw = \<lparr>ct_cmd = CMD_WR, ct_addr = a, ct_data = le_bytes 4 (d :: u32)\<rparr>"
    and "tr = \<lparr>ct_cmd = CMD_RD, ct_addr = a, ct_data = x\<rparr>" and "length x = 4"
  shows "\<exists>db1 db2 mem' msgs. cosim_b_transact cosim_db_ops peer g c tw (db, mem) = Some (Inr (tw, [], db1, mem')) \<and>
    cosim_b_transact cosim_db_ops peer g c tr (db1, mem') =
      Some (Inr (tr\<lparr>ct_data := le_bytes 4 d\<rparr>, msgs, db2, mem'))"
proof -
  let ?a = "txn_address c tw"
  have fw: "db_fits P (wr_dn c) (trans_payload d (g_pad g) ?a)"
    and fr: "db_fits P (rd_dn c) (trans_payload (g_data g) (g_pad g) (txn_address c tr))"
    using assms(2,3) by (simp_all add: cosim_keys_def trans_payload_fields)
  obtain db1 m1 n1 where w: "transact_wr cosim_db_ops peer g c tw (db, mem) = Some (tw, [], db1, mem(?a := d))"
      "db_rep P db1 m1 n1" "Suc (Suc n0) \<le> n1" "m1 (wr_dn c) = None"
    using db16.transact_wr_ok [OF assms(1) db16.cosim_keys_ok(1,2) [OF assms(2)] fw refl assms(3) _ assms(5), of mem]
      assms(4,6,7,8) by (auto simp: cosim_db_ops_eq)
  then obtain n2 where n2: "n1 = Suc (Suc n2)" "0 < n2" using assms(6) by (cases n1; cases "n1 - 1") auto
  have "\<exists>msgs db2. transact_rd cosim_db_ops peer g c tr (db1, mem(?a := d)) =
      Some (tr\<lparr>ct_data := le_bytes 4 d\<rparr>, msgs, db2, mem(?a := d))"
    using db16.transact_rd_ok [OF assms(1) db16.cosim_keys_ok(3,4) [OF assms(2)] fr refl assms(3) w(2) [unfolded n2(1)] n2(2) w(4),
        of "mem(?a := d)"] assms(4,8,9) by (auto simp: cosim_db_ops_eq txn_address_def)
  with w(1) show ?thesis using assms(8-10) by (auto simp: cosim_b_transact_def)
qed

text \<open>With a peer that serves both streams in time, a write of a word ends without a message, and a read of
  the same address afterwards returns that word and leaves the memory alone.\<close>

theorem cosim_read_after_write:
  assumes "peer_ok (db_rep P) c peer" and "cosim_keys (db_fits P) c" and "length (g_pad g) = 4"
    and "\<forall>dn \<in> {rd_dn c, wr_dn c}. \<exists>j < unat (shm_timeout c). peer_serves (db_rep P) c peer dn j"
    and "db_rep P db m (Suc (Suc (Suc (Suc n0))))" and "0 < n0"
    and "\<forall>k \<in> {wr_up c, wr_dn c, rd_up c, rd_dn c}. m k = None"
    and "tw = \<lparr>ct_cmd = CMD_WR, ct_addr = a, ct_data = le_bytes 4 (d :: u32)\<rparr>"
    and "tr = \<lparr>ct_cmd = CMD_RD, ct_addr = a, ct_data = x\<rparr>" and "length x = 4"
  shows "\<exists>db1 db2 mem' msgs. cosim_b_transact cosim_db_ops peer g c tw (db, mem) = Some (Inr (tw, [], db1, mem')) \<and>
    cosim_b_transact cosim_db_ops peer g c tr (db1, mem') =
      Some (Inr (tr\<lparr>ct_data := le_bytes 4 d\<rparr>, msgs, db2, mem'))"
  using assms by (rule write_then_read)

theorem cosim_read_after_write_witness:
  "\<exists>db db1 mem' db2 msgs. let peer = rtl_server cosim_db_ops small_cosim in
    cosim_b_transact cosim_db_ops peer small_garbage small_cosim
      \<lparr>ct_cmd = CMD_WR, ct_addr = 64, ct_data = le_bytes 4 (9 :: u32)\<rparr> (db, \<lambda>a. 7) =
      Some (Inr (\<lparr>ct_cmd = CMD_WR, ct_addr = 64, ct_data = le_bytes 4 (9 :: u32)\<rparr>, [], db1, mem')) \<and>
    cosim_b_transact cosim_db_ops peer small_garbage small_cosim
      \<lparr>ct_cmd = CMD_RD, ct_addr = 64, ct_data = [0, 0, 0, 0]\<rparr> (db1, mem') =
      Some (Inr (\<lparr>ct_cmd = CMD_RD, ct_addr = 64, ct_data = le_bytes 4 (9 :: u32)\<rparr>, msgs, db2, mem'))"
proof -
  obtain db where "db_rep (cosim_params small_cosim) db Map.empty (2 ^ 32 - 1)" using small_link by blast
  then have "db_rep (cosim_params small_cosim) db Map.empty (Suc (Suc (Suc (Suc (2 ^ 32 - 5)))))" by simp
  from cosim_read_after_write [OF small_serves(2) small_cosim_keys _ _ this _ _ refl refl, of small_garbage "[0, 0, 0, 0]" 64 9 "\<lambda>a. 7"]
  show ?thesis using small_serves(1) unfolding Let_def
    by - (rule exI [of _ db], auto simp: small_garbage_def)
qed

end
