(* ===== verification/Cosim_Irq.thy ===== *)
theory Cosim_Irq
  imports Cosim_Spec
begin

text \<open>
  The interrupt bridge as a system: the thread of \<open>irq2gss\<close>, the database between it and the RTL side,
  and the RTL side, which raises an interrupt when the last one was picked up and clears the thread's
  answer. What was raised and what was sent on are kept beside the state.
\<close>

section \<open>Steps\<close>

text \<open>\<open>iy_budget\<close> counts the values that can still be put: an interrupt takes two.\<close>

record 's irq_sys =
  iy_db :: 's
  iy_thread :: irq2gss
  iy_raised :: "u32 list"
  iy_sent :: "(u32 \<times> u32) list"
  iy_msgs :: "string list"
  iy_budget :: nat

inductive irq_step :: "'s kv_ops \<Rightarrow> 's irq_sys \<Rightarrow> 's irq_sys \<Rightarrow> bool" for ops where
  raise: "kv_get ops (iy_db y) irq_up = Some ([], s) \<Longrightarrow> kv_put ops s irq_up (le_bytes 4 v) = Some (b, s') \<Longrightarrow>
    iy_budget y = Suc (Suc k) \<Longrightarrow>
    irq_step ops y (y\<lparr>iy_db := s', iy_raised := iy_raised y @ [v], iy_budget := k\<rparr>)"
| clear: "kv_del ops (iy_db y) irq_dn = Some (b, s) \<Longrightarrow> irq_step ops y (y\<lparr>iy_db := s\<rparr>)"
| turn: "irq2gss_turn ops (iy_thread y) (iy_db y) = Some (out, msgs, i, s) \<Longrightarrow>
    irq_step ops y (y\<lparr>iy_db := s, iy_thread := i, iy_sent := iy_sent y @ out, iy_msgs := iy_msgs y @ msgs\<rparr>)"

text \<open>The interrupts on their way: one in the database, one the thread has answered.\<close>

definition irq_waiting :: "(bytes \<Rightarrow> bytes option) \<Rightarrow> u32 list" where
  "irq_waiting m = (case m irq_up of None \<Rightarrow> [] | Some p \<Rightarrow> [irq_value_of p])"

definition irq_inv :: "('s \<Rightarrow> (bytes \<Rightarrow> bytes option) \<Rightarrow> nat \<Rightarrow> bool) \<Rightarrow> u32 \<Rightarrow> 's irq_sys \<Rightarrow> bool" where
  "irq_inv rep irq y \<longleftrightarrow> (\<exists>m n done mid. rep (iy_db y) m n \<and> n = iy_budget y + length (irq_waiting m) \<and>
     (\<forall>p. m irq_up = Some p \<longrightarrow> length p = 4) \<and>
     ig_irq_number (iy_thread y) = irq \<and> iy_msgs y = [] \<and>
     iy_raised y = done @ mid @ irq_waiting m \<and> iy_sent y = map (\<lambda>v. (v AND 1, irq)) done \<and>
     (case ig_pc (iy_thread y) of Irq_poll \<Rightarrow> mid = [] \<and> m irq_dn = None | Irq_acked w \<Rightarrow> \<exists>v. mid = [v] \<and> v AND 1 = w))"

lemma irq_keys_neq [simp]: "irq_up \<noteq> irq_dn" "irq_dn \<noteq> irq_up"
  by (simp_all add: irq_up_def irq_dn_def bytes_of_def)

lemma irq_value_take: "length p = 4 \<Longrightarrow> take (length p) x = p \<Longrightarrow> irq_value_of x = irq_value_of p"
  by (simp add: irq_value_of_def)

definition irq_keys :: "(bytes \<Rightarrow> bytes \<Rightarrow> bool) \<Rightarrow> bool" where
  "irq_keys fits \<longleftrightarrow> (\<forall>k \<in> {irq_up, irq_dn}. \<forall>v. length v = 4 \<longrightarrow> fits k v)"

context kv_store
begin

lemma irq_keys_ok:
  assumes "irq_keys fits"
  shows "key_ok irq_up" and "key_ok irq_dn"
  using assms fits_key [of _ "replicate 4 0"] by (simp_all add: irq_keys_def)

text \<open>A turn of the thread, by where it is and what is in the database.\<close>

lemma irq_turn_poll:
  assumes keys: "irq_keys fits" and rep: "rep s m n" and pc: "ig_pc i = Irq_poll" and dn: "m irq_dn = None"
  shows "case m irq_up of
      None \<Rightarrow> irq2gss_turn (ops_of put get del) i s = Some ([], [], i, s)
    | Some p \<Rightarrow> length p = 4 \<longrightarrow> 0 < n \<longrightarrow> (\<exists>s'. irq2gss_turn (ops_of put get del) i s =
        Some ([], [], i\<lparr>ig_pc := Irq_acked (irq_value_of p AND 1)\<rparr>, s') \<and>
        rep s' (m(irq_up := None, irq_dn \<mapsto> le_bytes 4 (irq_value_of p))) (n - 1))"
proof (cases "m irq_up")
  case None
  then show ?thesis
    using get_None [OF rep irq_keys_ok(1) [OF keys] None] get_None [OF rep irq_keys_ok(2) [OF keys] dn] pc
    by (simp add: irq2gss_turn_def)
next
  case (Some p)
  let ?v = "le_bytes 4 (irq_value_of p)"
  have "\<exists>s'. irq2gss_turn (ops_of put get del) i s =
        Some ([], [], i\<lparr>ig_pc := Irq_acked (irq_value_of p AND 1)\<rparr>, s') \<and>
        rep s' (m(irq_up := None, irq_dn \<mapsto> ?v)) (n - 1)" if p: "length p = 4" and n: "0 < n"
  proof -
    obtain x where x: "get s irq_up = Some (x, s)" "x \<noteq> []" "take (length p) x = p"
      using get_Some [OF rep irq_keys_ok(1) [OF keys] Some] by (elim exE conjE)
    obtain s1 where s1: "del s irq_up = Some (m irq_up \<noteq> None, s1)" "rep s1 (m(irq_up := None)) (Suc (n - 1))"
      using del_ok [OF rep irq_keys_ok(1) [OF keys]] n by auto
    have "fits irq_dn ?v" using keys by (simp add: irq_keys_def)
    then obtain s2 where s2: "put s1 irq_dn ?v = Some (True, s2)" "rep s2 (m(irq_up := None, irq_dn \<mapsto> ?v)) (n - 1)"
      using put_ok [OF s1(2)] by blast
    show ?thesis
      using x s1(1) s2 get_None [OF rep irq_keys_ok(2) [OF keys] dn] pc irq_value_take [OF p x(3)]
      by (intro exI [of _ s2]) (simp add: irq2gss_turn_def)
  qed
  with Some show ?thesis by simp
qed

lemma irq_turn_acked:
  assumes keys: "irq_keys fits" and rep: "rep s m n" and pc: "ig_pc i = Irq_acked w"
  shows "irq2gss_turn (ops_of put get del) i s =
    Some (if m irq_dn = None then ([(w, ig_irq_number i)], [], i\<lparr>ig_pc := Irq_poll\<rparr>, s) else ([], [], i, s))"
proof (cases "m irq_dn")
  case None
  then show ?thesis using get_None [OF rep irq_keys_ok(2) [OF keys] None] pc by (simp add: irq2gss_turn_def)
next
  case (Some p)
  then show ?thesis using get_Some [OF rep irq_keys_ok(2) [OF keys] Some] pc by (auto simp: irq2gss_turn_def)
qed

lemma irq_turn_defined:
  assumes "irq_keys fits" and "irq_inv rep irq y"
  shows "\<exists>r. irq2gss_turn (ops_of put get del) (iy_thread y) (iy_db y) = Some r"
proof -
  obtain m n where r: "rep (iy_db y) m n" "n = iy_budget y + length (irq_waiting m)" "\<forall>p. m irq_up = Some p \<longrightarrow> length p = 4"
    and pc: "ig_pc (iy_thread y) = Irq_poll \<longrightarrow> m irq_dn = None"
    using assms(2) unfolding irq_inv_def by (force split: irq_pc.splits)
  show ?thesis
  proof (cases "ig_pc (iy_thread y)")
    case Irq_poll
    with irq_turn_poll [OF assms(1) r(1) Irq_poll] pc r(2,3) show ?thesis
      by (fastforce simp: irq_waiting_def split: option.splits)
  next
    case (Irq_acked w)
    then show ?thesis using irq_turn_acked [OF assms(1) r(1) Irq_acked] by blast
  qed
qed

text \<open>Every step keeps the invariant.\<close>

lemma irq_raise_inv:
  assumes keys: "irq_keys fits" and inv: "irq_inv rep irq y" and got: "get (iy_db y) irq_up = Some ([], s)"
    and p: "put s irq_up (le_bytes 4 v) = Some (b, s')" and bud: "iy_budget y = Suc (Suc k)"
  shows "irq_inv rep irq (y\<lparr>iy_db := s', iy_raised := iy_raised y @ [v], iy_budget := k\<rparr>)"
proof -
  from inv obtain m n don mid where r: "rep (iy_db y) m n" and n: "n = iy_budget y + length (irq_waiting m)"
    and i: "ig_irq_number (iy_thread y) = irq" "iy_msgs y = []" "iy_raised y = don @ mid @ irq_waiting m"
      "iy_sent y = map (\<lambda>v. (v AND 1, irq)) don"
    and pc: "case ig_pc (iy_thread y) of Irq_poll \<Rightarrow> mid = [] \<and> m irq_dn = None | Irq_acked w \<Rightarrow> \<exists>v. mid = [v] \<and> v AND 1 = w"
    unfolding irq_inv_def by (elim exE conjE)
  have up: "m irq_up = None" and s: "s = iy_db y"
    using get_empty_iff [OF r irq_keys_ok(1) [OF keys]] got by auto
  have "rep (iy_db y) m (Suc (Suc k))" using r n up bud by (simp add: irq_waiting_def)
  moreover have "fits irq_up (le_bytes 4 v)" using keys by (simp add: irq_keys_def)
  ultimately have r': "rep s' (m(irq_up \<mapsto> le_bytes 4 v)) (Suc k)" using put_ok p s by fastforce
  have w: "irq_waiting (m(irq_up \<mapsto> le_bytes 4 v)) = [v]" "irq_waiting m = []"
    using up by (simp_all add: irq_waiting_def irq_value_of_def)
  show ?thesis
    unfolding irq_inv_def
    by (rule exI [of _ "m(irq_up \<mapsto> le_bytes 4 v)"], rule exI [of _ "Suc k"], rule exI [of _ don], rule exI [of _ mid])
      (use r' i pc w in \<open>simp split: irq_pc.splits\<close>)
qed

lemma irq_clear_inv:
  assumes keys: "irq_keys fits" and inv: "irq_inv rep irq y" and d: "del (iy_db y) irq_dn = Some (b, s)"
  shows "irq_inv rep irq (y\<lparr>iy_db := s\<rparr>)"
proof -
  from inv obtain m n don mid where r: "rep (iy_db y) m n" and n: "n = iy_budget y + length (irq_waiting m)"
    and l: "\<forall>p. m irq_up = Some p \<longrightarrow> length p = 4"
    and i: "ig_irq_number (iy_thread y) = irq" "iy_msgs y = []" "iy_raised y = don @ mid @ irq_waiting m"
      "iy_sent y = map (\<lambda>v. (v AND 1, irq)) don"
    and pc: "case ig_pc (iy_thread y) of Irq_poll \<Rightarrow> mid = [] \<and> m irq_dn = None | Irq_acked w \<Rightarrow> \<exists>v. mid = [v] \<and> v AND 1 = w"
    unfolding irq_inv_def by (elim exE conjE)
  have r': "rep s (m(irq_dn := None)) n" using del_ok [OF r irq_keys_ok(2) [OF keys]] d by auto
  have w: "irq_waiting (m(irq_dn := None)) = irq_waiting m" by (simp add: irq_waiting_def)
  show ?thesis
    unfolding irq_inv_def
    by (rule exI [of _ "m(irq_dn := None)"], rule exI [of _ n], rule exI [of _ don], rule exI [of _ mid])
      (use r' n l i pc w in \<open>simp split: irq_pc.splits\<close>)
qed

lemma irq_turn_inv:
  assumes keys: "irq_keys fits" and inv: "irq_inv rep irq y"
    and t: "irq2gss_turn (ops_of put get del) (iy_thread y) (iy_db y) = Some (out, msgs, i, s)"
  shows "irq_inv rep irq (y\<lparr>iy_db := s, iy_thread := i, iy_sent := iy_sent y @ out, iy_msgs := iy_msgs y @ msgs\<rparr>)"
proof -
  from inv obtain m n don mid where r: "rep (iy_db y) m n" and n: "n = iy_budget y + length (irq_waiting m)"
    and l: "\<forall>p. m irq_up = Some p \<longrightarrow> length p = 4"
    and i: "ig_irq_number (iy_thread y) = irq" "iy_msgs y = []" "iy_raised y = don @ mid @ irq_waiting m"
      "iy_sent y = map (\<lambda>v. (v AND 1, irq)) don"
    and pc: "case ig_pc (iy_thread y) of Irq_poll \<Rightarrow> mid = [] \<and> m irq_dn = None | Irq_acked w \<Rightarrow> \<exists>v. mid = [v] \<and> v AND 1 = w"
    unfolding irq_inv_def by (elim exE conjE)
  show ?thesis
  proof (cases "ig_pc (iy_thread y)")
    case poll: Irq_poll
    with pc have dn: "m irq_dn = None" "mid = []" by simp_all
    show ?thesis
    proof (cases "m irq_up")
      case None
      with irq_turn_poll [OF keys r poll dn(1)] t inv show ?thesis by simp
    next
      case (Some p)
      let ?v = "irq_value_of p" and ?m = "m(irq_up := None, irq_dn \<mapsto> le_bytes 4 (irq_value_of p))"
      have "length p = 4" "0 < n" using l n Some by (simp_all add: irq_waiting_def)
      with irq_turn_poll [OF keys r poll dn(1)] Some t have
        e: "out = []" "msgs = []" "i = (iy_thread y)\<lparr>ig_pc := Irq_acked (?v AND 1)\<rparr>" "rep s ?m (n - 1)" by auto
      have w: "irq_waiting ?m = []" "irq_waiting m = [?v]" using Some by (simp_all add: irq_waiting_def)
      show ?thesis
        unfolding irq_inv_def
        by (rule exI [of _ ?m], rule exI [of _ "n - 1"], rule exI [of _ don], rule exI [of _ "[?v]"])
          (use e n i dn w in simp)
    qed
  next
    case acked: (Irq_acked w)
    with pc obtain v where v: "mid = [v]" "v AND 1 = w" by auto
    show ?thesis
    proof (cases "m irq_dn")
      case None
      with irq_turn_acked [OF keys r acked] t have
        e: "out = [(w, irq)]" "msgs = []" "i = (iy_thread y)\<lparr>ig_pc := Irq_poll\<rparr>" "s = iy_db y" using i by auto
      show ?thesis
        unfolding irq_inv_def
        by (rule exI [of _ m], rule exI [of _ n], rule exI [of _ "don @ [v]"], rule exI [of _ "[]"])
          (use e r n l i v None in simp)
    next
      case (Some p)
      with irq_turn_acked [OF keys r acked] t inv show ?thesis by simp
    qed
  qed
qed

lemma irq_run_inv:
  assumes "irq_keys fits"
  shows "(irq_step (ops_of put get del))\<^sup>*\<^sup>* y y' \<Longrightarrow> irq_inv rep irq y \<Longrightarrow> irq_inv rep irq y'"
proof (induction rule: rtranclp_induct)
  case (step y1 y2)
  from step(2) step.IH [OF step.prems] show ?case
  proof cases
    case raise
    then show ?thesis using irq_raise_inv [OF assms step.IH [OF step.prems]] by simp
  next
    case clear
    then show ?thesis using irq_clear_inv [OF assms step.IH [OF step.prems]] by simp
  next
    case turn
    then show ?thesis using irq_turn_inv [OF assms step.IH [OF step.prems]] by simp
  qed
qed

end

section \<open>Properties\<close>

lemma irq_db_ops_eq: "irq_db_ops = ops_of sd_put (sd_get_vec 4) sd_del"
  by (simp add: irq_db_ops_def ops_of_def)

definition irq_start :: "u32 \<Rightarrow> simdb \<Rightarrow> nat \<Rightarrow> simdb irq_sys" where
  "irq_start irq db n = \<lparr>iy_db = db, iy_thread = \<lparr>ig_irq_number = irq, ig_pc = Irq_poll\<rparr>, iy_raised = [], iy_sent = [],
     iy_msgs = [], iy_budget = n\<rparr>"

lemma irq_start_inv: "db_rep P db Map.empty n \<Longrightarrow> irq_inv (db_rep P) irq (irq_start irq db n)"
  unfolding irq_inv_def
  by (rule exI [of _ Map.empty], rule exI [of _ n], rule exI [of _ "[]"], rule exI [of _ "[]"])
    (simp add: irq_start_def irq_waiting_def)

text \<open>C10. Whatever the order in which the RTL side raises interrupts and clears answers and the thread of
  \<open>irq2gss\<close> takes its turns, no interrupt is lost, doubled or reordered: the ones sent on are the ones
  raised first, each with its level on the configured line, at most two are on their way, no error
  is printed and the thread's next turn is defined.\<close>

theorem irq_delivery:
  assumes "irq_keys (db_fits P)" and "db_rep P db Map.empty n"
    and "(irq_step irq_db_ops)\<^sup>*\<^sup>* (irq_start irq db n) y"
  shows "\<exists>sent way. iy_raised y = sent @ way \<and> length way \<le> 2 \<and> iy_sent y = map (\<lambda>v. (v AND 1, irq)) sent \<and>
    iy_msgs y = [] \<and> irq2gss_turn irq_db_ops (iy_thread y) (iy_db y) \<noteq> None"
proof -
  have inv: "irq_inv (db_rep P) irq y"
    using db4.irq_run_inv [OF assms(1)] irq_start_inv [OF assms(2)] assms(3) by (simp add: irq_db_ops_eq)
  then have "\<exists>sent way. iy_raised y = sent @ way \<and> length way \<le> 2 \<and> iy_sent y = map (\<lambda>v. (v AND 1, irq)) sent \<and> iy_msgs y = []"
    unfolding irq_inv_def by (force simp: irq_waiting_def split: irq_pc.splits option.splits)
  with db4.irq_turn_defined [OF assms(1) inv] show ?thesis by (auto simp: irq_db_ops_eq)
qed

definition irq_params :: db_params where
  "irq_params = \<lparr>dp_keys = {irq_up, irq_dn}, dp_chain = 1, dp_sz = 1024, dp_bs = 1024\<rparr>"

lemma irq_homes: "HashBytes irq_up mod 1024 \<noteq> HashBytes irq_dn mod 1024"
  by code_simp

lemma irq_key_lengths: "length irq_up = 13" "length irq_dn = 13"
  by (simp_all add: irq_up_def irq_dn_def bytes_of_def)

lemma irq_params_ok: "params_ok irq_params"
proof -
  have "k \<noteq> [] \<and> length k < 2 ^ 32 \<and> length k mod 1024 \<noteq> 0" if "k \<in> dp_keys irq_params" for k
    using that irq_key_lengths by (auto simp: irq_params_def)
  then show ?thesis
    using card_length [of "[irq_up, irq_dn]"] irq_homes
    by (auto simp: params_ok_def irq_params_def home_def inj_on_def)
qed

lemma irq_params_keys: "irq_keys (db_fits irq_params)"
proof -
  have "ceil_div 17 1024 \<le> 1" by (simp add: ceil_div_def)
  then show ?thesis
    by (auto simp: irq_keys_def db_fits_def db_key_ok_def irq_params_ok irq_key_lengths)
      (simp_all add: irq_params_def)
qed

theorem irq_delivery_witness:
  "\<exists>db y sent way. (irq_step irq_db_ops)\<^sup>*\<^sup>* (irq_start 44 db (2 ^ 32 - 1)) y \<and> iy_raised y = [1] \<and>
    [1] = sent @ way \<and> length way \<le> 2 \<and> iy_sent y = map (\<lambda>v. (v AND 1, 44)) sent \<and> iy_msgs y = [] \<and>
    irq2gss_turn irq_db_ops (iy_thread y) (iy_db y) \<noteq> None"
proof -
  obtain db where db: "db_rep irq_params db Map.empty (2 ^ 32 - 1)"
    using simdb_init_rep [of 1024 1024 "replicate 1024 0" "replicate (1024 * 1024) 0" "replicate 1024 0" irq_params]
    by (auto simp: irq_params_def)
  have fits: "db_fits irq_params irq_up (le_bytes 4 (1 :: u32))" using irq_params_keys by (simp add: irq_keys_def)
  from db have "db_rep irq_params db Map.empty (Suc (2 ^ 32 - 2))" by simp
  then obtain db1 where p: "sd_put db irq_up (le_bytes 4 (1 :: u32)) = Some (True, db1)"
    using db4.put_ok fits by blast
  have g: "sd_get_vec 4 db irq_up = Some ([], db)"
    using db4.get_None [OF db db4.irq_keys_ok(1) [OF irq_params_keys]] by simp
  let ?y = "(irq_start 44 db (2 ^ 32 - 1))\<lparr>iy_db := db1, iy_raised := [1], iy_budget := 2 ^ 32 - 3\<rparr>"
  have "irq_step irq_db_ops (irq_start 44 db (2 ^ 32 - 1)) ?y"
    using irq_step.raise [of irq_db_ops "irq_start 44 db (2 ^ 32 - 1)" db 1 True db1 "2 ^ 32 - 3"] g p
    by (simp add: irq_db_ops_def irq_start_def)
  then have s: "(irq_step irq_db_ops)\<^sup>*\<^sup>* (irq_start 44 db (2 ^ 32 - 1)) ?y" by blast
  obtain sent way where c: "iy_raised ?y = sent @ way" "length way \<le> 2" "iy_sent ?y = map (\<lambda>v. (v AND 1, 44)) sent"
    "iy_msgs ?y = []" "irq2gss_turn irq_db_ops (iy_thread ?y) (iy_db ?y) \<noteq> None"
    using irq_delivery [OF irq_params_keys db s] by (elim exE conjE)
  show ?thesis
    by (rule exI [of _ db], rule exI [of _ ?y], rule exI [of _ sent], rule exI [of _ way]) (use s c in simp)
qed

end
