(* ===== verification/Cosim_Start.thy ===== *)
theory Cosim_Start
  imports Cosim_Spec Simdb_Spec
begin

text \<open>
  The start of a co-simulation link: the constructors of the transactors go through the keys of their
  database and delete them. On a new database there are none, and the link is ready for requests; on a
  database that an earlier run left behind some of the keys are not found.
\<close>

section \<open>Going through an empty table\<close>

lemma unat_Suc_u32: "i < n \<Longrightarrow> unat (i + 1 :: u32) = Suc (unat i)"
proof -
  assume "i < n"
  then have "Suc (unat i) < 2 ^ 32" using le_less_trans [of "Suc (unat i)" "unat n" "2 ^ 32"] by (simp add: word_less_nat_alt)
  then show ?thesis by (simp add: unat_word_ariths)
qed

lemma nxt_loop_empty:
  assumes "hsh_wf h" and "\<forall>p < ch_sz h. free_vi (slot h p)" and "st < ch_sz h"
  shows "i < ch_sz h \<Longrightarrow> (unat i + Suc d) mod unat (ch_sz h) = unat st \<Longrightarrow> hsh_nxt_loop h st i = Some SLOT_END"
proof (induction d arbitrary: i)
  case 0
  then have "(i + 1) mod ch_sz h = st"
    by (simp add: word_unat_eq_iff unat_mod unat_Suc_u32)
  moreover have "\<not> vi_idx (slot h i) < DELETED" using 0 assms(2) by (auto simp: free_vi_def not_less)
  ultimately show ?case using 0 assms by (subst hsh_nxt_loop.simps) (simp add: hash_simps Let_def)
next
  case (Suc d)
  let ?i = "(i + 1) mod ch_sz h"
  have i: "?i < ch_sz h" using assms(1) by (simp add: hsh_wf_def word_less_nat_alt unat_mod)
  have "unat ?i = Suc (unat i) mod unat (ch_sz h)" using Suc.prems(1) by (simp add: unat_mod unat_Suc_u32)
  then have "(unat ?i + Suc d) mod unat (ch_sz h) = unat st" using Suc.prems(2) mod_add_left_eq [of "Suc (unat i)" "unat (ch_sz h)" "Suc d"] by simp
  moreover have "\<not> vi_idx (slot h i) < DELETED" using Suc.prems(1) assms(2) by (auto simp: free_vi_def not_less)
  ultimately show ?case using Suc.IH [OF i] Suc.prems(1) assms
    by (subst hsh_nxt_loop.simps) (simp add: hash_simps Let_def)
qed

lemma hsh_nxt_empty:
  assumes "hsh_wf h" and "\<forall>p < ch_sz h. free_vi (slot h p)" and "st < ch_sz h"
  shows "hsh_nxt h st = Some SLOT_END"
proof -
  have "0 < unat (ch_sz h)" using assms(1) by (simp add: hsh_wf_def)
  then have "(unat st + Suc (unat (ch_sz h) - 1)) mod unat (ch_sz h) = unat st"
    using assms(3) by (simp add: word_less_nat_alt)
  then show ?thesis unfolding hsh_nxt_def by (rule nxt_loop_empty [OF assms assms(3)])
qed

text \<open>The entries of a database that stands for the empty map.\<close>

lemma empty_map_free:
  assumes inv: "hsh_inv h F L" and homed: "homed P h L" and sz: "ch_sz h = dp_sz P"
    and empty: "hsh_lookup h L = Map.empty" and p: "p < ch_sz h"
  shows "free_vi (slot h p)"
proof (rule ccontr)
  assume "\<not> free_vi (slot h p)"
  then obtain o' where o': "o' \<in> set L" "slot h p = vi_of o'" using inv p by (auto simp: hsh_inv_def)
  then obtain q where q: "q < ch_sz h" "entries h L q = Some (bo_key o', bo_val o')" using blob_entry [OF inv] by blast
  then have "q = HashBytes (bo_key o') mod ch_sz h" using homed sz by (auto simp: homed_def home_def)
  then have "hsh_lookup h L (bo_key o') = Some (bo_val o')"
    using q(2) inv by (simp add: hsh_lookup_def scan_Cons hsh_inv_def)
  with empty show False by simp
qed

text \<open>A constructor finds no key in a new database, and only moves the place where the next search
  starts.\<close>

lemma clear_keys_new:
  assumes rep: "db_rep P db Map.empty n" and two: "2 \<le> unat (dp_sz P)"
    and new: "sd_nxtChIdx db = 0" "sd_blkCnt db = ucast (dp_sz P)"
  shows "clear_keys db = Some (db\<lparr>sd_nxtChIdx := 1\<rparr>)"
proof -
  obtain F L where h: "hsh_inv (sd_ch db) F L" "homed P (sd_ch db) L" "ch_sz (sd_ch db) = dp_sz P"
    "hsh_lookup (sd_ch db) L = Map.empty"
    using rep by (auto simp: db_rep_def Let_def)
  have wf: "hsh_wf (sd_ch db)" using h(1) by (simp add: hsh_inv_def)
  have "0 < ch_sz (sd_ch db)" using two h(3) by (simp add: word_less_nat_alt)
  then have "hsh_nxt (sd_ch db) 0 = Some SLOT_END"
    using empty_map_free [OF h] by (intro hsh_nxt_empty [OF wf]) auto
  moreover have "(1 :: u64) mod ucast (dp_sz P) = 1"
    using two by (simp add: word_unat_eq_iff unat_mod unat_ucast_u64)
  ultimately have "sd_nxt db = Some (empty_vi, db\<lparr>sd_nxtChIdx := 1\<rparr>)"
    using new by (simp add: sd_nxt_def)
  then have key: "sd_nxtKey db = Some ((vi_version empty_vi, []), ucast (dp_sz P) + 1, db\<lparr>sd_nxtChIdx := 1\<rparr>)"
    using new by (simp add: sd_nxtKey_def empty_vi_def EMPTY_def DELETED_def word_le_nat_alt)
  have "unat (ucast (dp_sz P) :: u64) = unat (dp_sz P)" by (simp add: unat_ucast_u64)
  moreover have small: "Suc (unat (dp_sz P)) < 2 ^ 64"
    by (rule le_less_trans [of _ "2 ^ 32"]) (simp_all add: Suc_le_eq)
  ultimately have big: "\<not> (ucast (dp_sz P) + 1 :: u64) < ucast (dp_sz P)" "(0 :: u64) < ucast (dp_sz P)"
    using two mod_less [OF small] by (simp_all add: word_less_nat_alt unat_word_ariths)
  then have "getKeyStrs db = Some ([], db\<lparr>sd_nxtChIdx := 1\<rparr>)"
    unfolding getKeyStrs_def
    by (subst getKeyStrs_loop.simps, simp add: new(2) key) (subst getKeyStrs_loop.simps, simp add: new(2))
  then show ?thesis by (simp add: clear_keys_def)
qed

section \<open>Keys that are found at once\<close>

lemma nxtKey_at:
  assumes inv: "hsh_inv (sd_ch db) F L" and blk: "sd_blkCnt db = ucast (ch_sz (sd_ch db))"
    and st: "Suc (unat (sd_nxtChIdx db)) < unat (ch_sz (sd_ch db))"
    and e: "entries (sd_ch db) L (sd_nxtChIdx db) = Some (k, v)" and nz: "0 \<notin> set k"
  shows "\<exists>ver. sd_nxtKey db = Some ((ver, k), ucast (ch_sz (sd_ch db)) + 1, db\<lparr>sd_nxtChIdx := sd_nxtChIdx db + 1\<rparr>)"
proof -
  let ?h = "sd_ch db" and ?i = "sd_nxtChIdx db"
  have wf: "hsh_wf ?h" and str: "str_inv (ch_cs ?h) F L" using inv by (simp_all add: hsh_inv_def)
  have i: "?i < ch_sz ?h" using st by (simp add: word_less_nat_alt)
  have nf: "\<not> free_vi (slot ?h ?i)" using e by (auto simp: entries_def)
  obtain o' where o: "o' \<in> set L" "slot ?h ?i = vi_of o'" "blob_at L (slot ?h ?i) = Some o'" using inv_slot [OF inv i nf] by blast
  then have kv: "bo_key o' = k" "bo_val o' = v" using e nf by (simp_all add: entries_def)
  have ok: "blob_ok (ch_cs ?h) o'" using str o(1) by (rule str_inv_blob)
  have kl: "length k mod unat (cs_blockSize (ch_cs ?h)) \<noteq> 0" using inv o(1) kv by (auto simp: hsh_inv_def)
  have size: "bo_size o' < 2 ^ 32" "bo_size o' = length k + length v"
    using ok kv by (auto simp: blob_ok_def bo_size_def)
  have used: "vi_idx (vi_of o') < DELETED" using nf o(2) by (simp add: free_vi_def)
  have load: "load ?h ?i = Some (vi_of o')" using wf i o(2) by (simp add: hash_simps)
  have Suc_i: "unat (?i + 1) = Suc (unat ?i)" using i by (rule unat_Suc_u32)
  have "unat (ch_sz ?h) < 2 ^ LENGTH(32)" by (rule unsigned_less)
  moreover have "unat SLOT_END = 2 ^ LENGTH(32) - 1" by (simp add: SLOT_END_def)
  ultimately have "unat ?i \<noteq> unat SLOT_END" using st by linarith
  then have end': "?i \<noteq> SLOT_END" by (metis (full_types))
  have "hsh_nxt ?h ?i = Some ?i" unfolding hsh_nxt_def by (subst hsh_nxt_loop.simps) (simp add: load used)
  moreover have narrow: "(ucast (ucast x :: u64) :: u32) = x" for x :: u32
    by (rule bit_word_eqI) (auto simp: bit_simps dest: bit_imp_le_length)
  moreover have "(ucast (?i + 1) :: u64) mod ucast (ch_sz ?h) = ucast (?i + 1)"
    using st by (simp add: word_unat_eq_iff unat_mod unat_ucast_u64 Suc_i)
  ultimately have nxt: "sd_nxt db = Some (vi_of o', db\<lparr>sd_nxtChIdx := ?i + 1\<rparr>)"
    using end' by (simp add: sd_nxt_def blk hsh_at_def load narrow)
  have cur: "prevIdx ?h (?i + 1) = ?i"
  proof -
    have "unat (ch_sz ?h - 1) = unat (ch_sz ?h) - 1" using i by (subst unat_sub) (auto simp: word_le_nat_alt word_less_nat_alt)
    then have "?i \<le> ch_sz ?h - 1" using st by (simp add: word_le_nat_alt)
    then show ?thesis by (simp add: prevIdx_def)
  qed
  have kne: "k \<noteq> []" using kl by auto
  have unat_size: "unat (of_nat (bo_size o') :: u32) = bo_size o'" using size(1) by (rule unat_of_nat_u32)
  then have size_pos: "(of_nat (bo_size o') :: u32) > 0" using size(2) kne by (simp only: word_less_nat_alt) simp
  have pos: "(of_nat (bo_size o') :: u32) - of_nat (length v) = of_nat (length k)"
    "unat (of_nat (length k) :: u32) = length k" "\<not> (of_nat (length k) :: u32) < 1"
    using size kne by (simp_all add: word_less_nat_alt unat_of_nat_u32)
  have len: "sd_len_at (db\<lparr>sd_nxtChIdx := ?i + 1\<rparr>) ?i (bo_ver o') = Some (ucast (of_nat (bo_size o') :: u32), Some (of_nat (length k)), Some (of_nat (length v)))"
    using used str_len_blob [OF ok] pos(1) size_pos kv(2) by (simp add: sd_len_at_def load vi_of_def not_le del: of_nat_add)
  have "str_getKey (ch_cs ?h) (bo_head o') (bo_ver o') (replicate (length k) 0) (of_nat (length k)) =
      Some (of_nat (length k), k, ch_cs ?h)"
    using getKey_blob [OF _ ok, of "of_nat (length k)" "replicate (length k) 0"] str kl kv size pos by (simp add: str_inv_def)
  then have key: "sd_getKey (db\<lparr>sd_nxtChIdx := ?i + 1\<rparr>) ?i (bo_ver o') (replicate (length k) 0) (of_nat (length k)) =
      Some (True, k, db\<lparr>sd_nxtChIdx := ?i + 1\<rparr>)"
    using used pos by (simp add: sd_getKey_def load vi_of_def not_le)
  have big: "(ucast (of_nat (bo_size o') :: u32) :: u64) \<noteq> 0"
    using size_pos by (simp add: word_unat_eq_iff unat_ucast_u64 word_less_nat_alt)
  have step: "(ucast (?i + 1) :: u64) = ucast ?i + 1"
  proof -
    have "unat ?i + 1 < 2 ^ LENGTH(32)" using st \<open>unat (ch_sz ?h) < 2 ^ LENGTH(32)\<close> by linarith
    also have "\<dots> \<le> 2 ^ LENGTH(64)" by simp
    finally have "unat (ucast ?i :: u64) + unat (1 :: u64) < 2 ^ LENGTH(64)" by (simp only: unat_ucast_u64 unat_1)
    then have "unat (ucast ?i + 1 :: u64) = unat (ucast ?i :: u64) + unat (1 :: u64)" by (rule iffD1 [OF unat_add_lem])
    then have "unat (ucast ?i + 1 :: u64) = unat (ucast (?i + 1) :: u64)" by (simp only: unat_ucast_u64 Suc_i) simp
    then show ?thesis by (simp only: word_unat_eq_iff)
  qed
  have searched: "(ucast (?i + 1) :: u64) - ucast ?i - 1 = 0"
    "(ucast (ch_sz ?h) :: u64) - ucast ?i + ucast (?i + 1) = ucast (ch_sz ?h) + 1"
    unfolding step by simp_all
  have vi: "vi_idx (vi_of o') < DELETED" "vi_version (vi_of o') = bo_ver o'" using used by (simp_all add: vi_of_def)
  have "sd_nxtKey db = Some ((bo_ver o', k), ucast (ch_sz ?h) + 1, db\<lparr>sd_nxtChIdx := ?i + 1\<rparr>)"
    unfolding sd_nxtKey_def nxt Let_def bind.bind_lunit prod.case
    using vi nz by (simp add: searched blk narrow cur len key big pos(2) flip: not_less)
  then show ?thesis by blast
qed

lemma homed_entry:
  assumes inv: "hsh_inv h F L" and homed: "homed P h L" and sz: "ch_sz h = dp_sz P" and "hsh_lookup h L k = Some v"
  shows "entries h L (home P k) = Some (k, v) \<and> db_fits P k v"
proof -
  from assms(4) obtain p where p: "find (\<lambda>p. tbl_key (entries h L) p = Some k) (scan h (HashBytes k)) = Some p"
    "map_option snd (entries h L p) = Some v"
    by (auto simp: hsh_lookup_def tbl_get_find split: option.splits)
  then have e: "entries h L p = Some (k, v)" by (auto simp: find_Some_iff tbl_key_def)
  have "p < ch_sz h" using p(1) scan_set [of h "HashBytes k"] inv by (auto simp: find_Some_iff hsh_inv_def dest!: nth_mem)
  with homed e show ?thesis by (auto simp: homed_def)
qed

section \<open>Properties\<close>

text \<open>C36. A constructor does not clear what an earlier run left. When the slot where the search starts holds
  a key and is not the last, \<open>getKeyStrs\<close> returns that key alone, whatever else is in the database: the
  constructor of \<open>Gsgp2cosim\<close> deletes it, and every other key still has its value when the transactor
  starts. The number of slots searched is computed as more than the whole table for a slot that is found
  at once. The database is one of keys with homes of their own (\<open>db_rep\<close>), with as many slots as blocks.\<close>

theorem constructor_leaves_stale_keys:
  assumes rep: "db_rep P db m n" and blk: "sd_blkCnt db = ucast (dp_sz P)"
    and st: "Suc (unat (sd_nxtChIdx db)) < unat (dp_sz P)"
    and k: "m k = Some v" "home P k = sd_nxtChIdx db" "0 \<notin> set k"
  shows "\<exists>ver c db0 db'. getKeyStrs db = Some ([(ver, k)], db0) \<and>
    Gsgp2cosim e name off base db = Some (c, db') \<and> db_rep P db' (m(k := None)) n \<and>
    (\<forall>k'. db_key_ok P k' \<longrightarrow> k' \<noteq> k \<longrightarrow> sd_get_str db' k' = Some (case m k' of None \<Rightarrow> [] | Some x \<Rightarrow> x, db'))"
proof -
  obtain F L where h: "hsh_inv (sd_ch db) F L" "homed P (sd_ch db) L" "ch_sz (sd_ch db) = dp_sz P" "m = hsh_lookup (sd_ch db) L"
    using rep by (auto simp: db_rep_def Let_def)
  from homed_entry [OF h(1-3)] k(1) h(4) have e: "entries (sd_ch db) L (home P k) = Some (k, v)" "db_key_ok P k"
    by (auto simp: db_fits_def)
  let ?db = "db\<lparr>sd_nxtChIdx := sd_nxtChIdx db + 1\<rparr>"
  obtain ver where nxt: "sd_nxtKey db = Some ((ver, k), ucast (dp_sz P) + 1, ?db)"
    using nxtKey_at [OF h(1), of k v] blk st e(1) k(2,3) h(3) by auto
  have "Suc (unat (dp_sz P)) < 2 ^ 64" by (rule le_less_trans [of _ "2 ^ 32"]) (simp_all add: Suc_le_eq)
  from mod_less [OF this] have big: "\<not> (ucast (dp_sz P) + 1 :: u64) < ucast (dp_sz P)" "(0 :: u64) < ucast (dp_sz P)"
    using st by (simp_all add: word_less_nat_alt unat_word_ariths unat_ucast_u64)
  have "k \<noteq> []" using e(2) db_key by blast
  then have keys: "getKeyStrs db = Some ([(ver, k)], ?db)"
    unfolding getKeyStrs_def
    by (subst getKeyStrs_loop.simps, simp add: blk nxt big) (subst getKeyStrs_loop.simps, simp add: blk big)
  have "db_rep P ?db m n" using rep by (simp add: db_rep_def)
  from db16.del_ok [OF this e(2)] obtain db' where del: "sd_del ?db k = Some (m k \<noteq> None, db')" "db_rep P db' (m(k := None)) n"
    by blast
  have "sd_get_str db' k' = Some (case (m(k := None)) k' of None \<Rightarrow> [] | Some x \<Rightarrow> x, db')" if "db_key_ok P k'" for k'
    using db_rep_inv [OF del(2)] sd_get_str_lookup [of db' _ _ k'] db_key [OF that] by fastforce
  with keys del show ?thesis by (auto simp: Gsgp2cosim_def clear_keys_def)
qed

theorem constructor_leaves_stale_keys_witness:
  "\<exists>db c db'. db_rep small_params db [[97] \<mapsto> [1], [98] \<mapsto> [3]] (2 ^ 32 - 3) \<and>
    Gsgp2cosim (\<lambda>_. None) ''db'' 0 0 db = Some (c, db') \<and> sd_get_str db' [98] = Some ([3], db')"
proof -
  obtain db0 where db0: "small_db = Some db0" "db_rep small_params db0 Map.empty (2 ^ 32 - 1)" using small_db_rep by blast
  then have db0': "sd_nxtChIdx db0 = 0" "sd_blkCnt db0 = 4" by (auto simp: small_db_def simdb_init_def bind_eq_Some_conv)
  have kept: "sd_nxtChIdx db' = sd_nxtChIdx db \<and> sd_blkCnt db' = sd_blkCnt db" if "sd_put db k v = Some (r, db')" for db db' k v r
    using that by (auto simp: sd_put_def bind_eq_Some_conv)
  have fits: "db_fits small_params [97] [1]" "db_fits small_params [98] [3]" by (rule small_fits; simp)+
  from db0(2) have "db_rep small_params db0 Map.empty (Suc (2 ^ 32 - 2))" by simp
  from db16.put_ok [OF this fits(1)] obtain db1 where db1: "sd_put db0 [97] [1] = Some (True, db1)"
    "db_rep small_params db1 [[97] \<mapsto> [1]] (2 ^ 32 - 2)" by auto
  then have "db_rep small_params db1 [[97] \<mapsto> [1]] (Suc (2 ^ 32 - 3))" by simp
  from db16.put_ok [OF this fits(2)] obtain db where db: "sd_put db1 [98] [3] = Some (True, db)"
    "db_rep small_params db [[97] \<mapsto> [1], [98] \<mapsto> [3]] (2 ^ 32 - 3)" by auto
  have i: "sd_nxtChIdx db = 0" "sd_blkCnt db = 4" using db0' kept [OF db1(1)] kept [OF db(1)] by auto
  have "home small_params [97] = 0" by (simp add: home_def small_params_def small_homes)
  with constructor_leaves_stale_keys [OF db(2), of "[97]" "[1]" "\<lambda>_. None" "''db''" 0 0] i small_keys(2)
  obtain c db' where "Gsgp2cosim (\<lambda>_. None) ''db'' 0 0 db = Some (c, db')" "sd_get_str db' [98] = Some ([3], db')"
    by (auto simp: small_params_def)
  with db(2) show ?thesis by blast
qed

text \<open>C13. From the start: on a newly made database the constructor of \<open>Gsgp2cosim\<close> takes its name, offset
  and timeout, and with a peer that serves both streams in time a word written through it is read
  back.\<close>

theorem cosim_from_start:
  assumes "4 < bs" and "length lmem = unat cnt" and "length bmem = unat cnt * unat bs"
    and "unat cnt * unat bs < 2 ^ 32" and "unat cnt \<le> length vmem" and "dp_sz P = cnt" and "dp_bs P = bs"
    and "c = \<lparr>shm_name_str = name, shm_timeout = (case e ''COSIM_SHM_TIMEOUT_IN_NS'' of None \<Rightarrow> 0xFFFFFFFF
          | Some t \<Rightarrow> ucast (strtoul t)), addr_offset = off, base_addr = base\<rparr>"
    and "peer_ok (db_rep P) c peer" and "cosim_keys (db_fits P) c" and "length (g_pad g) = 4"
    and "\<forall>dn \<in> {rd_dn c, wr_dn c}. \<exists>j < unat (shm_timeout c). peer_serves (db_rep P) c peer dn j"
    and "tw = \<lparr>ct_cmd = CMD_WR, ct_addr = a, ct_data = le_bytes 4 (d :: u32)\<rparr>"
    and "tr = \<lparr>ct_cmd = CMD_RD, ct_addr = a, ct_data = x\<rparr>" and "length x = 4"
  shows "\<exists>db db0 db1 db2 mem' msgs. simdb_init bs cnt lmem bmem vmem = Some db \<and>
    Gsgp2cosim e name off base db = Some (c, db0) \<and>
    cosim_b_transact cosim_db_ops peer g c tw (db0, mem) = Some (Inr (tw, [], db1, mem')) \<and>
    cosim_b_transact cosim_db_ops peer g c tr (db1, mem') =
      Some (Inr (tr\<lparr>ct_data := le_bytes 4 d\<rparr>, msgs, db2, mem'))"
proof -
  have "db_fits P (wr_dn c) (replicate 16 0)" using assms(10) by (simp add: cosim_keys_def)
  then have two: "2 \<le> unat (dp_sz P)" by (simp add: db_fits_def db_key_ok_def params_ok_def)
  then have "0 < unat cnt" using assms(6) by simp
  then obtain db where db: "simdb_init bs cnt lmem bmem vmem = Some db" "db_rep P db Map.empty (2 ^ 32 - 1)"
    using simdb_init_rep [OF assms(1) _ assms(2-7)] by blast
  from db(1) have "sd_nxtChIdx db = 0" "sd_blkCnt db = ucast (dp_sz P)"
    using assms(6) by (auto simp: simdb_init_def bind_eq_Some_conv)
  from clear_keys_new [OF db(2) two this] have c: "Gsgp2cosim e name off base db = Some (c, db\<lparr>sd_nxtChIdx := 1\<rparr>)"
    using assms(8) by (simp add: Gsgp2cosim_def)
  have "db_rep P (db\<lparr>sd_nxtChIdx := 1\<rparr>) Map.empty (Suc (Suc (Suc (Suc (2 ^ 32 - 5)))))"
    using db(2) by (simp add: db_rep_def)
  from write_then_read [OF assms(9-12) this _ _ assms(13-15), of mem] db(1) c show ?thesis by fastforce
qed

theorem cosim_from_start_witness:
  "\<exists>db db0 db1 db2 mem' msgs. simdb_init 1024 1024 (replicate 1024 0) (replicate (1024 * 1024) 0) (replicate 1024 0) = Some db \<and>
    Gsgp2cosim (\<lambda>v. Some ''5'') (shm_name_str small_cosim) (addr_offset small_cosim) (base_addr small_cosim) db =
      Some (small_cosim, db0) \<and>
    cosim_b_transact cosim_db_ops (rtl_server cosim_db_ops small_cosim) small_garbage small_cosim
      \<lparr>ct_cmd = CMD_WR, ct_addr = 64, ct_data = le_bytes 4 (9 :: u32)\<rparr> (db0, \<lambda>a. 7) =
      Some (Inr (\<lparr>ct_cmd = CMD_WR, ct_addr = 64, ct_data = le_bytes 4 (9 :: u32)\<rparr>, [], db1, mem')) \<and>
    cosim_b_transact cosim_db_ops (rtl_server cosim_db_ops small_cosim) small_garbage small_cosim
      \<lparr>ct_cmd = CMD_RD, ct_addr = 64, ct_data = [0, 0, 0, 0]\<rparr> (db1, mem') =
      Some (Inr (\<lparr>ct_cmd = CMD_RD, ct_addr = 64, ct_data = le_bytes 4 (9 :: u32)\<rparr>, msgs, db2, mem'))"
proof -
  have "takeWhile (is_digit 10) ''5'' = ''5''" "digits_value 10 ''5'' = 5" "strtol_base ''5'' = (10, ''5'')"
    by code_simp+
  then have s5: "ucast (strtoul ''5'') = (5 :: u32)" by (simp add: strtoul_def isspace_def strtol_sign_def)
  have c: "small_cosim = \<lparr>shm_name_str = shm_name_str small_cosim,
      shm_timeout = (case (\<lambda>v. Some ''5'') ''COSIM_SHM_TIMEOUT_IN_NS'' of None \<Rightarrow> 0xFFFFFFFF | Some t \<Rightarrow> ucast (strtoul t)),
      addr_offset = addr_offset small_cosim, base_addr = base_addr small_cosim\<rparr>"
    by (simp only: small_cosim_def gsgp2cosim.simps option.case s5)
  have sz: "length (replicate (1024 * 1024) (0 :: u8)) = unat (1024 :: u32) * unat (1024 :: u32)"
    "unat (1024 :: u32) * unat (1024 :: u32) < 2 ^ 32" unfolding length_replicate by simp_all
  have len: "4 < (1024 :: u32)" "length (replicate 1024 (0 :: u32)) = unat (1024 :: u32)"
    "unat (1024 :: u32) \<le> length (replicate 1024 (0 :: u64))" by simp_all
  have P: "dp_sz (cosim_params small_cosim) = 1024" "dp_bs (cosim_params small_cosim) = 1024"
    by (simp_all add: cosim_params_def)
  have serves: "\<forall>dn \<in> {rd_dn small_cosim, wr_dn small_cosim}. \<exists>j < unat (shm_timeout small_cosim).
      peer_serves (db_rep (cosim_params small_cosim)) small_cosim (rtl_server cosim_db_ops small_cosim) dn j"
    using small_serves(1) by blast
  have g: "length (g_pad small_garbage) = 4" "length [0, 0, 0, 0 :: u8] = 4" by (simp_all add: small_garbage_def)
  from cosim_from_start [OF len(1,2) sz len(3) P c small_serves(2) small_cosim_keys g(1) serves refl refl g(2), of 64 9 "\<lambda>a. 7"]
  show ?thesis by (simp only: cosim_txn.simps)
qed

end
