(* ===== verification/Gp_Str.thy ===== *)
theory Gp_Str
  imports Prelude
begin

text \<open>
  \<open>models/nvdla/src/adaptors/gp2str.cpp\<close>: a TLM generic payload as text. The payload is a record; its
  data and byte-enable pointers are the memory they point to, \<open>None\<close> for \<open>NULL\<close>. The TLM library's
  \<open>get_response_string\<close> is a parameter.
\<close>

datatype tlm_command = TLM_READ_COMMAND | TLM_WRITE_COMMAND | TLM_IGNORE_COMMAND

datatype tlm_response = TLM_OK_RESPONSE | TLM_INCOMPLETE_RESPONSE | TLM_GENERIC_ERROR_RESPONSE |
  TLM_ADDRESS_ERROR_RESPONSE | TLM_COMMAND_ERROR_RESPONSE | TLM_BURST_ERROR_RESPONSE | TLM_BYTE_ENABLE_ERROR_RESPONSE

record tlm_gp =
  gp_command :: tlm_command
  gp_address :: u64
  gp_data_ptr :: "bytes option"
  gp_data_length :: u32
  gp_byte_enable_ptr :: "bytes option"
  gp_byte_enable_length :: u32
  gp_response :: tlm_response

definition is_write :: "tlm_gp \<Rightarrow> bool" where
  "is_write gp \<longleftrightarrow> gp_command gp = TLM_WRITE_COMMAND"

definition TLM_BYTE_ENABLED :: u8 where "TLM_BYTE_ENABLED = 0xff"

section \<open>Bytes\<close>

definition getBe :: "bytes option \<Rightarrow> u32 \<Rightarrow> u32 \<Rightarrow> bool option" where
  "getBe ptr len idx = (case ptr of None \<Rightarrow> Some True
     | Some p \<Rightarrow> if len = 0 then None else do { b \<leftarrow> rd p (idx mod len); Some (b = TLM_BYTE_ENABLED) })"

text \<open>\<open>setw(n) << setfill('0')\<close> and \<open>%02x\<close>.\<close>

definition pad0 :: "nat \<Rightarrow> string \<Rightarrow> string" where
  "pad0 n s = replicate (n - length s) (CHR ''0'') @ s"

text \<open>\<open>getByte(data_ptr + idx, valid, is_first_byte_of_word)\<close> reads the byte only when it is valid.\<close>

definition getByte :: "bytes \<Rightarrow> u32 \<Rightarrow> bool \<Rightarrow> bool \<Rightarrow> string option" where
  "getByte data idx valid is_first =
    (let s = (if is_first then [] else ''_'') in
     if \<not> valid then Some (s @ ''XX'')
     else do { b \<leftarrow> rd data idx; Some (s @ pad0 2 (show_num 16 (unat b))) })"

text \<open>\<open>k\<close> turns of the loops that print single bytes, from position \<open>idx\<close> on.\<close>

primrec byte_loop :: "bytes \<Rightarrow> bytes option \<Rightarrow> u32 \<Rightarrow> nat \<Rightarrow> bool \<Rightarrow> u32 \<Rightarrow> string option" where
  "byte_loop data be be_len 0 is_first idx = Some []"
| "byte_loop data be be_len (Suc k) is_first idx = do {
     en \<leftarrow> getBe be be_len idx;
     s \<leftarrow> getByte data idx en is_first;
     rest \<leftarrow> byte_loop data be be_len k False (idx + 1);
     Some (s @ rest) }"

text \<open>\<open>word_enable\<close>: whether all of \<open>k\<close> bytes from \<open>idx\<close> on are enabled; every one is looked at.\<close>

primrec enable_loop :: "bytes option \<Rightarrow> u32 \<Rightarrow> nat \<Rightarrow> u32 \<Rightarrow> bool \<Rightarrow> bool option" where
  "enable_loop be be_len 0 idx word_enable = Some word_enable"
| "enable_loop be be_len (Suc k) idx word_enable = do {
     en \<leftarrow> getBe be be_len idx; enable_loop be be_len k (idx + 1) (word_enable \<and> en) }"

section \<open>Words\<close>

text \<open>The main loop: whole words, and what is left at the end.\<close>

function word_loop :: "bytes \<Rightarrow> bytes option \<Rightarrow> u32 \<Rightarrow> u32 \<Rightarrow> u32 \<Rightarrow> string option" where
  "word_loop data be be_len remain_len idx =
    (if remain_len > 0 then
       (if remain_len \<ge> 4 then do {
          word_enable \<leftarrow> enable_loop be be_len 4 idx True;
          s \<leftarrow> (if word_enable then do { w \<leftarrow> mem_rd data (unat idx) 4;
                    Some (pad0 8 (show_num 16 (unat (le_word w :: u32)))) }
                else byte_loop data be be_len 4 True idx);
          rest \<leftarrow> word_loop data be be_len (remain_len - 4) (idx + 4);
          Some ('' '' @ s @ rest) }
        else do { s \<leftarrow> byte_loop data be be_len (unat remain_len) True idx; Some ('' '' @ s) })
     else Some [])"
  by pat_completeness auto
termination
  by (relation "measure (\<lambda>(data, be, be_len, remain_len, idx). unat remain_len)")
    (auto simp: unat_sub_u32 word_le_nat_alt word_less_nat_alt)

declare word_loop.simps [simp del]

definition gp_data_str :: "tlm_gp \<Rightarrow> bytes \<Rightarrow> string option" where
  "gp_data_str gp data =
    (let be = gp_byte_enable_ptr gp; be_len = gp_byte_enable_length gp; remain_len = gp_data_length gp;
         ofs = gp_address gp mod 4
     in if ofs \<noteq> 0 then
          (let bytes = (if 4 - ofs > ucast remain_len then remain_len else ucast (4 - ofs)) in do {
             s \<leftarrow> byte_loop data be be_len (unat bytes) True 0;
             rest \<leftarrow> word_loop data be be_len (remain_len - bytes) bytes;
             Some (''0x'' @ '' '' @ s @ rest) })
        else do { rest \<leftarrow> word_loop data be be_len remain_len 0; Some (''0x'' @ rest) })"

definition gp2str :: "(tlm_response \<Rightarrow> string) \<Rightarrow> tlm_gp \<Rightarrow> string option" where
  "gp2str response_string gp =
    (let be_len = gp_byte_enable_length gp; data_len = gp_data_length gp in
     if gp_byte_enable_ptr gp \<noteq> None \<and> be_len = 0 then Some ''ERROR GENERIC PAYLOAD: byte_enable_length == 0!''
     else if gp_byte_enable_ptr gp = None \<and> be_len > 0 then Some ''ERROR GENERIC PAYLOAD: byte_enable_ptr == NULL!''
     else if gp_data_ptr gp = None \<and> data_len > 0 then Some ''ERROR GENERIC PAYLOAD: data_ptr == NULL!''
     else do {
       data \<leftarrow> gp_data_str gp (case gp_data_ptr gp of None \<Rightarrow> [] | Some d \<Rightarrow> d);
       Some (''GP: iswrite='' @ (if is_write gp then ''1'' else ''0'') @ '' addr=0x'' @ show_num 16 (unat (gp_address gp)) @
         '' len='' @ show_num 10 (unat data_len) @ '' data='' @ data @ '' resp='' @ response_string (gp_response gp)) })"

section \<open>What the loops print\<close>

text \<open>The enable and the text of the byte at position \<open>i\<close>, and of a group of bytes.\<close>

definition enabled :: "tlm_gp \<Rightarrow> nat \<Rightarrow> bool" where
  "enabled gp i \<longleftrightarrow> (case gp_byte_enable_ptr gp of None \<Rightarrow> True
     | Some p \<Rightarrow> p ! (i mod unat (gp_byte_enable_length gp)) = TLM_BYTE_ENABLED)"

definition byte_text :: "tlm_gp \<Rightarrow> bytes \<Rightarrow> nat \<Rightarrow> string" where
  "byte_text gp data i = (if enabled gp i then pad0 2 (show_num 16 (unat (data ! i))) else ''XX'')"

fun sep :: "string list \<Rightarrow> string" where
  "sep [] = []"
| "sep [s] = s"
| "sep (s # t # ss) = s @ ''_'' @ sep (t # ss)"

definition group_text :: "tlm_gp \<Rightarrow> bytes \<Rightarrow> nat list \<Rightarrow> string" where
  "group_text gp data is =
    (if length is = 4 \<and> (\<forall>i \<in> set is. enabled gp i)
     then pad0 8 (show_num 16 (unat (le_word (map ((!) data) is) :: u32)))
     else sep (map (byte_text gp data) is))"

text \<open>The positions from \<open>i\<close> to \<open>n\<close>, cut where the address reaches a multiple of four.\<close>

function groups :: "nat \<Rightarrow> nat \<Rightarrow> nat \<Rightarrow> nat list list" where
  "groups a i n = (if i < n then
     (let k = min (4 - (a + i) mod 4) (n - i) in [i..<i + k] # groups a (i + k) n) else [])"
  by pat_completeness auto
termination by (relation "measure (\<lambda>(a, i, n). n - i)") auto

declare groups.simps [simp del]

text \<open>A payload whose pointers have the lengths it says.\<close>

definition gp_ok :: "tlm_gp \<Rightarrow> bytes \<Rightarrow> bool" where
  "gp_ok gp data \<longleftrightarrow> unat (gp_data_length gp) \<le> length data \<and>
    (case gp_byte_enable_ptr gp of None \<Rightarrow> True
     | Some p \<Rightarrow> 0 < gp_byte_enable_length gp \<and> unat (gp_byte_enable_length gp) \<le> length p)"

lemma getBe_enabled: "gp_ok gp data \<Longrightarrow>
  getBe (gp_byte_enable_ptr gp) (gp_byte_enable_length gp) idx = Some (enabled gp (unat idx))"
  by (auto simp: gp_ok_def getBe_def enabled_def rd_def unat_mod word_less_nat_alt split: option.splits)
    (meson less_le_trans mod_less_divisor)

text \<open>The text of bytes after the first of a group.\<close>

definition tail_text :: "tlm_gp \<Rightarrow> bytes \<Rightarrow> nat list \<Rightarrow> string" where
  "tail_text gp data is = concat (map (\<lambda>i. ''_'' @ byte_text gp data i) is)"

lemma sep_tail: "sep (map (byte_text gp data) (i # is)) = byte_text gp data i @ tail_text gp data is"
  by (induction "is" arbitrary: i) (auto simp: tail_text_def)

lemma byte_loop_text:
  assumes "gp_ok gp data" and "unat idx + k \<le> unat (gp_data_length gp)"
  shows "byte_loop data (gp_byte_enable_ptr gp) (gp_byte_enable_length gp) k is_first idx =
    Some (if is_first then sep (map (byte_text gp data) [unat idx..<unat idx + k])
      else tail_text gp data [unat idx..<unat idx + k])"
  using assms(2)
proof (induction k arbitrary: is_first idx)
  case 0
  then show ?case by (simp add: tail_text_def)
next
  case (Suc k)
  have len: "unat (gp_data_length gp) \<le> length data" using assms(1) by (simp add: gp_ok_def)
  have idx: "unat (idx + 1) = unat idx + 1"
    using unat_add_below [OF Suc.prems, of 1] by simp
  have "getByte data idx (enabled gp (unat idx)) is_first =
      Some ((if is_first then [] else ''_'') @ byte_text gp data (unat idx))"
    using Suc.prems len by (simp add: getByte_def byte_text_def rd_def Let_def)
  moreover have "[unat idx..<unat idx + Suc k] = unat idx # [unat (idx + 1)..<unat (idx + 1) + k]"
    by (simp add: idx upt_rec)
  ultimately show ?case
    using Suc.IH [of "idx + 1" False] Suc.prems
    by (simp add: getBe_enabled [OF assms(1)] idx sep_tail [unfolded list.map] tail_text_def del: upt_Suc)
qed

lemma enable_loop_enabled:
  assumes "gp_ok gp data" and "unat idx + k \<le> unat (gp_data_length gp)"
  shows "enable_loop (gp_byte_enable_ptr gp) (gp_byte_enable_length gp) k idx e =
    Some (e \<and> (\<forall>i \<in> set [unat idx..<unat idx + k]. enabled gp i))"
  using assms(2)
proof (induction k arbitrary: idx e)
  case (Suc k)
  have idx: "unat (idx + 1) = unat idx + 1"
    using unat_add_below [OF Suc.prems, of 1] by simp
  have "[unat idx..<unat idx + Suc k] = unat idx # [unat (idx + 1)..<unat (idx + 1) + k]"
    by (simp add: idx upt_rec)
  with Suc show ?case by (simp add: getBe_enabled [OF assms(1)] idx del: upt_Suc)
qed simp

lemma group_full: "gp_ok gp data \<Longrightarrow> i + 4 \<le> unat (gp_data_length gp) \<Longrightarrow> \<forall>j \<in> {i..<i + 4}. enabled gp j \<Longrightarrow>
  group_text gp data [i..<i + 4] = pad0 8 (show_num 16 (unat (le_word (take 4 (drop i data)) :: u32)))"
proof -
  assume a: "gp_ok gp data" "i + 4 \<le> unat (gp_data_length gp)" "\<forall>j \<in> {i..<i + 4}. enabled gp j"
  have "map ((!) data) [i..<i + 4] = take 4 (drop i data)"
    using a(1,2) by (intro nth_equalityI) (auto simp: gp_ok_def)
  with a(3) show ?thesis by (simp add: group_text_def)
qed

lemma group_short: "\<not> (length is = 4 \<and> (\<forall>i \<in> set is. enabled gp i)) \<Longrightarrow>
  group_text gp data is = sep (map (byte_text gp data) is)"
  unfolding group_text_def by (rule if_not_P)

lemma groups_aligned: "(a + i) mod 4 = 0 \<Longrightarrow> i < n \<Longrightarrow>
  groups a i n = [i..<i + min 4 (n - i)] # groups a (i + min 4 (n - i)) n"
  by (subst groups.simps) (simp add: Let_def)

lemma groups_end: "groups a n n = []"
  by (subst groups.simps) simp

lemma word_loop_text:
  assumes "gp_ok gp data" and "unat idx + unat remain = unat (gp_data_length gp)" and "(a + unat idx) mod 4 = 0"
  shows "word_loop data (gp_byte_enable_ptr gp) (gp_byte_enable_length gp) remain idx =
    Some (concat (map (\<lambda>g. '' '' @ group_text gp data g) (groups a (unat idx) (unat (gp_data_length gp)))))"
  using assms(2,3)
proof (induction "unat remain" arbitrary: remain idx rule: less_induct)
  case less
  let ?n = "unat (gp_data_length gp)"
  have len: "?n \<le> length data" using assms(1) by (simp add: gp_ok_def)
  consider "remain = 0" | "0 < unat remain" "unat remain < 4" | "4 \<le> unat remain"
    by (cases "unat remain = 0"; cases "unat remain < 4") (auto simp: unat_eq_0)
  then show ?case
  proof cases
    case 1
    then show ?thesis using less.prems by (simp add: word_loop.simps groups_end)
  next
    case 2
    have "groups a (unat idx) ?n = [[unat idx..<unat idx + unat remain]]"
      using 2 less.prems groups_aligned [of a "unat idx" ?n] groups_end [of a ?n] by simp
    with 2 less.prems byte_loop_text [OF assms(1), of idx "unat remain" True] show ?thesis
      by (subst word_loop.simps) (simp add: word_less_nat_alt word_le_nat_alt group_short)
  next
    case 3
    have idx: "unat (idx + 4) = unat idx + 4"
      using unat_add_below [of idx 4 "gp_data_length gp" 4] 3 less.prems by simp
    have rem: "unat (remain - 4) = unat remain - 4" using 3 by (simp add: unat_sub_u32)
    have rest: "word_loop data (gp_byte_enable_ptr gp) (gp_byte_enable_length gp) (remain - 4) (idx + 4) =
        Some (concat (map (\<lambda>g. '' '' @ group_text gp data g) (groups a (unat idx + 4) ?n)))"
    proof -
      have "(a + (unat idx + 4)) mod 4 = 0" using less.prems(2) by presburger
      with less.hyps [of "remain - 4" "idx + 4"] less.prems 3 show ?thesis by (simp add: idx rem)
    qed
    have g: "groups a (unat idx) ?n = [unat idx..<unat idx + 4] # groups a (unat idx + 4) ?n"
      using 3 less.prems groups_aligned [of a "unat idx" ?n] by simp
    have b: "unat idx + 4 \<le> ?n" using 3 less.prems by simp
    show ?thesis
    proof (cases "\<forall>j \<in> set [unat idx..<unat idx + 4]. enabled gp j")
      case True
      have "mem_rd data (unat idx) 4 = Some (take 4 (drop (unat idx) data))"
        using b len by (intro mem_rd_in) simp
      with True 3 b rest g show ?thesis
        by (subst word_loop.simps)
          (simp add: enable_loop_enabled [OF assms(1)] group_full [OF assms(1)] word_less_nat_alt word_le_nat_alt)
    next
      case False
      then have "group_text gp data [unat idx..<unat idx + 4] = sep (map (byte_text gp data) [unat idx..<unat idx + 4])"
        by (intro group_short) blast
      with False 3 b rest g byte_loop_text [OF assms(1) b, of True] show ?thesis
        by (subst word_loop.simps)
          (auto simp: enable_loop_enabled [OF assms(1) b] word_less_nat_alt word_le_nat_alt simp del: upt_Suc)
    qed
  qed
qed

lemma gp_data_str_text:
  assumes "gp_ok gp data"
  shows "gp_data_str gp data = Some (''0x'' @
    (if gp_data_length gp = 0 \<and> unat (gp_address gp) mod 4 \<noteq> 0 then '' '' else []) @
    concat (map (\<lambda>g. '' '' @ group_text gp data g) (groups (unat (gp_address gp)) 0 (unat (gp_data_length gp)))))"
proof -
  let ?a = "unat (gp_address gp)" and ?n = "unat (gp_data_length gp)"
  have m: "unat (gp_address gp mod 4) = ?a mod 4" using unat_mod [of "gp_address gp" 4] by simp
  show ?thesis
  proof (cases "gp_address gp mod 4 = 0")
    case True
    then have "?a mod 4 = 0" using m by simp
    with True word_loop_text [OF assms, of 0 "gp_data_length gp" ?a] show ?thesis
      by (simp add: gp_data_str_def Let_def)
  next
    case False
    define k where "k = min (4 - ?a mod 4) ?n"
    define bytes :: u32 where "bytes = (if 4 - gp_address gp mod 4 > ucast (gp_data_length gp)
      then gp_data_length gp else ucast (4 - gp_address gp mod 4))"
    have r: "0 < ?a mod 4" "?a mod 4 < 4" using False m unat_eq_0 [of "gp_address gp mod 4"] by auto
    have o4: "unat (4 - gp_address gp mod 4) = 4 - ?a mod 4"
      using r m by (simp add: unat_sub word_le_nat_alt)
    have u: "unat (ucast (gp_data_length gp) :: u64) = ?n"
      by (simp add: unsigned_ucast_eq take_bit_nat_eq_self_iff less_trans [OF unat_lt_u32])
    have "unat (ucast (4 - gp_address gp mod 4) :: u32) = 4 - ?a mod 4"
      by (simp add: unsigned_ucast_eq o4 take_bit_nat_eq_self_iff)
    then have bytes: "unat bytes = k"
      using o4 u by (simp add: bytes_def k_def word_less_nat_alt min_def)
    have k: "k \<le> ?n" "k < 4" using r by (simp_all add: k_def)
    have gr: "groups ?a 0 ?n = (if ?n = 0 then [] else [0..<k] # groups ?a k ?n)"
      by (subst groups.simps) (simp add: k_def Let_def)
    have "byte_loop data (gp_byte_enable_ptr gp) (gp_byte_enable_length gp) (unat bytes) True 0 =
        Some (sep (map (byte_text gp data) [0..<k]))"
      using byte_loop_text [OF assms, of 0 k True] k(1) by (simp add: bytes)
    moreover have "unat (gp_data_length gp - bytes) = ?n - k" using k(1) bytes by (simp add: unat_sub_u32)
    moreover have "word_loop data (gp_byte_enable_ptr gp) (gp_byte_enable_length gp) (gp_data_length gp - bytes) bytes =
        Some (concat (map (\<lambda>g. '' '' @ group_text gp data g) (groups ?a k ?n)))"
    proof (cases "k = ?n")
      case True
      then have "gp_data_length gp - bytes = 0" using bytes by (metis right_minus_eq unat_inj_index)
      with True show ?thesis by (simp add: word_loop.simps groups_end)
    next
      case False
      then have "(?a + unat bytes) mod 4 = 0" using r bytes by (simp add: k_def min_def split: if_splits) presburger
      with word_loop_text [OF assms, of bytes "gp_data_length gp - bytes" ?a] k(1) bytes show ?thesis
        by (simp add: unat_sub_u32)
    qed
    moreover have "group_text gp data [0..<k] = sep (map (byte_text gp data) [0..<k])"
      using k(2) by (intro group_short) simp
    moreover have "gp_data_length gp = 0 \<longleftrightarrow> ?n = 0" by (simp add: unat_eq_0)
    ultimately show ?thesis using False gr m k(1) r(1)
      by (auto simp: gp_data_str_def Let_def bytes_def [symmetric] groups_end)
  qed
qed

section \<open>Properties\<close>

text \<open>C24. A payload whose pointers are as long as it says is printed without reading outside them, and
  its data appears as the groups of its aligned words: a whole word whose bytes are all enabled as one
  number, any other group byte by byte with the disabled ones as \<open>XX\<close>.\<close>

theorem gp2str_text:
  assumes "gp_data_ptr gp = Some data" and "gp_ok gp data"
    and "gp_byte_enable_ptr gp = None \<Longrightarrow> gp_byte_enable_length gp = 0"
  shows "gp2str response_string gp = Some (''GP: iswrite='' @ (if is_write gp then ''1'' else ''0'') @
    '' addr=0x'' @ show_num 16 (unat (gp_address gp)) @ '' len='' @ show_num 10 (unat (gp_data_length gp)) @
    '' data=0x'' @ (if gp_data_length gp = 0 \<and> unat (gp_address gp) mod 4 \<noteq> 0 then '' '' else []) @
    concat (map (\<lambda>g. '' '' @ group_text gp data g) (groups (unat (gp_address gp)) 0 (unat (gp_data_length gp)))) @
    '' resp='' @ response_string (gp_response gp))"
  using assms gp_data_str_text [OF assms(2)]
  by (auto simp: gp2str_def Let_def gp_ok_def split: option.splits)

definition small_gp :: tlm_gp where
  "small_gp = \<lparr>gp_command = TLM_WRITE_COMMAND, gp_address = 0x1003, gp_data_ptr = Some [1, 2, 3, 4, 5, 6],
    gp_data_length = 6, gp_byte_enable_ptr = Some [0xff, 0xff, 0xff, 0xff, 0xff, 0], gp_byte_enable_length = 6,
    gp_response = TLM_OK_RESPONSE\<rparr>"

theorem gp2str_text_witness:
  "gp2str (\<lambda>_. ''OK'') small_gp = Some ''GP: iswrite=1 addr=0x1003 len=6 data=0x 01 05040302 XX resp=OK''"
proof -
  have gs: "groups 4099 0 6 = [[0], [1, 2, 3, 4], [5]]"
    by (simp add: groups.simps upt_rec)
  have d: "digit (Suc 0) = CHR ''1''" "digit 0 = CHR ''0''" "digit 2 = CHR ''2''" "digit 3 = CHR ''3''"
    "digit 4 = CHR ''4''" "digit 5 = CHR ''5''" "digit 6 = CHR ''6''"
    by code_simp+
  have w: "le_word [2, 3, 4, 5 :: u8] = (0x05040302 :: u32)" by (simp add: le_word_def)
  have "group_text small_gp [1, 2, 3, 4, 5, 6] [0] = ''01''"
    "group_text small_gp [1, 2, 3, 4, 5, 6] [1, 2, 3, 4] = ''05040302''"
    "group_text small_gp [1, 2, 3, 4, 5, 6] [5] = ''XX''"
    by (simp_all add: group_text_def byte_text_def enabled_def small_gp_def TLM_BYTE_ENABLED_def pad0_def
        show_num.simps d w)
  with gp2str_text [of small_gp "[1, 2, 3, 4, 5, 6]" "\<lambda>_. ''OK''"] gs show ?thesis
    by (simp add: small_gp_def gp_ok_def is_write_def show_num.simps d)
qed

end
