(* ===== verification/Nvdla_Adaptors.thy ===== *)
theory Nvdla_Adaptors
  imports Gp_Str
begin

text \<open>
  The bridges of \<open>models/nvdla/src\<close>: \<open>Gsgp2tlm\<close> (GreenSocs to TLM), \<open>Tlm2gsgp\<close> (TLM to GreenSocs, with the
  DMI mutex), \<open>IrqAdaptor\<close>, and \<open>NVDLA_top\<close>, which owns them. The TLM target behind \<open>Gsgp2tlm\<close> and the bus
  behind \<open>Tlm2gsgp\<close> are parameters: they get the transaction and return the data array and the response,
  which is what a target may change, and the bus also the exception that leaves its call, if any; \<open>None\<close>
  is a call with undefined behaviour. What a call does besides is a list of events. \<open>throws\<close> says whether
  SystemC raises an exception for a reported error, its default.
\<close>

datatype gs_cmd = Generic_MCMD_WR | Generic_MCMD_RD | Generic_MCMD_IDLE

record gs_txn =
  MCmd :: gs_cmd
  MAddr :: u64
  MData :: bytes
  MBurstLength :: u32
  txn_be_ptr :: "bytes option"
  txn_be_length :: u32
  txn_response :: tlm_response

datatype bus_event = mutex_lock nat | mutex_unlock nat | Transact gs_txn | b_transport tlm_gp | sc_report_error string

type_synonym target = "tlm_gp \<Rightarrow> bytes \<times> tlm_response"
type_synonym bus = "gs_txn \<Rightarrow> (bytes \<times> tlm_response \<times> string option) option"

section \<open>\<open>Gsgp2tlm\<close>\<close>

text \<open>A newly made payload of the TLM library: \<open>m_tlm_gp\<close> of the constructor.\<close>

definition tlm_gp_init :: tlm_gp where
  "tlm_gp_init = \<lparr>gp_command = TLM_IGNORE_COMMAND, gp_address = 0, gp_data_ptr = None, gp_data_length = 0,
    gp_byte_enable_ptr = None, gp_byte_enable_length = 0, gp_response = TLM_INCOMPLETE_RESPONSE\<rparr>"

text \<open>The report at the end of both bridges, and the exception it raises.\<close>

definition report_unless_ok :: "bool \<Rightarrow> (tlm_response \<Rightarrow> string) \<Rightarrow> tlm_gp \<Rightarrow> (bus_event list \<times> string option) option" where
  "report_unless_ok throws rs gp = (if gp_response gp \<noteq> TLM_OK_RESPONSE
    then do { s \<leftarrow> gp2str rs gp; Some ([sc_report_error s], if throws then Some s else None) } else Some ([], None))"

definition gsgp2tlm_fill :: "u64 \<Rightarrow> tlm_gp \<Rightarrow> gs_txn \<Rightarrow> tlm_gp" where
  "gsgp2tlm_fill base_addr m_tlm_gp t = m_tlm_gp\<lparr>
     gp_command := (if MCmd t = Generic_MCMD_WR then TLM_WRITE_COMMAND else TLM_READ_COMMAND),
     gp_address := MAddr t - base_addr,
     gp_data_ptr := Some (MData t),
     gp_data_length := of_nat (length (MData t)),
     gp_byte_enable_length := 0,
     gp_response := TLM_INCOMPLETE_RESPONSE\<rparr>"

definition gsgp2tlm_b_transact :: "bool \<Rightarrow> (tlm_response \<Rightarrow> string) \<Rightarrow> target \<Rightarrow> u64 \<Rightarrow> tlm_gp \<Rightarrow> gs_txn \<Rightarrow>
    (gs_txn \<times> tlm_gp \<times> bus_event list \<times> string option) option" where
  "gsgp2tlm_b_transact throws rs tgt base_addr m_tlm_gp t =
    (let gp = gsgp2tlm_fill base_addr m_tlm_gp t; (d, resp) = tgt gp;
         gp' = gp\<lparr>gp_data_ptr := Some d, gp_response := resp\<rparr>;
         t' = t\<lparr>MData := d, txn_response := gp_response gp'\<rparr>
     in do { (es, exc) \<leftarrow> report_unless_ok throws rs gp'; Some (t', gp', b_transport gp # es, exc) })"

section \<open>\<open>Tlm2gsgp\<close>\<close>

record tlm2gsgp =
  t2g_transaction :: gs_txn
  t2g_dmi_mtx :: nat
  t2g_is_dmi :: bool

definition txn_init :: gs_txn where
  "txn_init = \<lparr>MCmd = Generic_MCMD_IDLE, MAddr = 0, MData = [], MBurstLength = 0, txn_be_ptr = None, txn_be_length = 0,
    txn_response = TLM_INCOMPLETE_RESPONSE\<rparr>"

text \<open>The constructor and \<open>end_of_elaboration\<close>; the mutex is not set there.\<close>

definition Tlm2gsgp_init :: "nat \<Rightarrow> tlm2gsgp" where
  "Tlm2gsgp_init garbage = \<lparr>t2g_transaction = txn_init, t2g_dmi_mtx = garbage, t2g_is_dmi = False\<rparr>"

definition tlm2gsgp_set_dmi_mutex :: "nat \<Rightarrow> tlm2gsgp \<Rightarrow> tlm2gsgp" where
  "tlm2gsgp_set_dmi_mutex mtx s = s\<lparr>t2g_dmi_mtx := mtx, t2g_is_dmi := True\<rparr>"

definition tlm2gsgp_fill :: "gs_txn \<Rightarrow> tlm_gp \<Rightarrow> bytes \<Rightarrow> gs_txn" where
  "tlm2gsgp_fill t gp value_data = t\<lparr>
     MBurstLength := gp_data_length gp,
     MAddr := gp_address gp,
     MData := value_data,
     MCmd := (if is_write gp then Generic_MCMD_WR else Generic_MCMD_RD),
     txn_be_ptr := gp_byte_enable_ptr gp,
     txn_be_length := gp_byte_enable_length gp\<rparr>"

text \<open>The GreenSocs data is a view of the first \<open>size\<close> bytes behind the payload's pointer. An exception
  that leaves \<open>Transact\<close> also leaves \<open>b_transport\<close>: the mutex is not unlocked and no response is set.\<close>

definition tlm2gsgp_b_transport :: "bool \<Rightarrow> (tlm_response \<Rightarrow> string) \<Rightarrow> bus \<Rightarrow> tlm2gsgp \<Rightarrow> tlm_gp \<Rightarrow>
    (tlm_gp \<times> tlm2gsgp \<times> bus_event list \<times> string option) option" where
  "tlm2gsgp_b_transport throws rs bus s gp =
    (let mem = (case gp_data_ptr gp of None \<Rightarrow> [] | Some d \<Rightarrow> d); size = unat (gp_data_length gp) in do {
       value_data \<leftarrow> mem_rd mem 0 size;
       let t = tlm2gsgp_fill (t2g_transaction s) gp value_data;
       let locked = (if t2g_is_dmi s then [mutex_lock (t2g_dmi_mtx s)] else []);
       (d, resp, thrown) \<leftarrow> bus t;
       let s' = s\<lparr>t2g_transaction := t\<lparr>MData := d, txn_response := resp\<rparr>\<rparr>;
       let gp' = gp\<lparr>gp_data_ptr := map_option (\<lambda>_. d @ drop size mem) (gp_data_ptr gp)\<rparr>;
       (case thrown of
          Some e \<Rightarrow> Some (gp', s', locked @ [Transact t], Some e)
        | None \<Rightarrow> do {
            let unlocked = (if t2g_is_dmi s then [mutex_unlock (t2g_dmi_mtx s)] else []);
            let gp'' = gp'\<lparr>gp_response := resp\<rparr>;
            (es, exc) \<leftarrow> report_unless_ok throws rs gp'';
            Some (gp'', s', locked @ [Transact t] @ unlocked @ es, exc) }) })"

section \<open>\<open>IrqAdaptor\<close>\<close>

record irq_adaptor =
  irq_number :: u32
  irq_value :: u32
  irq_line :: u32

text \<open>One turn of the thread, when the signal changes to \<open>sig\<close>: the message sent is the data.\<close>

definition irq_turn :: "irq_adaptor \<Rightarrow> bool \<Rightarrow> irq_adaptor" where
  "irq_turn s sig = s\<lparr>irq_value := (if sig then 1 else 0), irq_line := irq_number s\<rparr>"

primrec irq_transport :: "irq_adaptor \<Rightarrow> bool list \<Rightarrow> (u32 \<times> u32) list" where
  "irq_transport s [] = []"
| "irq_transport s (sig # sigs) =
    (let s' = irq_turn s sig in (irq_value s', irq_line s') # irq_transport s' sigs)"

section \<open>\<open>NVDLA_top\<close>\<close>

datatype nv_port = Csb_port | Gsgp_slave_port | Tlm_master_port | Nvdla_host_master_if | Nvdla_core2dbb_axi4 |
  Nvdla_core2cvsram_axi4 | Mc_tlm_slave_port | Cv_tlm_slave_port | Mc_gsgp_master_port | Cv_gsgp_master_port |
  M_mc_port | M_cv_port | Nvdla_intr | Core_irq | Irq_signal | Irq_m_socket | Top_irq_socket | Top_self

record nvdla_top =
  top_csb :: tlm_gp
  top_mc :: tlm2gsgp
  top_cv :: tlm2gsgp
  top_irq :: irq_adaptor
  top_binds :: "(nv_port \<times> nv_port) list"

definition NVDLA_top :: "u32 \<Rightarrow> nat \<Rightarrow> nvdla_top" where
  "NVDLA_top irqNumber garbage = \<lparr>top_csb = tlm_gp_init, top_mc = Tlm2gsgp_init garbage, top_cv = Tlm2gsgp_init garbage,
     top_irq = \<lparr>irq_number = irqNumber, irq_value = 0, irq_line = 0\<rparr>,
     top_binds = [(Csb_port, Gsgp_slave_port), (Tlm_master_port, Nvdla_host_master_if),
       (Nvdla_core2dbb_axi4, Mc_tlm_slave_port), (Nvdla_core2cvsram_axi4, Cv_tlm_slave_port),
       (Mc_gsgp_master_port, M_mc_port), (Cv_gsgp_master_port, M_cv_port),
       (M_mc_port, Top_self), (M_cv_port, Top_self),
       (Nvdla_intr, Core_irq), (Irq_signal, Core_irq), (Irq_m_socket, Top_irq_socket)]\<rparr>"

definition top_set_dmi_mutex :: "nat \<Rightarrow> nvdla_top \<Rightarrow> nvdla_top" where
  "top_set_dmi_mutex mtx s = s\<lparr>top_mc := tlm2gsgp_set_dmi_mutex mtx (top_mc s)\<rparr>"

text \<open>The modules the constructor creates, in its order, and those the destructor deletes: the ones whose
  pointer is set.\<close>

datatype nv_module = M_nvdla | M_gsgp2tlm | M_tlm2gsgp_mc | M_tlm2gsgp_cv | M_irq_adaptor

definition NVDLA_top_creates :: "nv_module list" where
  "NVDLA_top_creates = [M_nvdla, M_gsgp2tlm, M_tlm2gsgp_mc, M_tlm2gsgp_cv, M_irq_adaptor]"

definition NVDLA_top_destroy :: "nv_module set \<Rightarrow> nv_module list" where
  "NVDLA_top_destroy ptrs = List.filter (\<lambda>x. x \<in> ptrs) [M_nvdla, M_gsgp2tlm, M_tlm2gsgp_mc, M_tlm2gsgp_cv, M_irq_adaptor]"

lemma NVDLA_top_destroy_all: "distinct (NVDLA_top_destroy ptrs) \<and> (x \<in> set (NVDLA_top_destroy ptrs) \<longleftrightarrow> x \<in> ptrs)"
  by (cases x) (simp_all add: NVDLA_top_destroy_def)

lemma NVDLA_top_destroys_created: "set (NVDLA_top_destroy (set NVDLA_top_creates)) = set NVDLA_top_creates"
  by (auto simp: NVDLA_top_destroy_all)

section \<open>The bridges together\<close>

text \<open>A bus whose slave is a \<open>Gsgp2tlm\<close> with a TLM target behind it.\<close>

definition bridge_bus :: "bool \<Rightarrow> (tlm_response \<Rightarrow> string) \<Rightarrow> target \<Rightarrow> u64 \<Rightarrow> tlm_gp \<Rightarrow> bus" where
  "bridge_bus throws rs tgt base_addr m_tlm_gp t = do {
     (t', gp', es, exc) \<leftarrow> gsgp2tlm_b_transact throws rs tgt base_addr m_tlm_gp t;
     Some (MData t', txn_response t', exc) }"

text \<open>The invariant of \<open>m_tlm_gp\<close>: nothing sets its byte-enable pointer.\<close>

definition csb_ok :: "tlm_gp \<Rightarrow> bool" where
  "csb_ok m_tlm_gp \<longleftrightarrow> gp_byte_enable_ptr m_tlm_gp = None"

lemma csb_ok_keep: "csb_ok m_tlm_gp \<Longrightarrow> gsgp2tlm_b_transact throws rs tgt base_addr m_tlm_gp t = Some (t', gp', es, exc) \<Longrightarrow> csb_ok gp'"
  by (auto simp: gsgp2tlm_b_transact_def gsgp2tlm_fill_def csb_ok_def Let_def split: prod.splits bind_splits)

lemma gp2str_defined: "gp_ok gp data \<Longrightarrow> gp_data_ptr gp = Some data \<Longrightarrow> \<exists>s. gp2str rs gp = Some s"
  using gp_data_str_text [of gp data] by (auto simp: gp2str_def Let_def)

lemma report_defined: "gp_ok gp data \<Longrightarrow> gp_data_ptr gp = Some data \<Longrightarrow>
  \<exists>es exc. report_unless_ok throws rs gp = Some (es, exc) \<and> (es = [] \<longleftrightarrow> gp_response gp = TLM_OK_RESPONSE) \<and>
    (exc \<noteq> None \<longleftrightarrow> throws \<and> gp_response gp \<noteq> TLM_OK_RESPONSE) \<and> (\<forall>e \<in> set es. \<exists>s. e = sc_report_error s)"
  using gp2str_defined [of gp data rs] by (auto simp: report_unless_ok_def)

section \<open>Properties\<close>

text \<open>C25. A CSB transaction reaches the NVDLA core with its command, its data and the address relative to
  the slave's base, without byte enables; the core's data and response go back into the transaction, an
  error is reported exactly when the response is not OK, which ends the call with an exception when
  reports throw, and the payload stays fit for the next one.\<close>

theorem csb_transact:
  assumes "csb_ok m_tlm_gp" and "length (MData t) < 2 ^ 32"
    and "gp = \<lparr>gp_command = (if MCmd t = Generic_MCMD_WR then TLM_WRITE_COMMAND else TLM_READ_COMMAND),
      gp_address = MAddr t - base, gp_data_ptr = Some (MData t), gp_data_length = of_nat (length (MData t)),
      gp_byte_enable_ptr = None, gp_byte_enable_length = 0, gp_response = TLM_INCOMPLETE_RESPONSE\<rparr>"
    and "tgt gp = (d, resp)" and "length d = length (MData t)"
  shows "\<exists>gp' es exc. gsgp2tlm_b_transact throws rs tgt base m_tlm_gp t =
      Some (t\<lparr>MData := d, txn_response := resp\<rparr>, gp', b_transport gp # es, exc) \<and>
    (es = [] \<longleftrightarrow> resp = TLM_OK_RESPONSE) \<and> (exc \<noteq> None \<longleftrightarrow> throws \<and> resp \<noteq> TLM_OK_RESPONSE) \<and> csb_ok gp'"
proof -
  have gp: "gsgp2tlm_fill base m_tlm_gp t = gp"
    using assms(1,3) by (simp add: gsgp2tlm_fill_def csb_ok_def)
  let ?gp' = "gp\<lparr>gp_data_ptr := Some d, gp_response := resp\<rparr>"
  have "gp_ok ?gp' d" using assms(2,3,5) by (simp add: gp_ok_def unat_of_nat_u32)
  then obtain es exc where "report_unless_ok throws rs ?gp' = Some (es, exc)" "es = [] \<longleftrightarrow> resp = TLM_OK_RESPONSE"
    "exc \<noteq> None \<longleftrightarrow> throws \<and> resp \<noteq> TLM_OK_RESPONSE"
    using report_defined [of ?gp' d throws rs] by auto
  moreover have "csb_ok ?gp'" using assms(3) by (simp add: csb_ok_def)
  ultimately show ?thesis
    by (intro exI [of _ ?gp'] exI [of _ es] exI [of _ exc]) (simp add: gsgp2tlm_b_transact_def gp assms(4) Let_def)
qed

definition no_text :: "tlm_response \<Rightarrow> string" where "no_text r = []"

definition small_txn :: gs_txn where
  "small_txn = txn_init\<lparr>MCmd := Generic_MCMD_RD, MAddr := 0x10200008, MData := [0, 0, 0, 0]\<rparr>"

definition small_target :: target where
  "small_target gp = (if gp_address gp = 8 then ([1, 2, 3, 4], TLM_OK_RESPONSE)
    else (case gp_data_ptr gp of None \<Rightarrow> [] | Some d \<Rightarrow> d, TLM_ADDRESS_ERROR_RESPONSE))"

theorem csb_transact_witness: "\<exists>gp gp'. gsgp2tlm_b_transact True no_text small_target 0x10200000 tlm_gp_init small_txn =
  Some (small_txn\<lparr>MData := [1, 2, 3, 4], txn_response := TLM_OK_RESPONSE\<rparr>, gp', [b_transport gp], None) \<and> gp_address gp = 8"
proof -
  let ?gp = "\<lparr>gp_command = TLM_READ_COMMAND, gp_address = 8, gp_data_ptr = Some [0, 0, 0, 0], gp_data_length = 4,
      gp_byte_enable_ptr = None, gp_byte_enable_length = 0, gp_response = TLM_INCOMPLETE_RESPONSE\<rparr>"
  have "csb_ok tlm_gp_init" "length (MData small_txn) < 2 ^ 32" "small_target ?gp = ([1, 2, 3, 4], TLM_OK_RESPONSE)"
    "?gp = \<lparr>gp_command = (if MCmd small_txn = Generic_MCMD_WR then TLM_WRITE_COMMAND else TLM_READ_COMMAND),
      gp_address = MAddr small_txn - 0x10200000, gp_data_ptr = Some (MData small_txn),
      gp_data_length = of_nat (length (MData small_txn)),
      gp_byte_enable_ptr = None, gp_byte_enable_length = 0, gp_response = TLM_INCOMPLETE_RESPONSE\<rparr>"
    "length [1, 2, 3, 4 :: u8] = length (MData small_txn)"
    by (simp_all add: csb_ok_def tlm_gp_init_def small_target_def small_txn_def txn_init_def)
  from csb_transact [where throws = True and rs = no_text and tgt = small_target and base = "0x10200000" and d = "[1, 2, 3, 4]", OF this(1,2,4,3,5)]
  obtain gp' where "gsgp2tlm_b_transact True no_text small_target 0x10200000 tlm_gp_init small_txn =
      Some (small_txn\<lparr>MData := [1, 2, 3, 4], txn_response := TLM_OK_RESPONSE\<rparr>, gp', [b_transport ?gp], None)"
    by auto
  moreover have "gp_address ?gp = 8" by simp
  ultimately show ?thesis by blast
qed

lemma bridge_bus_access:
  assumes "csb_ok m_tlm_gp" and "length data = unat (gp_data_length gp)" and "gp_command gp \<noteq> TLM_IGNORE_COMMAND"
    and g: "g = gp\<lparr>gp_address := gp_address gp - base, gp_data_ptr := Some data, gp_byte_enable_ptr := None,
      gp_byte_enable_length := 0, gp_response := TLM_INCOMPLETE_RESPONSE\<rparr>"
    and "tgt g = (d, resp)" and "length d = length data"
  shows "\<exists>exc. bridge_bus throws rs tgt base m_tlm_gp (tlm2gsgp_fill t gp data) = Some (d, resp, exc) \<and>
    (exc \<noteq> None \<longleftrightarrow> throws \<and> resp \<noteq> TLM_OK_RESPONSE)"
proof -
  have f: "gsgp2tlm_fill base m_tlm_gp (tlm2gsgp_fill t gp data) = g"
    using assms(1-3) g by (cases "gp_command gp") (simp_all add: gsgp2tlm_fill_def tlm2gsgp_fill_def csb_ok_def is_write_def)
  let ?g' = "g\<lparr>gp_data_ptr := Some d, gp_response := resp\<rparr>"
  have "gp_ok ?g' d" using assms(2,6) g by (simp add: gp_ok_def)
  then obtain es exc where "report_unless_ok throws rs ?g' = Some (es, exc)" "exc \<noteq> None \<longleftrightarrow> throws \<and> resp \<noteq> TLM_OK_RESPONSE"
    using report_defined [of ?g' d throws rs] by auto
  then show ?thesis by (simp add: bridge_bus_def gsgp2tlm_b_transact_def f assms(5) Let_def)
qed

text \<open>C38. A memory access of the NVDLA that goes through both bridges to a TLM target is the same access
  there, at the address relative to the target's base, except that its byte enables are lost: the
  target also sees the disabled bytes of a write as data. The target's data comes back. Its response
  does too, unless it is an error and reports throw: then the exception of the inner bridge ends the
  access, the response is never set, and the DMI mutex, which the access took, stays locked.\<close>

theorem bridge_loses_byte_enables:
  assumes "csb_ok m_tlm_gp" and "gp_data_ptr gp = Some data" and "length data = unat (gp_data_length gp)"
    and "gp_command gp \<noteq> TLM_IGNORE_COMMAND" and "gp_ok gp data"
    and "g = gp\<lparr>gp_address := gp_address gp - base, gp_byte_enable_ptr := None, gp_byte_enable_length := 0,
      gp_response := TLM_INCOMPLETE_RESPONSE\<rparr>"
    and "tgt g = (d, resp)" and "length d = length data"
  shows "\<exists>s' es exc. tlm2gsgp_b_transport throws rs (bridge_bus throws rs tgt base m_tlm_gp) s gp =
      Some (gp\<lparr>gp_data_ptr := Some d, gp_response := (if throws \<and> resp \<noteq> TLM_OK_RESPONSE then gp_response gp else resp)\<rparr>,
        s', es, exc) \<and>
    (exc \<noteq> None \<longleftrightarrow> throws \<and> resp \<noteq> TLM_OK_RESPONSE) \<and>
    (t2g_is_dmi s \<longrightarrow> hd es = mutex_lock (t2g_dmi_mtx s) \<and> (mutex_unlock (t2g_dmi_mtx s) \<in> set es \<longleftrightarrow> exc = None))"
proof -
  let ?t = "tlm2gsgp_fill (t2g_transaction s) gp data" and ?gp' = "gp\<lparr>gp_data_ptr := Some d, gp_response := resp\<rparr>"
  have "g = gp\<lparr>gp_address := gp_address gp - base, gp_data_ptr := Some data, gp_byte_enable_ptr := None,
      gp_byte_enable_length := 0, gp_response := TLM_INCOMPLETE_RESPONSE\<rparr>" using assms(2,6) by simp
  with bridge_bus_access [of m_tlm_gp data gp g base tgt d resp throws rs "t2g_transaction s"] assms(1,3,4,7,8) obtain thrown
    where bus: "bridge_bus throws rs tgt base m_tlm_gp ?t = Some (d, resp, thrown)"
      "thrown \<noteq> None \<longleftrightarrow> throws \<and> resp \<noteq> TLM_OK_RESPONSE" by auto
  have rd: "mem_rd data 0 (unat (gp_data_length gp)) = Some data" using assms(3) by (simp add: mem_rd_def)
  have "gp_ok ?gp' d" using assms(5,8) by (simp add: gp_ok_def split: option.splits)
  then obtain es exc where report: "report_unless_ok throws rs ?gp' = Some (es, exc)"
    "exc \<noteq> None \<longleftrightarrow> throws \<and> resp \<noteq> TLM_OK_RESPONSE"
    using report_defined [of ?gp' d throws rs] by auto
  show ?thesis
  proof (cases thrown)
    case None
    with bus(2) have "exc = None" "\<not> (throws \<and> resp \<noteq> TLM_OK_RESPONSE)" using report(2) by auto
    with None report(1) bus(1) rd show ?thesis using assms(2,3) by (auto simp: tlm2gsgp_b_transport_def Let_def)
  next
    case (Some e)
    with bus rd show ?thesis using assms(2,3) by (auto simp: tlm2gsgp_b_transport_def Let_def)
  qed
qed

definition be_gp :: tlm_gp where
  "be_gp = \<lparr>gp_command = TLM_WRITE_COMMAND, gp_address = 0x10200008, gp_data_ptr = Some [7, 8],
    gp_data_length = 2, gp_byte_enable_ptr = Some [0xff, 0], gp_byte_enable_length = 2,
    gp_response = TLM_INCOMPLETE_RESPONSE\<rparr>"

theorem bridge_loses_byte_enables_witness:
  "(\<exists>s' es. tlm2gsgp_b_transport True no_text (bridge_bus True no_text (\<lambda>g. (the (gp_data_ptr g), TLM_OK_RESPONSE))
      0x10200000 tlm_gp_init) (Tlm2gsgp_init 0) be_gp = Some (be_gp\<lparr>gp_response := TLM_OK_RESPONSE\<rparr>, s', es, None)) \<and>
   (\<exists>s' es e. tlm2gsgp_b_transport True no_text (bridge_bus True no_text (\<lambda>g. (the (gp_data_ptr g), TLM_ADDRESS_ERROR_RESPONSE))
      0x10200000 tlm_gp_init) (tlm2gsgp_set_dmi_mutex 5 (Tlm2gsgp_init 0)) be_gp = Some (be_gp, s', es, Some e) \<and>
      hd es = mutex_lock 5 \<and> mutex_unlock 5 \<notin> set es)"
proof
  have be: "csb_ok tlm_gp_init" "gp_data_ptr be_gp = Some [7, 8]" "length [7, 8 :: u8] = unat (gp_data_length be_gp)"
    "gp_command be_gp \<noteq> TLM_IGNORE_COMMAND" "gp_ok be_gp [7, 8]" "be_gp\<lparr>gp_data_ptr := Some [7, 8]\<rparr> = be_gp"
    "be_gp\<lparr>gp_data_ptr := Some [7, 8], gp_response := gp_response be_gp\<rparr> = be_gp"
    by (simp_all add: csb_ok_def tlm_gp_init_def be_gp_def gp_ok_def)
  show "\<exists>s' es. tlm2gsgp_b_transport True no_text (bridge_bus True no_text (\<lambda>g. (the (gp_data_ptr g), TLM_OK_RESPONSE))
      0x10200000 tlm_gp_init) (Tlm2gsgp_init 0) be_gp = Some (be_gp\<lparr>gp_response := TLM_OK_RESPONSE\<rparr>, s', es, None)"
    using bridge_loses_byte_enables [OF be(1-5) refl, where tgt = "\<lambda>g. (the (gp_data_ptr g), TLM_OK_RESPONSE)" and d = "[7, 8]"
        and resp = TLM_OK_RESPONSE and rs = no_text and throws = True and s = "Tlm2gsgp_init 0" and base = "0x10200000"]
    by (auto simp: be)
  show "\<exists>s' es e. tlm2gsgp_b_transport True no_text (bridge_bus True no_text (\<lambda>g. (the (gp_data_ptr g), TLM_ADDRESS_ERROR_RESPONSE))
      0x10200000 tlm_gp_init) (tlm2gsgp_set_dmi_mutex 5 (Tlm2gsgp_init 0)) be_gp = Some (be_gp, s', es, Some e) \<and>
      hd es = mutex_lock 5 \<and> mutex_unlock 5 \<notin> set es"
    using bridge_loses_byte_enables [OF be(1-5) refl, where tgt = "\<lambda>g. (the (gp_data_ptr g), TLM_ADDRESS_ERROR_RESPONSE)"
        and d = "[7, 8]" and resp = TLM_ADDRESS_ERROR_RESPONSE and rs = no_text and throws = True
        and s = "tlm2gsgp_set_dmi_mutex 5 (Tlm2gsgp_init 0)" and base = "0x10200000"]
    by (auto simp: be tlm2gsgp_set_dmi_mutex_def)
qed

text \<open>Once the platform has set the DMI mutex, every access of the NVDLA's main memory port holds it
  around the bus transaction and releases it afterwards, unless the transaction throws; the port to the
  second memory never takes it.\<close>

theorem dmi_mutex_mc_only:
  assumes "gp_data_ptr gp = Some data" and "length data = unat (gp_data_length gp)"
    and "nv = top_set_dmi_mutex mtx (NVDLA_top irq garbage)"
    and "tlm2gsgp_b_transport throws rs bus (top_mc nv) gp = Some (gp1, mc', es1, exc1)"
    and "tlm2gsgp_b_transport throws rs bus (top_cv nv) gp = Some (gp2, cv', es2, exc2)"
  shows "\<exists>t d resp thrown r. bus t = Some (d, resp, thrown) \<and>
    es1 = [mutex_lock mtx, Transact t] @ (if thrown = None then [mutex_unlock mtx] else []) @ r \<and> es2 = Transact t # r \<and>
    (\<forall>e \<in> set r. \<exists>s. e = sc_report_error s) \<and> gp1 = gp2 \<and> exc1 = exc2 \<and> t2g_is_dmi mc' \<and> \<not> t2g_is_dmi cv'"
proof -
  let ?t = "tlm2gsgp_fill txn_init gp data"
  have rd: "mem_rd data 0 (unat (gp_data_length gp)) = Some data" using assms(2) by (simp add: mem_rd_def)
  have nv: "top_mc nv = \<lparr>t2g_transaction = txn_init, t2g_dmi_mtx = mtx, t2g_is_dmi = True\<rparr>"
    "top_cv nv = \<lparr>t2g_transaction = txn_init, t2g_dmi_mtx = garbage, t2g_is_dmi = False\<rparr>"
    by (simp_all add: assms(3) top_set_dmi_mutex_def NVDLA_top_def Tlm2gsgp_init_def tlm2gsgp_set_dmi_mutex_def)
  obtain d resp thrown where bus: "bus ?t = Some (d, resp, thrown)"
    using assms(4) by (auto simp: tlm2gsgp_b_transport_def nv assms(1) rd Let_def split: bind_splits)
  show ?thesis
  proof (cases thrown)
    case (Some e)
    with bus assms(4,5) show ?thesis
      by (intro exI [of _ ?t]) (auto simp: tlm2gsgp_b_transport_def nv assms(1) rd Let_def)
  next
    case None
    with bus assms(4,5) show ?thesis
      by (intro exI [of _ ?t])
        (auto simp: tlm2gsgp_b_transport_def nv assms(1) rd Let_def report_unless_ok_def split: bind_splits if_splits)
  qed
qed

theorem dmi_mutex_mc_only_witness:
  "\<exists>mc' es1. tlm2gsgp_b_transport True no_text (\<lambda>t. Some (MData t, TLM_OK_RESPONSE, None))
      (top_mc (top_set_dmi_mutex 5 (NVDLA_top 0 0))) be_gp = Some (be_gp\<lparr>gp_response := TLM_OK_RESPONSE\<rparr>, mc', es1, None) \<and>
    hd es1 = mutex_lock 5"
proof -
  let ?top = "top_set_dmi_mutex 5 (NVDLA_top 0 0)" and ?bus = "\<lambda>t. Some (MData t, TLM_OK_RESPONSE, None)"
  have "\<exists>mc' es1. tlm2gsgp_b_transport True no_text ?bus (top_mc ?top) be_gp = Some (be_gp\<lparr>gp_response := TLM_OK_RESPONSE\<rparr>, mc', es1, None)"
    "\<exists>cv' es2. tlm2gsgp_b_transport True no_text ?bus (top_cv ?top) be_gp = Some (be_gp\<lparr>gp_response := TLM_OK_RESPONSE\<rparr>, cv', es2, None)"
    by (simp_all add: tlm2gsgp_b_transport_def be_gp_def mem_rd_def report_unless_ok_def tlm2gsgp_fill_def Let_def)
  then show ?thesis
    using dmi_mutex_mc_only [of be_gp "[7, 8]" ?top 5 0 0 True no_text ?bus] by (fastforce simp: be_gp_def)
qed

end
