(* ===== verification/Fpga.thy ===== *)
theory Fpga
  imports Nvdla_Adaptors
begin

text \<open>
  \<open>fpga_sc_wrapper/src\<close>: \<open>Gsgp2fpga\<close>, which turns bus accesses into accesses of a PCI BAR, \<open>Msi2gss\<close> with
  its polling thread and \<open>thread_safe_event\<close>, which bring interrupts back, and the two wrappers. The
  AWS library is a parameter: its calls return a code, which is 0 for success, and change the device.
  A failing peek need not write its target (\<open>None\<close>). \<open>throws\<close> says whether SystemC raises an exception
  for a reported error, its default; the messages are given without module name and line end.
\<close>

record 'h fpga_pci =
  fpga_pci_poke :: "int \<Rightarrow> u64 \<Rightarrow> u32 \<Rightarrow> 'h \<Rightarrow> int \<times> 'h"
  fpga_pci_poke8 :: "int \<Rightarrow> u64 \<Rightarrow> u8 \<Rightarrow> 'h \<Rightarrow> int \<times> 'h"
  fpga_pci_peek :: "int \<Rightarrow> u64 \<Rightarrow> 'h \<Rightarrow> int \<times> u32 option \<times> 'h"
  fpga_pci_peek8 :: "int \<Rightarrow> u64 \<Rightarrow> 'h \<Rightarrow> int \<times> u8 option \<times> 'h"

text \<open>What a call that can report an error ends with: the exception, or its value and the messages.\<close>

type_synonym 'a reported = "string + 'a \<times> string list"

section \<open>\<open>Gsgp2fpga\<close>\<close>

record gsgp2fpga =
  pci_bar_handle :: int
  fpga_offset :: u64

definition Gsgp2fpga :: "int \<Rightarrow> u64 \<Rightarrow> gsgp2fpga" where
  "Gsgp2fpga bar ofs = \<lparr>pci_bar_handle = bar, fpga_offset = ofs\<rparr>"

definition set_addr_offset :: "u64 \<Rightarrow> gsgp2fpga \<Rightarrow> gsgp2fpga" where
  "set_addr_offset addr g = g\<lparr>fpga_offset := addr\<rparr>"

definition not_aligned :: "u64 \<Rightarrow> int \<Rightarrow> bool" where
  "not_aligned addr len \<longleftrightarrow> len \<ge> 4 \<and> (len mod 4 \<noteq> 0 \<or> addr AND 3 \<noteq> 0)"

definition write_align_error :: string where
  "write_align_error = ''ERROR: data_write only support 4 byte alignment read, when len is more than 4!''"

definition read_align_error :: string where
  "read_align_error = ''ERROR: data_read only support 4 byte alignment read, when len is more than 4!''"

text \<open>The loops over whole words: the length left, the index, \<open>ret\<close> and the device at their end.\<close>

function write_loop :: "'h fpga_pci \<Rightarrow> int \<Rightarrow> u64 \<Rightarrow> bytes \<Rightarrow> int \<Rightarrow> int \<Rightarrow> bool \<Rightarrow> 'h \<Rightarrow> (int \<times> int \<times> bool \<times> 'h) option" where
  "write_loop lib bar addr p_data len index ret h =
    (if len \<ge> 4 then do {
       w \<leftarrow> mem_rd p_data (nat index) 4;
       let (poke_ret, h) = fpga_pci_poke lib bar (addr + of_int index) (le_word w) h;
       write_loop lib bar addr p_data (len - 4) (index + 4) (ret \<and> poke_ret \<noteq> 0) h }
     else Some (len, index, ret, h))"
  by pat_completeness auto
termination by (relation "measure (\<lambda>(lib, bar, addr, p_data, len, index, ret, h). nat len)") auto

function read_loop :: "'h fpga_pci \<Rightarrow> int \<Rightarrow> u64 \<Rightarrow> bytes \<Rightarrow> int \<Rightarrow> int \<Rightarrow> bool \<Rightarrow> 'h \<Rightarrow>
    (bytes \<times> int \<times> int \<times> bool \<times> 'h) option" where
  "read_loop lib bar addr p_data len index ret h =
    (if len \<ge> 4 then do {
       let (peek_ret, v, h) = fpga_pci_peek lib bar ((addr + of_int index) AND 0xfffffffc) h;
       p_data \<leftarrow> (case v of None \<Rightarrow> Some p_data | Some v \<Rightarrow> mem_wr p_data (nat index) (le_bytes 4 v));
       read_loop lib bar addr p_data (len - 4) (index + 4) (ret \<and> peek_ret \<noteq> 0) h }
     else Some (p_data, len, index, ret, h))"
  by pat_completeness auto
termination by (relation "measure (\<lambda>(lib, bar, addr, p_data, len, index, ret, h). nat len)") auto

declare write_loop.simps [simp del] read_loop.simps [simp del]

definition data_write :: "bool \<Rightarrow> 'h fpga_pci \<Rightarrow> int \<Rightarrow> u64 \<Rightarrow> bytes \<Rightarrow> int \<Rightarrow> 'h \<Rightarrow> (bool reported \<times> 'h) option" where
  "data_write throws lib bar addr p_data len h =
    (if not_aligned addr len \<and> throws then Some (Inl write_align_error, h)
     else do {
       (len', index, ret, h) \<leftarrow> write_loop lib bar addr p_data len 0 True h;
       (ret, h) \<leftarrow> (if len' = 1 then do {
           b \<leftarrow> mem_rd p_data (nat index) 1;
           let (poke_ret, h) = fpga_pci_poke8 lib bar (addr + of_int index) (b ! 0) h;
           Some (ret \<and> poke_ret \<noteq> 0, h) }
         else Some (ret, h));
       Some (Inr (ret, if not_aligned addr len then [write_align_error] else []), h) })"

definition data_read :: "bool \<Rightarrow> 'h fpga_pci \<Rightarrow> int \<Rightarrow> u64 \<Rightarrow> bytes \<Rightarrow> int \<Rightarrow> 'h \<Rightarrow> ((bool \<times> bytes) reported \<times> 'h) option" where
  "data_read throws lib bar addr p_data len h =
    (if not_aligned addr len \<and> throws then Some (Inl read_align_error, h)
     else do {
       (p_data, len', index, ret, h) \<leftarrow> read_loop lib bar addr p_data len 0 True h;
       (p_data, ret, h) \<leftarrow> (if len' = 1 then do {
           let (peek_ret, v, h) = fpga_pci_peek8 lib bar (addr + of_int index) h;
           p_data \<leftarrow> (case v of None \<Rightarrow> Some p_data | Some v \<Rightarrow> mem_wr p_data (nat index) [v]);
           Some (p_data, ret \<and> peek_ret \<noteq> 0, h) }
         else Some (p_data, ret, h));
       Some (Inr ((ret, p_data), if not_aligned addr len then [read_align_error] else []), h) })"

text \<open>\<open>SC_REPORT_ERROR\<close> at the end of a call that has already printed \<open>msgs\<close>.\<close>

definition report_error :: "bool \<Rightarrow> string \<Rightarrow> 'a \<Rightarrow> string list \<Rightarrow> 'a reported" where
  "report_error throws msg v msgs = (if throws then Inl msg else Inr (v, msgs @ [msg]))"

definition fpga_b_transact :: "bool \<Rightarrow> 'h fpga_pci \<Rightarrow> gsgp2fpga \<Rightarrow> u64 \<Rightarrow> gs_txn \<Rightarrow> 'h \<Rightarrow> (gs_txn reported \<times> 'h) option" where
  "fpga_b_transact throws lib g base t h =
    (if length (MData t) = 0 then Some (Inr (t, []), h)
     else let address = MAddr t - base + fpga_offset g; size = sint (of_nat (length (MData t)) :: u32) in
       if MCmd t = Generic_MCMD_WR then do {
         (r, h) \<leftarrow> data_write throws lib (pci_bar_handle g) address (MData t) size h;
         Some (case r of Inl e \<Rightarrow> Inl e
           | Inr (ret, msgs) \<Rightarrow> if ret then report_error throws ''ERROR on data write!'' t msgs else Inr (t, msgs), h) }
       else do {
         (r, h) \<leftarrow> data_read throws lib (pci_bar_handle g) address (MData t) size h;
         Some (case r of Inl e \<Rightarrow> Inl e
           | Inr ((ret, d), msgs) \<Rightarrow>
               if ret then report_error throws ''ERROR on data read!'' (t\<lparr>MData := d\<rparr>) msgs else Inr (t\<lparr>MData := d\<rparr>, msgs), h) })"

section \<open>Interrupts\<close>

text \<open>\<open>thread_safe_event\<close>: \<open>notify\<close> asks for an update, in which the event is notified. The delay is always
  its default, zero time, so the notification is for the next delta cycle: \<open>m_event\<close> says that it is
  pending. Asking twice before the update asks once, notifying twice before the delta cycle notifies
  once.\<close>

record thread_safe_event =
  update_requested :: bool
  m_event :: bool

definition tse_notify :: "thread_safe_event \<Rightarrow> thread_safe_event" where
  "tse_notify e = e\<lparr>update_requested := True\<rparr>"

definition tse_update :: "thread_safe_event \<Rightarrow> thread_safe_event" where
  "tse_update e = e\<lparr>update_requested := False, m_event := True\<rparr>"

text \<open>\<open>Msi2gss\<close>; the thread's number is the field of \<open>thread_state_t\<close>, \<open>status\<close> the local variable of
  \<open>transport\<close>, which starts uninitialised.\<close>

record msi2gss =
  msi_irq_number :: u32
  msi_bar :: int
  msi_index :: u32
  msi_event :: thread_safe_event
  msi_fd :: int
  msi_stop :: bool
  msi_thread :: u64
  msi_status :: u32

text \<open>The constructor: \<open>rc\<close> is what \<open>pthread_create\<close> returns; it is written over the thread's number.\<close>

definition Msi2gss :: "u32 \<Rightarrow> int \<Rightarrow> int \<Rightarrow> u32 \<Rightarrow> int \<Rightarrow> u32 \<Rightarrow> msi2gss" where
  "Msi2gss irq bar fd index rc garbage = \<lparr>msi_irq_number = irq, msi_bar = bar, msi_index = index,
     msi_event = \<lparr>update_requested = False, m_event = False\<rparr>, msi_fd = fd, msi_stop = False,
     msi_thread = of_int rc, msi_status = garbage\<rparr>"

text \<open>One turn of \<open>PollMsi\<close>, for the result of \<open>poll\<close>.\<close>

definition POLLIN :: int where "POLLIN = 1"

datatype poll_end = Poll_abort string | Poll_again | Poll_exit

definition poll_turn :: "int \<Rightarrow> int \<Rightarrow> int \<Rightarrow> msi2gss \<Rightarrow> poll_end \<times> msi2gss" where
  "poll_turn rc revents errno s =
    (if rc < 0 then (Poll_abort (''ERROR when polling msi event, errno:'' @ show_int errno), s)
     else if rc > 0 \<and> revents \<noteq> POLLIN then (Poll_abort (''ERROR when polling msi event, revents='' @ show_int revents), s)
     else (if msi_stop s then Poll_exit else Poll_again,
       if rc > 0 then s\<lparr>msi_event := tse_notify (msi_event s)\<rparr> else s))"

text \<open>The accesses of \<open>transport\<close> after its event: the status is read, then the interrupt is acknowledged
  and the value and the line to send are known. The index is less than 32 in the program (it is 0): the
  shift is undefined in C++ otherwise.\<close>

definition CFG_INT_STATUS_ADDR :: u64 where "CFG_INT_STATUS_ADDR = 0"

definition msi_peek :: "'h fpga_pci \<Rightarrow> msi2gss \<Rightarrow> 'h \<Rightarrow> msi2gss \<times> 'h" where
  "msi_peek lib s h =
    (let (rc, v, h) = fpga_pci_peek lib (msi_bar s) CFG_INT_STATUS_ADDR h
     in (case v of None \<Rightarrow> s | Some v \<Rightarrow> s\<lparr>msi_status := v\<rparr>, h))"

definition msi_ack :: "'h fpga_pci \<Rightarrow> msi2gss \<Rightarrow> 'h \<Rightarrow> (u32 \<times> u32) \<times> 'h" where
  "msi_ack lib s h =
    (let bit = push_bit (unat (msi_index s)) 1;
         (rc, h) = fpga_pci_poke lib (msi_bar s) CFG_INT_STATUS_ADDR bit h
     in ((msi_status s AND bit, msi_irq_number s), h))"

text \<open>The destructor: the thread it joins.\<close>

definition msi2gss_destroy :: "msi2gss \<Rightarrow> u64 \<times> msi2gss" where
  "msi2gss_destroy s = (msi_thread s, s\<lparr>msi_stop := True\<rparr>)"

section \<open>The wrappers\<close>

definition nvdla_fpga_sc_wrapper :: "u32 \<Rightarrow> int \<Rightarrow> int \<Rightarrow> int \<Rightarrow> int \<Rightarrow> u32 \<Rightarrow> gsgp2fpga \<times> msi2gss" where
  "nvdla_fpga_sc_wrapper irqNumber bar_csb bar_cfg fd rc garbage =
    (Gsgp2fpga bar_csb 0, Msi2gss irqNumber bar_cfg fd 0 rc garbage)"

definition extmem_fpga_sc_wrapper :: "int \<Rightarrow> u64 \<Rightarrow> gsgp2fpga" where
  "extmem_fpga_sc_wrapper bar base_addr = set_addr_offset base_addr (Gsgp2fpga bar 0xC0000000)"

end
