(* ===== verification/Fpga_Spec.thy ===== *)
theory Fpga_Spec
  imports Fpga
begin

text \<open>
  What the FPGA bridge does: an aligned access becomes the accesses of its words in order, a write
  followed by a read gives the data back, and an interrupt message is followed by a transmission.
\<close>

section \<open>Words of a buffer\<close>

definition word_at :: "bytes \<Rightarrow> nat \<Rightarrow> u32" where
  "word_at p j = le_word (take 4 (drop (4 * j) p))"

lemma le_bytes_word: "length bs = 4 \<Longrightarrow> le_bytes 4 (le_word bs :: u32) = bs"
proof (rule nth_equalityI)
  fix i
  assume "length bs = 4" and "i < length (le_bytes 4 (le_word bs :: u32))"
  then show "le_bytes 4 (le_word bs :: u32) ! i = bs ! i"
    by (intro bit_word_eqI) (auto simp: le_bytes_def bit_simps bit_le_word)
qed simp

lemma words_of_bytes: "length p = 4 * (i + k) \<Longrightarrow>
  drop (4 * i) p = concat (map (\<lambda>j. le_bytes 4 (word_at p j)) [i..<i + k])"
proof (induction k arbitrary: i)
  case (Suc k)
  have "drop (4 * i) p = take 4 (drop (4 * i) p) @ drop (4 * Suc i) p"
    by (metis append_take_drop_id drop_drop add.commute mult_Suc_right)
  also have "take 4 (drop (4 * i) p) = le_bytes 4 (word_at p i)"
    using Suc.prems by (simp add: word_at_def le_bytes_word)
  also have "drop (4 * Suc i) p = concat (map (\<lambda>j. le_bytes 4 (word_at p j)) [Suc i..<Suc i + k])"
    using Suc.prems by (intro Suc.IH) simp
  finally show ?case by (simp add: upt_conv_Cons del: upt_Suc)
qed simp

section \<open>Writes\<close>

text \<open>The pokes of \<open>k\<close> words from the \<open>i\<close>-th on: the codes they return and the device after them.\<close>

primrec pokes :: "'h fpga_pci \<Rightarrow> int \<Rightarrow> u64 \<Rightarrow> bytes \<Rightarrow> nat \<Rightarrow> nat \<Rightarrow> 'h \<Rightarrow> int list \<times> 'h" where
  "pokes lib bar addr p i 0 h = ([], h)"
| "pokes lib bar addr p i (Suc k) h =
    (let (rc, h) = fpga_pci_poke lib bar (addr + of_nat (4 * i)) (word_at p i) h;
         (rcs, h) = pokes lib bar addr p (Suc i) k h in (rc # rcs, h))"

lemma write_loop_pokes: "4 * (i + k) \<le> length p \<Longrightarrow> pokes lib bar addr p i k h = (rcs, h') \<Longrightarrow>
  write_loop lib bar addr p (int (4 * k)) (int (4 * i)) ret h = Some (0, int (4 * (i + k)), ret \<and> (\<forall>rc \<in> set rcs. rc \<noteq> 0), h')"
proof (induction k arbitrary: i ret h rcs)
  case 0
  then show ?case by (simp add: write_loop.simps)
next
  case (Suc k)
  obtain rc h1 where p1: "fpga_pci_poke lib bar (addr + of_nat (4 * i)) (word_at p i) h = (rc, h1)" by fastforce
  obtain rcs1 where p2: "pokes lib bar addr p (Suc i) k h1 = (rcs1, h')" "rcs = rc # rcs1"
    using Suc.prems(2) p1 by (auto split: prod.splits)
  have "mem_rd p (4 * i) 4 = Some (take 4 (drop (4 * i) p))" using Suc.prems(1) by (simp add: mem_rd_in)
  moreover have "write_loop lib bar addr p (int (4 * k)) (int (4 * Suc i)) (ret \<and> rc \<noteq> 0) h1 =
      Some (0, int (4 * (Suc i + k)), (ret \<and> rc \<noteq> 0) \<and> (\<forall>rc \<in> set rcs1. rc \<noteq> 0), h')"
    using Suc.prems(1) p2(1) by (intro Suc.IH) simp_all
  ultimately show ?case
    using p1 p2(2) by (subst write_loop.simps) (simp add: word_at_def nat_mult_distrib algebra_simps)
qed

section \<open>A device that is a memory\<close>

text \<open>\<open>view\<close> is the memory behind the BAR, by word address: pokes and peeks of aligned words succeed.\<close>

definition fpga_memory :: "'h fpga_pci \<Rightarrow> int \<Rightarrow> ('h \<Rightarrow> u64 \<Rightarrow> u32) \<Rightarrow> bool" where
  "fpga_memory lib bar view \<longleftrightarrow> (\<forall>a h. a AND 3 = 0 \<longrightarrow>
     (\<forall>w. \<exists>h'. fpga_pci_poke lib bar a w h = (0, h') \<and> view h' = (view h)(a := w)) \<and>
     fpga_pci_peek lib bar a h = (0, Some (view h a), h))"

lemma fpga_memoryD:
  assumes "fpga_memory lib bar view" and "a AND 3 = 0"
  shows "\<exists>h'. fpga_pci_poke lib bar a w h = (0, h') \<and> view h' = (view h)(a := w)"
    and "fpga_pci_peek lib bar a h = (0, Some (view h a), h)"
  using assms unfolding fpga_memory_def by blast+

lemma and_3_mod: "((a :: u64) AND 3 = 0) \<longleftrightarrow> unat a mod 4 = 0"
proof -
  have "a AND 3 = take_bit 2 a" by (simp add: take_bit_eq_mask mask_eq_exp_minus_1)
  then have "unat (a AND 3) = take_bit 2 (unat a)" by (simp only: unsigned_take_bit_eq)
  then show ?thesis by (metis take_bit_eq_mod unat_eq_zero power2_eq_square mult_2 numeral_Bit0)
qed

lemma unat_addr: "unat ((a :: u64) + of_nat n) = (unat a + n) mod 2 ^ 64"
  by (simp add: unat_word_ariths unat_of_nat mod_add_right_eq)

lemma aligned_add: "(a :: u64) AND 3 = 0 \<Longrightarrow> (a + of_nat (4 * j)) AND 3 = 0"
proof -
  assume "a AND 3 = 0"
  then have "(unat a + 4 * j) mod 4 = 0" by (simp add: and_3_mod)
  moreover have "(unat a + 4 * j) mod 2 ^ 64 mod 4 = (unat a + 4 * j) mod 4" by (rule mod_mod_cancel) simp
  moreover have "unat (a + of_nat (4 * j)) = (unat a + 4 * j) mod 2 ^ 64"
    by (rule unat_addr)
  ultimately show ?thesis unfolding and_3_mod by simp
qed

lemma word_addr_neq: "i < j \<Longrightarrow> 4 * j < 2 ^ 64 \<Longrightarrow> (a :: u64) + of_nat (4 * i) \<noteq> a + of_nat (4 * j)"
proof
  assume "i < j" "4 * j < 2 ^ 64" "a + of_nat (4 * i) = a + of_nat (4 * j)"
  then have "unat (of_nat (4 * i) :: u64) = unat (of_nat (4 * j) :: u64)" by simp
  then show False using \<open>i < j\<close> \<open>4 * j < 2 ^ 64\<close> by (simp only: unat_of_nat) simp
qed

text \<open>What the pokes leave in such a device.\<close>

lemma pokes_memory:
  assumes "fpga_memory lib bar view" and "a AND 3 = 0" and "4 * (i + k) < 2 ^ 64"
  shows "\<exists>h'. pokes lib bar a p i k h = (replicate k 0, h') \<and>
    (\<forall>j. i \<le> j \<longrightarrow> j < i + k \<longrightarrow> view h' (a + of_nat (4 * j)) = word_at p j) \<and>
    (\<forall>x. (\<forall>j. i \<le> j \<longrightarrow> j < i + k \<longrightarrow> x \<noteq> a + of_nat (4 * j)) \<longrightarrow> view h' x = view h x)"
  using assms(3)
proof (induction k arbitrary: i h)
  case (Suc k)
  obtain h1 where h1: "fpga_pci_poke lib bar (a + of_nat (4 * i)) (word_at p i) h = (0, h1)"
    "view h1 = (view h)(a + of_nat (4 * i) := word_at p i)"
    using fpga_memoryD(1) [OF assms(1) aligned_add [OF assms(2), of i], of "word_at p i" h] by (elim exE conjE)
  have "4 * (Suc i + k) < 2 ^ 64" using Suc.prems by simp
  then obtain h' where h': "pokes lib bar a p (Suc i) k h1 = (replicate k 0, h')"
    "\<And>j. Suc i \<le> j \<Longrightarrow> j < Suc i + k \<Longrightarrow> view h' (a + of_nat (4 * j)) = word_at p j"
    "\<And>x. (\<And>j. Suc i \<le> j \<Longrightarrow> j < Suc i + k \<Longrightarrow> x \<noteq> a + of_nat (4 * j)) \<Longrightarrow> view h' x = view h1 x"
    using Suc.IH [of "Suc i" h1] by blast
  have "a + of_nat (4 * i) \<noteq> a + of_nat (4 * j)" if "Suc i \<le> j" "j < Suc i + k" for j
    by (rule word_addr_neq) (use that Suc.prems in simp_all)
  then have "view h' (a + of_nat (4 * i)) = word_at p i" using h'(3) h1(2) by simp
  then have "view h' (a + of_nat (4 * j)) = word_at p j" if "i \<le> j" "j < i + Suc k" for j
    using h'(2) [of j] that by (cases "j = i") auto
  moreover have "view h' x = view h x" if "\<forall>j. i \<le> j \<longrightarrow> j < i + Suc k \<longrightarrow> x \<noteq> a + of_nat (4 * j)" for x
  proof -
    have "x \<noteq> a + of_nat (4 * j)" if "Suc i \<le> j" "j < Suc i + k" for j
      using \<open>\<forall>j. i \<le> j \<longrightarrow> j < i + Suc k \<longrightarrow> x \<noteq> a + of_nat (4 * j)\<close> that by simp
    then have "view h' x = view h1 x" by (rule h'(3))
    also have "\<dots> = view h x" using that h1(2) by auto
    finally show ?thesis .
  qed
  moreover have "pokes lib bar a p i (Suc k) h = (replicate (Suc k) 0, h')"
    using h1(1) h'(1) by simp
  ultimately show ?case by blast
qed auto

section \<open>Reads\<close>

lemma low_mask: "(a :: u64) AND 0xfffffffc = take_bit 32 a AND NOT 3"
  by (simp add: take_bit_eq_mask mask_eq_exp_minus_1 and.assoc)

lemma and_not_3:
  assumes "(a :: u64) AND 3 = 0"
  shows "a AND NOT 3 = a"
proof (rule bit_word_eqI)
  fix n assume "n < LENGTH(64)"
  have "\<not> (bit a n \<and> bit (3 :: u64) n)" unfolding bit_and_iff [symmetric] assms by simp
  then show "bit (a AND NOT 3) n = bit a n" using \<open>n < LENGTH(64)\<close> unfolding bit_and_iff bit_not_iff by auto
qed

lemma low_word_addr:
  assumes "(a :: u64) AND 3 = 0" and "unat a < 2 ^ 32"
  shows "a AND 0xfffffffc = a"
proof -
  have "take_bit 32 a = a" using assms(2) by (simp add: word_unat_eq_iff unsigned_take_bit_eq take_bit_nat_eq_self)
  then show ?thesis unfolding low_mask by (simp only: and_not_3 [OF assms(1)])
qed

text \<open>Reading \<open>k\<close> words of such a device.\<close>

lemma read_loop_memory:
  assumes mem: "fpga_memory lib bar view" and a: "a AND 3 = 0"
  shows "unat a + 4 * (i + k) \<le> 2 ^ 32 \<Longrightarrow> length p = 4 * (i + k) \<Longrightarrow>
    read_loop lib bar a p (int (4 * k)) (int (4 * i)) ret h =
      Some (take (4 * i) p @ concat (map (\<lambda>j. le_bytes 4 (view h (a + of_nat (4 * j)))) [i..<i + k]),
        0, int (4 * (i + k)), ret \<and> k = 0, h)"
proof (induction k arbitrary: i p ret)
  case 0
  then show ?case by (subst read_loop.simps) simp
next
  case (Suc k)
  let ?a = "a + of_nat (4 * i) :: u64" and ?p = "take (4 * i) p @ le_bytes 4 (view h (a + of_nat (4 * i))) @ drop (4 * i + 4) p"
  have "unat ?a = unat a + 4 * i"
    unfolding unat_addr using Suc.prems(1) by simp
  then have "?a AND 0xfffffffc = ?a" using Suc.prems(1) by (intro low_word_addr aligned_add a) simp
  then have peek: "fpga_pci_peek lib bar (?a AND 0xfffffffc) h = (0, Some (view h ?a), h)"
    using fpga_memoryD(2) [OF mem aligned_add [OF a]] by simp
  have wr: "mem_wr p (4 * i) (le_bytes 4 (view h ?a)) = Some ?p" using Suc.prems(2) by (simp add: mem_wr_in)
  have IH: "read_loop lib bar a ?p (int (4 * k)) (int (4 * Suc i)) False h =
      Some (take (4 * Suc i) ?p @ concat (map (\<lambda>j. le_bytes 4 (view h (a + of_nat (4 * j)))) [Suc i..<Suc i + k]),
        0, int (4 * (Suc i + k)), False \<and> k = 0, h)"
    using Suc.prems by (intro Suc.IH) auto
  have "take (4 * Suc i) ?p = take (4 * i) p @ le_bytes 4 (view h ?a)" using Suc.prems(2) by simp
  with IH have IH: "read_loop lib bar a ?p (int (4 * k)) (int (4 * i) + 4) False h =
      Some (take (4 * i) p @ concat (map (\<lambda>j. le_bytes 4 (view h (a + of_nat (4 * j)))) [i..<i + Suc k]),
        0, int (4 * (i + Suc k)), False, h)"
    by (simp add: upt_conv_Cons algebra_simps del: upt_Suc)
  show ?case
    using peek wr IH by (subst read_loop.simps) (simp add: nat_mult_distrib algebra_simps del: upt_Suc)
qed

text \<open>The address of a read goes through a mask of 32 bits: only its low half counts.\<close>

lemma mask_low_half: "((a :: u64) + b) AND 0xfffffffc = (take_bit 32 a + b) AND 0xfffffffc"
proof -
  have m: "(n mod 2 ^ 64) mod 2 ^ 32 = n mod 2 ^ 32" for n :: nat by (rule mod_mod_cancel) (rule le_imp_power_dvd, simp)
  have u: "unat (x + y :: u64) = (unat x + unat y) mod 2 ^ 64" for x y using unat_word_ariths(1) [of x y] by simp
  have "take_bit 32 (a + b) = take_bit 32 (take_bit 32 a + b)"
    unfolding word_unat_eq_iff unsigned_take_bit_eq u unfolding take_bit_eq_mod m by (rule mod_add_left_eq [symmetric])
  then show ?thesis unfolding low_mask by simp
qed

lemma read_loop_low_half: "read_loop lib bar a p len index ret h = read_loop lib bar (take_bit 32 a) p len index ret h"
proof (induction lib bar a p len index ret h rule: read_loop.induct)
  case (1 lib bar a p len index ret h)
  show ?case
    by (subst (1 2) read_loop.simps)
      (auto simp: 1 mask_low_half [of a] split: prod.splits option.splits bind_splits)
qed

lemma read_loop_rest: "read_loop lib bar a p len index ret h = Some (p', len', index', ret', h') \<Longrightarrow> len mod 4 = 0 \<Longrightarrow> len' \<noteq> 1"
proof (induction lib bar a p len index ret h rule: read_loop.induct)
  case (1 lib bar a p len index ret h)
  show ?case
  proof (cases "len \<ge> 4")
    case True
    moreover have "(len - 4) mod 4 = 0" using 1(3) by presburger
    ultimately show ?thesis
      using 1(2) 1(1) [OF True] by (subst (asm) read_loop.simps) (auto split: prod.splits option.splits bind_splits)
  next
    case False
    with 1(2,3) show ?thesis by (subst (asm) read_loop.simps) auto
  qed
qed

section \<open>Bus accesses\<close>

lemma fpga_size: "n < 2 ^ 31 \<Longrightarrow> sint (of_nat n :: u32) = int n"
  by (simp add: signed_of_nat signed_take_bit_int_eq_self)

text \<open>Aligned accesses of whole words.\<close>

definition fpga_access_ok :: "gsgp2fpga \<Rightarrow> u64 \<Rightarrow> gs_txn \<Rightarrow> nat \<Rightarrow> bool" where
  "fpga_access_ok g base t k \<longleftrightarrow> length (MData t) = 4 * k \<and> 0 < k \<and> 4 * k < 2 ^ 31 \<and>
     (MAddr t - base + fpga_offset g) AND 3 = 0"

lemma access_size: "fpga_access_ok g base t k \<Longrightarrow> length (MData t) = 4 * k \<and> MData t \<noteq> [] \<and>
    sint (of_nat (length (MData t)) :: u32) = int (4 * k) \<and> \<not> not_aligned (MAddr t - base + fpga_offset g) (int (4 * k))"
  using fpga_size [of "4 * k"] by (auto simp: fpga_access_ok_def not_aligned_def)

lemma fpga_write_eq:
  assumes "fpga_access_ok g base t k" and "MCmd t = Generic_MCMD_WR"
    and "pokes lib (pci_bar_handle g) (MAddr t - base + fpga_offset g) (MData t) 0 k h = (rcs, h')"
  shows "fpga_b_transact throws lib g base t h = Some
    (if \<forall>rc \<in> set rcs. rc \<noteq> 0 then report_error throws ''ERROR on data write!'' t [] else Inr (t, []), h')"
  using write_loop_pokes [of 0 k "MData t" lib _ _ h rcs h' True, OF _ assms(3)] access_size [OF assms(1)] assms(2)
  by (auto simp: fpga_b_transact_def data_write_def Let_def)

lemma fpga_read_eq:
  assumes "fpga_access_ok g base t k" and "MCmd t = Generic_MCMD_RD"
    and "a = MAddr t - base + fpga_offset g" and "unat a + 4 * k \<le> 2 ^ 32" and "fpga_memory lib (pci_bar_handle g) view"
  shows "fpga_b_transact throws lib g base t h = Some
    (Inr (t\<lparr>MData := concat (map (\<lambda>j. le_bytes 4 (view h (a + of_nat (4 * j)))) [0..<k])\<rparr>, []), h)"
proof -
  have "a AND 3 = 0" "k \<noteq> 0" using assms(1,3) by (simp_all add: fpga_access_ok_def)
  with read_loop_memory [OF assms(5) this(1), of 0 k "MData t" True h] assms(2-4) access_size [OF assms(1)]
  show ?thesis by (auto simp: fpga_b_transact_def data_read_def Let_def)
qed

section \<open>Properties of the bus side\<close>

text \<open>C26. An aligned write of whole words pokes each word once, in order, at its address. An error is
  reported only when every poke failed: a write that lost some of its words is not noticed.\<close>

theorem fpga_write_words:
  assumes "fpga_access_ok g base t k" and "MCmd t = Generic_MCMD_WR"
    and "pokes lib (pci_bar_handle g) (MAddr t - base + fpga_offset g) (MData t) 0 k h = (rcs, h')"
  shows "fpga_b_transact throws lib g base t h = Some
    (if \<forall>rc \<in> set rcs. rc \<noteq> 0 then report_error throws ''ERROR on data write!'' t [] else Inr (t, []), h')"
  using assms by (rule fpga_write_eq)

text \<open>A device of two words, of which only the first can be written.\<close>

definition small_fpga :: "(u64 \<Rightarrow> u32) fpga_pci" where
  "small_fpga = \<lparr>fpga_pci_poke = (\<lambda>bar a w m. if a = 4 then (1, m) else (0, m(a := w))),
     fpga_pci_poke8 = (\<lambda>bar a b m. (1, m)), fpga_pci_peek = (\<lambda>bar a m. (0, Some (m a), m)),
     fpga_pci_peek8 = (\<lambda>bar a m. (1, None, m))\<rparr>"

definition fpga_txn :: "gs_cmd \<Rightarrow> u64 \<Rightarrow> bytes \<Rightarrow> gs_txn" where
  "fpga_txn cmd a d = txn_init\<lparr>MCmd := cmd, MAddr := a, MData := d\<rparr>"

theorem fpga_write_words_witness:
  "fpga_b_transact True small_fpga (Gsgp2fpga 2 0) 0 (fpga_txn Generic_MCMD_WR 0 [1, 0, 0, 0, 2, 0, 0, 0]) (\<lambda>a. 7) =
    Some (Inr (fpga_txn Generic_MCMD_WR 0 [1, 0, 0, 0, 2, 0, 0, 0], []), (\<lambda>a. 7)(0 := 1))"
proof -
  have "pokes small_fpga 2 0 [1, 0, 0, 0, 2, 0, 0, 0] 0 (Suc (Suc 0)) (\<lambda>a. 7) = ([0, 1], (\<lambda>a. 7)(0 := 1))"
    by (simp add: small_fpga_def word_at_def le_word_def)
  then show ?thesis
    by (subst fpga_write_words [of _ _ _ "Suc (Suc 0)" _ _ "[0, 1]" "(\<lambda>a. 7)(0 := 1)"])
      (simp_all add: fpga_access_ok_def fpga_txn_def Gsgp2fpga_def)
qed

text \<open>C14. Over a BAR that is a memory, what an aligned write below 4 GB stores is what a read of the same
  place returns, without a message, and no other word changes.\<close>

theorem fpga_round_trip:
  assumes "fpga_memory lib (pci_bar_handle g) view"
    and "fpga_access_ok g base tw k" and "MCmd tw = Generic_MCMD_WR"
    and "fpga_access_ok g base tr k" and "MCmd tr = Generic_MCMD_RD" and "MAddr tr = MAddr tw"
    and "a = MAddr tw - base + fpga_offset g" and "unat a + 4 * k \<le> 2 ^ 32"
  shows "\<exists>h'. fpga_b_transact throws lib g base tw h = Some (Inr (tw, []), h') \<and>
    fpga_b_transact throws lib g base tr h' = Some (Inr (tr\<lparr>MData := MData tw\<rparr>, []), h') \<and>
    (\<forall>x. (\<forall>j < k. x \<noteq> a + of_nat (4 * j)) \<longrightarrow> view h' x = view h x)"
proof -
  have k: "a AND 3 = 0" "0 < k" "4 * (0 + k) < 2 ^ 64" "length (MData tw) = 4 * (0 + k)"
    using assms(2,7) by (simp_all add: fpga_access_ok_def)
  obtain h' where h': "pokes lib (pci_bar_handle g) a (MData tw) 0 k h = (replicate k 0, h')"
    "\<forall>j. 0 \<le> j \<longrightarrow> j < 0 + k \<longrightarrow> view h' (a + of_nat (4 * j)) = word_at (MData tw) j"
    "\<forall>x. (\<forall>j. 0 \<le> j \<longrightarrow> j < 0 + k \<longrightarrow> x \<noteq> a + of_nat (4 * j)) \<longrightarrow> view h' x = view h x"
    using pokes_memory [OF assms(1) k(1,3), of "MData tw" h] by (elim exE conjE)
  have "map (\<lambda>j. le_bytes 4 (view h' (a + of_nat (4 * j)))) [0..<k] = map (\<lambda>j. le_bytes 4 (word_at (MData tw) j)) [0..<k]"
    by (rule map_cong [OF refl]) (use h'(2) in simp)
  then have "concat (map (\<lambda>j. le_bytes 4 (view h' (a + of_nat (4 * j)))) [0..<k]) = drop (4 * 0) (MData tw)"
    unfolding words_of_bytes [OF k(4)] add_0 by (rule arg_cong)
  then have "concat (map (\<lambda>j. le_bytes 4 (view h' (a + of_nat (4 * j)))) [0..<k]) = MData tw" by simp
  then have "fpga_b_transact throws lib g base tr h' = Some (Inr (tr\<lparr>MData := MData tw\<rparr>, []), h')"
    using fpga_read_eq [OF assms(4,5) _ assms(8,1), of throws h'] assms(6,7) by simp
  moreover have "fpga_b_transact throws lib g base tw h = Some (Inr (tw, []), h')"
    using fpga_write_eq [OF assms(2,3), of lib h] h'(1) k(2) assms(7) by simp
  ultimately show ?thesis using h'(3) by auto
qed

text \<open>A device whose words are all there.\<close>

definition fpga_ram :: "(u64 \<Rightarrow> u32) fpga_pci" where
  "fpga_ram = small_fpga\<lparr>fpga_pci_poke := (\<lambda>bar a w m. (0, m(a := w)))\<rparr>"

lemma fpga_ram_memory: "fpga_memory fpga_ram bar (\<lambda>m. m)"
  by (simp add: fpga_memory_def fpga_ram_def small_fpga_def)

theorem fpga_round_trip_witness:
  "\<exists>h'. fpga_b_transact True fpga_ram (Gsgp2fpga 2 0) 0 (fpga_txn Generic_MCMD_WR 16 [1, 2, 3, 4]) (\<lambda>a. 7) =
      Some (Inr (fpga_txn Generic_MCMD_WR 16 [1, 2, 3, 4], []), h') \<and>
    fpga_b_transact True fpga_ram (Gsgp2fpga 2 0) 0 (fpga_txn Generic_MCMD_RD 16 [0, 0, 0, 0]) h' =
      Some (Inr ((fpga_txn Generic_MCMD_RD 16 [0, 0, 0, 0])\<lparr>MData := [1, 2, 3, 4]\<rparr>, []), h')"
proof -
  have "fpga_access_ok (Gsgp2fpga 2 0) 0 (fpga_txn cmd 16 d) 1" if "length d = 4" for cmd d
    using that by (simp add: fpga_access_ok_def fpga_txn_def Gsgp2fpga_def)
  from fpga_round_trip [OF fpga_ram_memory this _ this, of "[1, 2, 3, 4]" Generic_MCMD_WR "[0, 0, 0, 0]" Generic_MCMD_RD 16 True "\<lambda>a. 7"]
  show ?thesis by (auto simp: fpga_txn_def Gsgp2fpga_def)
qed

text \<open>A read of whole words never reaches a device address of 4 GB or more, whatever was written there:
  it returns what is at the address without its upper half.\<close>

theorem fpga_read_low_half:
  assumes "len mod 4 = 0"
  shows "data_read throws lib bar addr p len h = data_read throws lib bar (take_bit 32 addr) p len h"
proof -
  have "take_bit 32 addr AND 3 = addr AND 3"
    by (simp add: take_bit_eq_mask mask_eq_exp_minus_1 and.assoc)
  then have n: "not_aligned (take_bit 32 addr) len = not_aligned addr len" by (simp add: not_aligned_def)
  show ?thesis
    using read_loop_rest [OF _ assms, of lib bar addr p 0 True h]
    by (auto simp: data_read_def n read_loop_low_half [symmetric] split: bind_splits)
qed

theorem fpga_read_low_half_witness:
  "data_read True fpga_ram 2 0x100000010 [0, 0, 0, 0] 4 (\<lambda>a. if a = 16 then 1 else 2) =
    Some (Inr ((False, [1, 0, 0, 0]), []), \<lambda>a. if a = 16 then 1 else 2)"
proof -
  have "take_bit 32 (0x100000010 :: u64) = 16" by (simp add: take_bit_eq_mod)
  then show ?thesis
    by (subst fpga_read_low_half) (simp_all add: data_read_def not_aligned_def read_loop.simps fpga_ram_def small_fpga_def
      mem_wr_def le_bytes_def upt_rec)
qed

end
