(* ===== verification/Fpga_Msi.thy ===== *)
theory Fpga_Msi
  imports Fpga
begin

text \<open>
  The interrupt path of the FPGA as a system of two threads: \<open>PollMsi\<close>, which sees messages come in, and
  the SystemC side, which updates the event and runs \<open>transport\<close>. What happened is a trace.

  SystemC's scheduler alternates between running processes until all of them wait, performing the
  requested updates, and triggering the events notified for the next delta cycle. A triggered event
  wakes the processes that wait for it at that moment and leaves nothing behind for others. The polling
  thread runs outside this order, at any time.
\<close>

section \<open>Steps\<close>

text \<open>Where \<open>transport\<close> stands: it has not run yet, it waits for its event, it was woken, it has read the
  status, it has acknowledged, or it waits inside \<open>b_transport\<close> of the socket.\<close>

datatype msi_pc = Msi_starting | Msi_waiting | Msi_woken | Msi_ack | Msi_transmit "u32 \<times> u32" | Msi_blocked

fun msi_runnable :: "msi_pc \<Rightarrow> bool" where
  "msi_runnable Msi_woken = True"
| "msi_runnable Msi_ack = True"
| "msi_runnable (Msi_transmit out) = True"
| "msi_runnable _ = False"

datatype msi_obs = Msi_message | Msi_read u32 | Msi_sent "u32 \<times> u32"

record 'h msi_sys =
  my_dev :: msi2gss
  my_hw :: 'h
  my_polling :: bool
  my_pc :: msi_pc
  my_trace :: "msi_obs list"

text \<open>\<open>waits\<close> says whether \<open>b_transport\<close> of the socket may wait before it returns. The updates and the
  triggers come while the thread is not runnable; its first run, and its return from \<open>b_transport\<close>,
  come after the triggers of the delta cycle.\<close>

inductive msi_step :: "bool \<Rightarrow> 'h fpga_pci \<Rightarrow> 'h msi_sys \<Rightarrow> 'h msi_sys \<Rightarrow> bool" for waits lib where
  message: "my_polling y \<Longrightarrow> 0 < rc \<Longrightarrow> poll_turn rc POLLIN errno (my_dev y) = (r, s) \<Longrightarrow>
    msi_step waits lib y (y\<lparr>my_dev := s, my_polling := r \<noteq> Poll_exit, my_trace := my_trace y @ [Msi_message]\<rparr>)"
| quiet: "my_polling y \<Longrightarrow> poll_turn 0 revents errno (my_dev y) = (r, s) \<Longrightarrow>
    msi_step waits lib y (y\<lparr>my_dev := s, my_polling := r \<noteq> Poll_exit\<rparr>)"
| update: "update_requested (msi_event (my_dev y)) \<Longrightarrow> \<not> msi_runnable (my_pc y) \<Longrightarrow>
    msi_step waits lib y (y\<lparr>my_dev := (my_dev y)\<lparr>msi_event := tse_update (msi_event (my_dev y))\<rparr>\<rparr>)"
| trigger: "m_event (msi_event (my_dev y)) \<Longrightarrow> \<not> msi_runnable (my_pc y) \<Longrightarrow>
    msi_step waits lib y (y\<lparr>my_dev := (my_dev y)\<lparr>msi_event := (msi_event (my_dev y))\<lparr>m_event := False\<rparr>\<rparr>,
      my_pc := (if my_pc y = Msi_waiting then Msi_woken else my_pc y)\<rparr>)"
| start: "my_pc y = Msi_starting \<Longrightarrow> \<not> m_event (msi_event (my_dev y)) \<Longrightarrow> msi_step waits lib y (y\<lparr>my_pc := Msi_waiting\<rparr>)"
| peek: "my_pc y = Msi_woken \<Longrightarrow> msi_peek lib (my_dev y) (my_hw y) = (s, h) \<Longrightarrow>
    msi_step waits lib y (y\<lparr>my_dev := s, my_hw := h, my_pc := Msi_ack, my_trace := my_trace y @ [Msi_read (msi_status s)]\<rparr>)"
| ack: "my_pc y = Msi_ack \<Longrightarrow> msi_ack lib (my_dev y) (my_hw y) = (out, h) \<Longrightarrow>
    msi_step waits lib y (y\<lparr>my_hw := h, my_pc := Msi_transmit out\<rparr>)"
| send: "my_pc y = Msi_transmit out \<Longrightarrow> (b \<longrightarrow> waits) \<Longrightarrow>
    msi_step waits lib y (y\<lparr>my_pc := (if b then Msi_blocked else Msi_waiting), my_trace := my_trace y @ [Msi_sent out]\<rparr>)"
| unblock: "my_pc y = Msi_blocked \<Longrightarrow> \<not> m_event (msi_event (my_dev y)) \<Longrightarrow> msi_step waits lib y (y\<lparr>my_pc := Msi_waiting\<rparr>)"
| destroy: "msi_step waits lib y (y\<lparr>my_dev := snd (msi2gss_destroy (my_dev y))\<rparr>)"

definition msi_start :: "msi2gss \<Rightarrow> 'h \<Rightarrow> 'h msi_sys" where
  "msi_start s h = \<lparr>my_dev = s, my_hw = h, my_polling = True, my_pc = Msi_starting, my_trace = []\<rparr>"

section \<open>What a trace shows\<close>

text \<open>Every message has a reading of the status after it.\<close>

primrec all_served :: "msi_obs list \<Rightarrow> bool" where
  "all_served [] = True"
| "all_served (x # t) = ((x = Msi_message \<longrightarrow> (\<exists>v. Msi_read v \<in> set t)) \<and> all_served t)"

lemma all_served_read [simp]: "all_served (t @ [Msi_read v])"
  by (induction t) auto

lemma all_served_sent [simp]: "all_served (t @ [Msi_sent out]) \<longleftrightarrow> all_served t"
  by (induction t) auto

lemma all_served_message [simp]: "\<not> all_served (t @ [Msi_message])"
  by (induction t) auto

primrec sent_of :: "msi_obs \<Rightarrow> (u32 \<times> u32) list" where
  "sent_of Msi_message = []"
| "sent_of (Msi_read v) = []"
| "sent_of (Msi_sent out) = [out]"

primrec read_of :: "msi_obs \<Rightarrow> u32 list" where
  "read_of Msi_message = []"
| "read_of (Msi_read v) = [v]"
| "read_of (Msi_sent out) = []"

definition sent_list :: "msi_obs list \<Rightarrow> (u32 \<times> u32) list" where
  "sent_list t = concat (map sent_of t)"

definition read_list :: "msi_obs list \<Rightarrow> u32 list" where
  "read_list t = concat (map read_of t)"

lemma trace_simps [simp]:
  "sent_list [] = []" "sent_list (t @ [x]) = sent_list t @ sent_of x"
  "read_list [] = []" "read_list (t @ [x]) = read_list t @ read_of x"
  by (simp_all add: sent_list_def read_list_def)

section \<open>Invariant\<close>

definition msi_pending :: "'h msi_sys \<Rightarrow> bool" where
  "msi_pending y \<longleftrightarrow> update_requested (msi_event (my_dev y)) \<or> m_event (msi_event (my_dev y)) \<or> msi_runnable (my_pc y)"

definition msi_out :: "u32 \<Rightarrow> u32 \<Rightarrow> u32 \<Rightarrow> u32 \<times> u32" where
  "msi_out irq index v = (v AND push_bit (unat index) 1, irq)"

text \<open>The reading that has not been sent yet, the notifications on their way, and the device's settings.\<close>

primrec in_flight :: "u32 \<Rightarrow> u32 \<Rightarrow> u32 \<Rightarrow> msi_pc \<Rightarrow> (u32 \<times> u32) list" where
  "in_flight irq index status Msi_starting = []"
| "in_flight irq index status Msi_waiting = []"
| "in_flight irq index status Msi_woken = []"
| "in_flight irq index status Msi_ack = [msi_out irq index status]"
| "in_flight irq index status (Msi_transmit out) = [out]"
| "in_flight irq index status Msi_blocked = []"

definition notices :: "'h msi_sys \<Rightarrow> nat" where
  "notices y = of_bool (update_requested (msi_event (my_dev y))) + of_bool (m_event (msi_event (my_dev y))) + of_bool (my_pc y = Msi_woken)"

definition msi_set :: "u32 \<Rightarrow> u32 \<Rightarrow> 'h msi_sys \<Rightarrow> bool" where
  "msi_set irq index y \<longleftrightarrow> msi_irq_number (my_dev y) = irq \<and> msi_index (my_dev y) = index"

definition msi_inv :: "u32 \<Rightarrow> u32 \<Rightarrow> 'h msi_sys \<Rightarrow> 'h msi_sys \<Rightarrow> msi_obs list \<Rightarrow> bool" where
  "msi_inv irq index y0 y t \<longleftrightarrow> msi_set irq index y \<and> my_trace y = my_trace y0 @ t \<and>
     my_pc y \<notin> {Msi_starting, Msi_blocked} \<and>
     (m_event (msi_event (my_dev y)) \<longrightarrow> my_pc y = Msi_waiting) \<and>
     (notices y = 0 \<longrightarrow> all_served t) \<and>
     map (msi_out irq index) (read_list t) = sent_list t @ in_flight irq index (msi_status (my_dev y)) (my_pc y) \<and>
     length (read_list t) + notices y \<le> count_list t Msi_message + notices y0"

lemma msi_event_simps [simp]:
  "update_requested (tse_notify e)" "m_event (tse_notify e) = m_event e"
  "\<not> update_requested (tse_update e)" "m_event (tse_update e)"
  by (simp_all add: tse_notify_def tse_update_def)

lemma poll_message: "0 < rc \<Longrightarrow> poll_turn rc POLLIN errno s = (r, s') \<Longrightarrow> s' = s\<lparr>msi_event := tse_notify (msi_event s)\<rparr>"
  and poll_quiet: "poll_turn 0 revents errno s = (r, s') \<Longrightarrow> s' = s"
  by (auto simp: poll_turn_def)

lemma msi_peek_kept: "msi_peek lib s h = (s', h') \<Longrightarrow> \<exists>v. s' = s\<lparr>msi_status := v\<rparr>"
  by (auto simp: msi_peek_def split: prod.splits option.splits) (metis (full_types) msi2gss.surjective msi2gss.update_convs(8))

lemma msi_ack_out: "msi_ack lib s h = (out, h') \<Longrightarrow> out = msi_out (msi_irq_number s) (msi_index s) (msi_status s)"
  by (auto simp: msi_ack_def msi_out_def Let_def split: prod.splits)

lemma msi_step_set: "msi_step waits lib y y' \<Longrightarrow> msi_set irq index y \<Longrightarrow> msi_set irq index y'"
  by (induction rule: msi_step.induct)
    (auto simp: msi_set_def msi2gss_destroy_def dest!: poll_message poll_quiet msi_peek_kept)

lemma msi_run_set: "(msi_step waits lib)\<^sup>*\<^sup>* y y' \<Longrightarrow> msi_set irq index y \<Longrightarrow> msi_set irq index y'"
  by (induction rule: rtranclp_induct) (auto intro: msi_step_set)

lemma msi_step_inv: "msi_step False lib y y' \<Longrightarrow> msi_inv irq index y0 y t \<Longrightarrow> \<exists>t'. msi_inv irq index y0 y' t'"
proof (induction rule: msi_step.induct)
  case (message y rc errno r s)
  with poll_message [OF message(2,3)] show ?case
    by (intro exI [of _ "t @ [Msi_message]"]) (auto simp: msi_inv_def msi_set_def notices_def)
next
  case (quiet y revents errno r s)
  with poll_quiet [OF quiet(2)] show ?case by (intro exI [of _ t]) (simp add: msi_inv_def msi_set_def notices_def)
next
  case (update y)
  then show ?case by (cases "my_pc y"; intro exI [of _ t]) (auto simp: msi_inv_def msi_set_def notices_def)
next
  case (trigger y)
  then show ?case by (intro exI [of _ t]) (auto simp: msi_inv_def msi_set_def notices_def)
next
  case (start y)
  then show ?case by (simp add: msi_inv_def)
next
  case (peek y s h)
  from msi_peek_kept [OF peek(2)] obtain v where "s = (my_dev y)\<lparr>msi_status := v\<rparr>" by blast
  with peek show ?case by (intro exI [of _ "t @ [Msi_read v]"]) (auto simp: msi_inv_def msi_set_def notices_def)
next
  case (ack y out h)
  with msi_ack_out [OF ack(2)] show ?case by (intro exI [of _ t]) (auto simp: msi_inv_def msi_set_def notices_def)
next
  case (send y out b)
  then show ?case by (intro exI [of _ "t @ [Msi_sent out]"]) (auto simp: msi_inv_def msi_set_def notices_def)
next
  case (unblock y)
  then show ?case by (simp add: msi_inv_def)
next
  case (destroy y)
  then show ?case by (intro exI [of _ t]) (simp add: msi_inv_def msi_set_def notices_def msi2gss_destroy_def)
qed

lemma msi_run_inv: "(msi_step False lib)\<^sup>*\<^sup>* y y' \<Longrightarrow> msi_inv irq index y0 y t \<Longrightarrow> \<exists>t'. msi_inv irq index y0 y' t'"
  by (induction rule: rtranclp_induct) (auto dest: msi_step_inv)

section \<open>Coming to rest\<close>

text \<open>The SystemC side alone: steps that see no message.\<close>

definition alone :: "bool \<Rightarrow> 'h fpga_pci \<Rightarrow> 'h msi_sys \<Rightarrow> 'h msi_sys \<Rightarrow> bool" where
  "alone waits lib y y' \<longleftrightarrow> (msi_step waits lib)\<^sup>*\<^sup>* y y' \<and> (\<exists>t. my_trace y' = my_trace y @ t \<and> Msi_message \<notin> set t)"

lemma alone_refl: "alone waits lib y y"
  by (simp add: alone_def)

lemma alone_step: "msi_step waits lib y y' \<Longrightarrow> my_trace y' = my_trace y @ t \<Longrightarrow> Msi_message \<notin> set t \<Longrightarrow> alone waits lib y y'"
  by (auto simp: alone_def)

lemma alone_silent: "msi_step waits lib y y' \<Longrightarrow> my_trace y' = my_trace y \<Longrightarrow> alone waits lib y y'"
  using alone_step [of waits lib y y' "[]"] by simp

lemma alone_trans: "alone waits lib y y' \<Longrightarrow> alone waits lib y' y'' \<Longrightarrow> alone waits lib y y''"
  by (auto simp: alone_def)

lemma transmit_ends:
  assumes "my_pc y = Msi_transmit out"
  shows "\<exists>y'. alone waits lib y y' \<and> my_pc y' = Msi_waiting \<and> msi_event (my_dev y') = msi_event (my_dev y)"
proof -
  let ?y = "y\<lparr>my_pc := Msi_waiting, my_trace := my_trace y @ [Msi_sent out]\<rparr>"
  have "alone waits lib y ?y" using send [OF assms, of False waits lib] by (intro alone_step [where t = "[Msi_sent out]"]) simp_all
  then show ?thesis by fastforce
qed

lemma ack_ends:
  assumes "my_pc y = Msi_ack"
  shows "\<exists>y'. alone waits lib y y' \<and> my_pc y' = Msi_waiting \<and> msi_event (my_dev y') = msi_event (my_dev y)"
proof -
  obtain out h where "msi_ack lib (my_dev y) (my_hw y) = (out, h)" by (cases "msi_ack lib (my_dev y) (my_hw y)")
  from ack [OF assms this] have "alone waits lib y (y\<lparr>my_hw := h, my_pc := Msi_transmit out\<rparr>)" by (rule alone_silent) simp
  with transmit_ends [of "y\<lparr>my_hw := h, my_pc := Msi_transmit out\<rparr>" out waits lib] show ?thesis
    using alone_trans by fastforce
qed

lemma woken_ends:
  assumes "my_pc y = Msi_woken"
  shows "\<exists>y'. alone waits lib y y' \<and> my_pc y' = Msi_waiting \<and> msi_event (my_dev y') = msi_event (my_dev y)"
proof -
  obtain s h where sh: "msi_peek lib (my_dev y) (my_hw y) = (s, h)" by (cases "msi_peek lib (my_dev y) (my_hw y)")
  let ?y = "y\<lparr>my_dev := s, my_hw := h, my_pc := Msi_ack, my_trace := my_trace y @ [Msi_read (msi_status s)]\<rparr>"
  have "alone waits lib y ?y" by (rule alone_step [OF peek [OF assms sh], where t = "[Msi_read (msi_status s)]"]) simp_all
  moreover have "msi_event s = msi_event (my_dev y)" using msi_peek_kept [OF sh] by auto
  ultimately show ?thesis using ack_ends [of ?y waits lib] alone_trans by fastforce
qed

lemma runnable_ends:
  assumes "msi_runnable (my_pc y) \<or> my_pc y = Msi_waiting"
  shows "\<exists>y'. alone waits lib y y' \<and> my_pc y' = Msi_waiting \<and> msi_event (my_dev y') = msi_event (my_dev y)"
  using assms transmit_ends [of y _ waits lib] ack_ends [of y waits lib] woken_ends [of y waits lib] alone_refl
  by (cases "my_pc y") auto

lemma event_ends:
  assumes "my_pc y = Msi_waiting" and "m_event (msi_event (my_dev y))"
  shows "\<exists>y'. alone waits lib y y' \<and> my_pc y' = Msi_waiting \<and> msi_event (my_dev y') = (msi_event (my_dev y))\<lparr>m_event := False\<rparr>"
proof -
  let ?y = "y\<lparr>my_dev := (my_dev y)\<lparr>msi_event := (msi_event (my_dev y))\<lparr>m_event := False\<rparr>\<rparr>, my_pc := Msi_woken\<rparr>"
  have "alone waits lib y ?y" using trigger [of y waits lib] assms by (intro alone_silent) simp_all
  with woken_ends [of ?y waits lib] show ?thesis using alone_trans by fastforce
qed

lemma comes_to_rest:
  assumes "msi_runnable (my_pc y) \<or> my_pc y = Msi_waiting"
  shows "\<exists>y'. alone waits lib y y' \<and> \<not> msi_pending y'"
proof -
  obtain y1 where y1: "alone waits lib y y1" "my_pc y1 = Msi_waiting" using runnable_ends [OF assms] by blast
  obtain y2 where y2: "alone waits lib y1 y2" "my_pc y2 = Msi_waiting" "\<not> m_event (msi_event (my_dev y2))"
    using y1(2) event_ends [of y1 waits lib] alone_refl by (cases "m_event (msi_event (my_dev y1))") fastforce+
  have "\<exists>y3. alone waits lib y2 y3 \<and> \<not> msi_pending y3"
  proof (cases "update_requested (msi_event (my_dev y2))")
    case True
    let ?y = "y2\<lparr>my_dev := (my_dev y2)\<lparr>msi_event := tse_update (msi_event (my_dev y2))\<rparr>\<rparr>"
    have "alone waits lib y2 ?y" using update [of y2 waits lib] True y2(2) by (intro alone_silent) simp_all
    with event_ends [of ?y waits lib] show ?thesis using y2(2) alone_trans by (fastforce simp: msi_pending_def)
  next
    case False
    with y2 have "\<not> msi_pending y2" by (simp add: msi_pending_def)
    with alone_refl show ?thesis by blast
  qed
  with y1 y2 show ?thesis using alone_trans by blast
qed

text \<open>A thread that waits with no notification on its way stays where it is until the next message.\<close>

lemma rest_step: "msi_step waits lib y y' \<Longrightarrow> my_pc y = Msi_waiting \<Longrightarrow> \<not> msi_pending y \<Longrightarrow>
  (my_trace y' = my_trace y \<and> my_pc y' = Msi_waiting \<and> \<not> msi_pending y') \<or> my_trace y' = my_trace y @ [Msi_message]"
  by (induction rule: msi_step.induct) (auto simp: msi_pending_def msi2gss_destroy_def dest: poll_quiet)

lemma step_count: "msi_step waits lib y y' \<Longrightarrow> count_list (my_trace y) Msi_message \<le> count_list (my_trace y') Msi_message"
  by (induction rule: msi_step.induct) auto

lemma rest_run:
  assumes "(msi_step waits lib)\<^sup>*\<^sup>* y y'" and "my_pc y = Msi_waiting" and "\<not> msi_pending y"
  shows "(my_trace y' = my_trace y \<and> my_pc y' = Msi_waiting \<and> \<not> msi_pending y') \<or>
    count_list (my_trace y) Msi_message < count_list (my_trace y') Msi_message"
  using assms(1)
proof (induction rule: rtranclp_induct)
  case (step y' y'')
  from step.IH show ?case
  proof
    assume "my_trace y' = my_trace y \<and> my_pc y' = Msi_waiting \<and> \<not> msi_pending y'"
    with rest_step [OF step.hyps(2)] show ?thesis by auto
  next
    assume "count_list (my_trace y) Msi_message < count_list (my_trace y') Msi_message"
    with step_count [OF step.hyps(2)] show ?thesis by simp
  qed
qed (simp add: assms)

section \<open>Properties\<close>

lemma and_one_bit: "(x :: u32) AND push_bit n 1 \<in> {0, push_bit n 1}"
proof (cases "bit x n")
  case True
  then have "x AND push_bit n 1 = push_bit n 1" by (auto intro!: bit_word_eqI simp: bit_simps)
  then show ?thesis by simp
next
  case False
  then have "x AND push_bit n 1 = 0" by (auto intro!: bit_word_eqI simp: bit_simps)
  then show ?thesis by simp
qed

text \<open>C15. From any point where the interrupt thread waits for its event, and as long as \<open>b_transport\<close> of the
  socket does not wait, no message is lost however the polling thread, the event and the interrupt
  thread interleave: when nothing is pending, every message has been followed by a reading of the
  status and every reading has been sent; what is pending comes to that rest without further messages.
  There are no more readings than messages and notifications on their way before, and what is sent is
  the interrupt's own status bit of the readings, in their order, with the interrupt's line.\<close>

theorem msi_no_message_lost:
  assumes "(msi_step True lib)\<^sup>*\<^sup>* (msi_start (Msi2gss irq bar fd index rc status) h) y0" and "my_pc y0 = Msi_waiting"
    and "(msi_step False lib)\<^sup>*\<^sup>* y0 y"
  shows "\<exists>t sending. my_trace y = my_trace y0 @ t \<and>
    (\<not> msi_pending y \<longrightarrow> all_served t \<and> sending = []) \<and>
    (\<exists>y'. alone False lib y y' \<and> \<not> msi_pending y') \<and>
    length (read_list t) + notices y \<le> count_list t Msi_message + notices y0 \<and>
    map (\<lambda>v. (v AND push_bit (unat index) 1, irq)) (read_list t) = sent_list t @ sending \<and> length sending \<le> 1"
proof -
  have "msi_set irq index (msi_start (Msi2gss irq bar fd index rc status) h)"
    by (simp add: msi_set_def msi_start_def Msi2gss_def)
  with msi_run_set [OF assms(1)] have "msi_set irq index y0" .
  with assms(2) have "msi_inv irq index y0 y0 []" by (simp add: msi_inv_def)
  from msi_run_inv [OF assms(3) this] obtain t where t: "msi_inv irq index y0 y t" ..
  then have "msi_runnable (my_pc y) \<or> my_pc y = Msi_waiting" by (cases "my_pc y") (simp_all add: msi_inv_def)
  moreover have "\<not> msi_pending y \<Longrightarrow> notices y = 0 \<and> in_flight irq index (msi_status (my_dev y)) (my_pc y) = []"
    by (cases "my_pc y") (simp_all add: msi_pending_def notices_def)
  moreover have "length (in_flight irq index (msi_status (my_dev y)) (my_pc y)) \<le> 1" by (cases "my_pc y") simp_all
  moreover have "msi_out irq index = (\<lambda>v. (v AND push_bit (unat index) 1, irq))" by (simp add: msi_out_def fun_eq_iff)
  ultimately show ?thesis using t comes_to_rest [of y False lib]
    by (intro exI [of _ t] exI [of _ "in_flight irq index (msi_status (my_dev y)) (my_pc y)"]) (simp add: msi_inv_def)
qed

text \<open>A device whose status word is 3.\<close>

definition status_fpga :: "unit fpga_pci" where
  "status_fpga = \<lparr>fpga_pci_poke = (\<lambda>bar a w m. (0, m)), fpga_pci_poke8 = (\<lambda>bar a b m. (0, m)),
     fpga_pci_peek = (\<lambda>bar a m. (0, Some 3, m)), fpga_pci_peek8 = (\<lambda>bar a m. (0, Some 3, m))\<rparr>"

text \<open>C33. A message is lost when it comes while the interrupt thread has not reached its first wait, as a message
  that comes before the simulation starts does, or waits inside \<open>b_transport\<close>: in each such state in
  which the polling thread runs and nothing is notified, there is a schedule by which the message is
  seen, the thread gets back to its wait, and from then on nothing is read or sent, whatever happens,
  until another message comes.\<close>

theorem msi_message_lost_before_wait:
  assumes "my_pc y = Msi_starting \<or> my_pc y = Msi_blocked" and "my_polling y"
    and "\<not> update_requested (msi_event (my_dev y))" and "\<not> m_event (msi_event (my_dev y))"
  shows "\<exists>y'. (msi_step waits lib)\<^sup>*\<^sup>* y y' \<and> my_trace y' = my_trace y @ [Msi_message] \<and> my_pc y' = Msi_waiting \<and>
    (\<forall>y''. (msi_step waits lib)\<^sup>*\<^sup>* y' y'' \<longrightarrow> count_list (my_trace y'') Msi_message = count_list (my_trace y') Msi_message \<longrightarrow>
      my_trace y'' = my_trace y')"
proof -
  let ?s = "(my_dev y)\<lparr>msi_event := tse_notify (msi_event (my_dev y))\<rparr>"
  let ?y1 = "y\<lparr>my_dev := ?s, my_polling := \<not> msi_stop (my_dev y), my_trace := my_trace y @ [Msi_message]\<rparr>"
  let ?y2 = "?y1\<lparr>my_dev := ?s\<lparr>msi_event := tse_update (msi_event ?s)\<rparr>\<rparr>"
  let ?y3 = "?y2\<lparr>my_dev := ?s\<lparr>msi_event := (tse_update (msi_event ?s))\<lparr>m_event := False\<rparr>\<rparr>\<rparr>"
  let ?y4 = "?y3\<lparr>my_pc := Msi_waiting\<rparr>"
  have pc: "\<not> msi_runnable (my_pc y)" "my_pc y \<noteq> Msi_waiting" using assms(1) by auto
  have "msi_step waits lib y ?y1"
    using message [of y 1 0 "if msi_stop (my_dev y) then Poll_exit else Poll_again" ?s waits lib] assms(2)
    by (simp add: poll_turn_def split: if_splits)
  moreover have "msi_step waits lib ?y1 ?y2" using update [of ?y1 waits lib] pc by simp
  moreover have "msi_step waits lib ?y2 ?y3" using trigger [of ?y2 waits lib] pc by simp
  moreover have "msi_step waits lib ?y3 ?y4"
    using start [of ?y3 waits lib] unblock [of ?y3 waits lib] assms(1) by auto
  ultimately have "(msi_step waits lib)\<^sup>*\<^sup>* y ?y4" by (meson converse_rtranclp_into_rtranclp r_into_rtranclp)
  moreover have "\<not> msi_pending ?y4" by (simp add: msi_pending_def tse_update_def)
  ultimately show ?thesis using rest_run [of waits lib ?y4] by (intro exI [of _ ?y4]) fastforce
qed

theorem msi_no_message_lost_witness:
  "\<exists>y0 y t. (msi_step True status_fpga)\<^sup>*\<^sup>* (msi_start (Msi2gss 44 1 5 0 0 0) ()) y0 \<and> (msi_step False status_fpga)\<^sup>*\<^sup>* y0 y \<and>
    my_trace y = my_trace y0 @ t \<and> t \<noteq> [] \<and> all_served t \<and> sent_list t = map (\<lambda>v. (v AND push_bit 0 1, 44)) (read_list t)"
proof -
  let ?s0 = "Msi2gss 44 1 5 0 0 0"
  let ?y0 = "msi_start ?s0 ()" and ?y1 = "(msi_start ?s0 ())\<lparr>my_pc := Msi_waiting\<rparr>"
  let ?s1 = "?s0\<lparr>msi_event := tse_notify (msi_event ?s0)\<rparr>"
  let ?y2 = "?y1\<lparr>my_dev := ?s1, my_polling := True, my_trace := [Msi_message]\<rparr>"
  have "msi_step True status_fpga ?y0 ?y1" using start [of ?y0 True status_fpga] by (simp add: msi_start_def Msi2gss_def)
  then have r0: "(msi_step True status_fpga)\<^sup>*\<^sup>* ?y0 ?y1" by (rule r_into_rtranclp)
  have "msi_step False status_fpga ?y1 ?y2"
    using message [of ?y1 1 0 Poll_again ?s1 False status_fpga] by (simp add: msi_start_def Msi2gss_def poll_turn_def)
  moreover obtain y where y: "alone False status_fpga ?y2 y" "\<not> msi_pending y"
    using comes_to_rest [of ?y2 False status_fpga] by auto
  ultimately have r: "(msi_step False status_fpga)\<^sup>*\<^sup>* ?y1 y" by (auto simp: alone_def intro: converse_rtranclp_into_rtranclp)
  from msi_no_message_lost [OF r0 _ r] y(2) obtain t where "my_trace y = my_trace ?y1 @ t" "all_served t"
    "map (\<lambda>v. (v AND push_bit (unat 0) 1, 44)) (read_list t) = sent_list t" by auto
  moreover have "my_trace y \<noteq> []" using y(1) by (auto simp: alone_def)
  ultimately show ?thesis using r0 r by (intro exI [of _ ?y1] exI [of _ y] exI [of _ t]) (auto simp: msi_start_def)
qed

text \<open>The program starts in such a state, and comes to the other kind while a transmission waits.\<close>

theorem msi_message_lost_before_wait_witness:
  "\<exists>y'. (msi_step False status_fpga)\<^sup>*\<^sup>* (msi_start (Msi2gss 44 1 5 0 0 0) ()) y' \<and> my_trace y' = [Msi_message] \<and>
    my_pc y' = Msi_waiting \<and>
    (\<forall>y''. (msi_step False status_fpga)\<^sup>*\<^sup>* y' y'' \<longrightarrow> count_list (my_trace y'') Msi_message = 1 \<longrightarrow> my_trace y'' = [Msi_message])"
  using msi_message_lost_before_wait [of "msi_start (Msi2gss 44 1 5 0 0 0) ()" False status_fpga]
  by (auto simp: msi_start_def Msi2gss_def)

end
