(* ===== verification/Shm_List_Conc.thy ===== *)
theory Shm_List_Conc
  imports Shm_Store
begin

text \<open>
  The free list under interleaving: each process goes through the loads, the array access and the
  compare-and-swap of \<open>CncrLst::nxt\<close> and of both \<open>CncrLst::free\<close> one memory access at a time, and the
  accesses of different processes mix in any order. \<open>cc_holder\<close> records which process an index was
  given to, and \<open>cc_count\<close> how often the head was replaced; neither is read by the code.
\<close>

section \<open>Steps\<close>

text \<open>Where a process is: before anything, after it read the head, after its access to the array.\<close>

datatype lst_pc = Idle | Nxt_loaded head | Nxt_linked head u32 | Free_loaded "u32 list" head | Free_linked "u32 list" head

record lst_conc =
  cc_lst :: cncr_lst
  cc_pc :: "nat \<Rightarrow> lst_pc"
  cc_holder :: "u32 \<Rightarrow> nat option"
  cc_count :: nat

definition at_pc :: "nat \<Rightarrow> lst_pc \<Rightarrow> lst_conc \<Rightarrow> lst_conc" where
  "at_pc p pc y = y\<lparr>cc_pc := (cc_pc y)(p := pc)\<rparr>"

text \<open>\<open>free(st, en)\<close> is called by the process that holds all indices of a chain, while the array still links
  them from the first, \<open>st\<close>, to the last, \<open>en\<close>; the code only uses these two. \<open>free(idx)\<close> is the case of a
  single index. When the chain is linked otherwise, as after an allocation that another process came
  in between, the call is not one of these steps: see the end of this theory.\<close>

definition chain_of :: "lst_conc \<Rightarrow> nat \<Rightarrow> u32 list \<Rightarrow> bool" where
  "chain_of y p C \<longleftrightarrow> C \<noteq> [] \<and> distinct C \<and> (\<forall>i \<in> set C. cc_holder y i = Some p) \<and>
     lv_path (cl_lv (cc_lst y)) (hd C) (butlast C) (last C)"

definition release :: "u32 list \<Rightarrow> (u32 \<Rightarrow> nat option) \<Rightarrow> u32 \<Rightarrow> nat option" where
  "release C h i = (if i \<in> set C then None else h i)"

inductive conc_step :: "nat \<Rightarrow> lst_conc \<Rightarrow> lst_conc \<Rightarrow> bool" for p where
  nxt_load: "cc_pc y p = Idle \<Longrightarrow> conc_step p y (at_pc p (Nxt_loaded (cl_head (cc_lst y))) y)"
| nxt_end: "cc_pc y p = Nxt_loaded cur \<Longrightarrow> hd_idx cur = LIST_END \<Longrightarrow> conc_step p y (at_pc p Idle y)"
| nxt_link: "cc_pc y p = Nxt_loaded cur \<Longrightarrow> hd_idx cur \<noteq> LIST_END \<Longrightarrow> rd (cl_lv (cc_lst y)) (hd_idx cur) = Some n \<Longrightarrow>
    conc_step p y (at_pc p (Nxt_linked cur n) y)"
| nxt_cas: "cc_pc y p = Nxt_linked cur n \<Longrightarrow>
    cas_head (cc_lst y) cur \<lparr>hd_ver = incVersion (hd_ver cur), hd_idx = n\<rparr> = (ok, cur', s') \<Longrightarrow>
    conc_step p y (at_pc p (if ok then Idle else Nxt_loaded cur')
      (y\<lparr>cc_lst := s', cc_holder := (if ok then (cc_holder y)(hd_idx cur := Some p) else cc_holder y),
        cc_count := cc_count y + (if ok then 1 else 0)\<rparr>))"
| free_load: "cc_pc y p = Idle \<Longrightarrow> chain_of y p C \<Longrightarrow>
    conc_step p y (at_pc p (Free_loaded C (cl_head (cc_lst y))) y)"
| free_link: "cc_pc y p = Free_loaded C cur \<Longrightarrow> wr (cl_lv (cc_lst y)) (last C) (hd_idx cur) = Some lv \<Longrightarrow>
    conc_step p y (at_pc p (Free_linked C cur) (y\<lparr>cc_lst := (cc_lst y)\<lparr>cl_lv := lv\<rparr>\<rparr>))"
| free_cas: "cc_pc y p = Free_linked C cur \<Longrightarrow>
    cas_head (cc_lst y) cur \<lparr>hd_ver = hd_ver cur + 1, hd_idx = hd C\<rparr> = (ok, cur', s') \<Longrightarrow>
    conc_step p y (at_pc p (if ok then Idle else Free_loaded C cur')
      (y\<lparr>cc_lst := s', cc_holder := (if ok then release C (cc_holder y) else cc_holder y),
        cc_count := cc_count y + (if ok then 1 else 0)\<rparr>))"

definition any_step :: "lst_conc \<Rightarrow> lst_conc \<Rightarrow> bool" where
  "any_step y y' \<longleftrightarrow> (\<exists>p. conc_step p y y')"

lemma any_stepI: "conc_step p y y' \<Longrightarrow> any_step y y'"
  by (auto simp: any_step_def)

definition conc_start :: "cncr_lst \<Rightarrow> lst_conc" where
  "conc_start s = \<lparr>cc_lst = s, cc_pc = (\<lambda>p. Idle), cc_holder = (\<lambda>i. None), cc_count = 0\<rparr>"

lemma at_pc_simps [simp]: "cc_lst (at_pc p pc y) = cc_lst y" "cc_holder (at_pc p pc y) = cc_holder y"
  "cc_count (at_pc p pc y) = cc_count y" "cc_pc (at_pc p pc y) = (cc_pc y)(p := pc)"
  by (simp_all add: at_pc_def)

section \<open>Invariant\<close>

text \<open>The versions of the head do not repeat while fewer than \<open>2 ^ 32 - 1\<close> replacements were made.\<close>

definition conc_bound :: "lst_conc \<Rightarrow> bool" where
  "conc_bound y \<longleftrightarrow> cc_count y < 2 ^ 32 - 1"

text \<open>A head read earlier is the present one, or has an older version.\<close>

definition seen :: "lst_conc \<Rightarrow> head \<Rightarrow> bool" where
  "seen y cur \<longleftrightarrow> cur = cl_head (cc_lst y) \<or> (\<exists>c < cc_count y. hd_ver cur = of_nat c)"

definition pc_ok :: "lst_conc \<Rightarrow> nat \<Rightarrow> lst_pc \<Rightarrow> bool" where
  "pc_ok y p pc = (case pc of Idle \<Rightarrow> True
     | Nxt_loaded cur \<Rightarrow> seen y cur \<and> (hd_idx cur = LIST_END \<or> unat (hd_idx cur) < length (cl_lv (cc_lst y)))
     | Nxt_linked cur n \<Rightarrow> seen y cur \<and> hd_idx cur \<noteq> LIST_END \<and>
         (cur = cl_head (cc_lst y) \<longrightarrow> n = cl_lv (cc_lst y) ! unat (hd_idx cur))
     | Free_loaded C cur \<Rightarrow> seen y cur \<and> chain_of y p C
     | Free_linked C cur \<Rightarrow> seen y cur \<and> chain_of y p C \<and> cl_lv (cc_lst y) ! unat (last C) = hd_idx cur)"

definition conc_inv :: "lst_conc \<Rightarrow> u32 list \<Rightarrow> bool" where
  "conc_inv y F \<longleftrightarrow> free_rep (cc_lst y) F \<and> hd_ver (cl_head (cc_lst y)) = of_nat (cc_count y) \<and>
     (\<forall>i. (i \<in> set F \<longleftrightarrow> unat i < length (cl_lv (cc_lst y)) \<and> cc_holder y i = None) \<and>
       (cc_holder y i \<noteq> None \<longrightarrow> unat i < length (cl_lv (cc_lst y)))) \<and>
     (\<forall>p. pc_ok y p (cc_pc y p))"

lemma free_rep_head: "free_rep s F \<Longrightarrow> hd_idx (cl_head s) = LIST_END \<or> hd_idx (cl_head s) \<in> set F"
  by (cases F) (auto simp: free_rep_Nil free_rep_Cons)

text \<open>A replaced head is seen with a version of its own.\<close>

lemma of_nat_u32_eq: "a < 2 ^ 32 \<Longrightarrow> b < 2 ^ 32 \<Longrightarrow> (of_nat a :: u32) = of_nat b \<longleftrightarrow> a = b"
  by (metis unat_of_nat_u32)

lemma seen_next:
  assumes "seen y cur" and "hd_ver (cl_head (cc_lst y)) = of_nat (cc_count y)" and "cc_count y' = Suc (cc_count y)"
  shows "\<exists>c < cc_count y'. hd_ver cur = of_nat c"
  using assms unfolding seen_def by (metis less_Suc_eq)

lemma old_not_head: "\<exists>c < cc_count y. hd_ver cur = of_nat c \<Longrightarrow> hd_ver (cl_head (cc_lst y)) = of_nat (cc_count y) \<Longrightarrow>
  conc_bound y \<Longrightarrow> cur \<noteq> cl_head (cc_lst y)"
  by (auto simp: conc_bound_def of_nat_u32_eq)

lemma incVersion_count: "c < 2 ^ 32 - 1 \<Longrightarrow> incVersion (of_nat c) = of_nat (Suc c)"
  using of_nat_u32_eq [of c "2 ^ 32 - 1"] by (auto simp: incVersion_def NXT_VER_SPECIAL_def)

section \<open>Every step keeps the invariant\<close>

lemma pc_ok_at_pc [simp]: "pc_ok (at_pc p pc y) = pc_ok y"
  by (intro ext) (simp add: pc_ok_def seen_def chain_of_def split: lst_pc.split)

lemma inv_at_pc: "conc_inv y F \<Longrightarrow> pc_ok y p pc \<Longrightarrow> conc_inv (at_pc p pc y) F"
  by (simp add: conc_inv_def)

lemma inv_pc: "conc_inv y F \<Longrightarrow> pc_ok y p (cc_pc y p)"
  by (simp add: conc_inv_def)

lemma head_in_range: "conc_inv y F \<Longrightarrow>
  hd_idx (cl_head (cc_lst y)) = LIST_END \<or> unat (hd_idx (cl_head (cc_lst y))) < length (cl_lv (cc_lst y))"
  using free_rep_head [of "cc_lst y" F] by (auto simp: conc_inv_def)

text \<open>A successful compare-and-swap: heads read earlier become old ones.\<close>

lemma pc_ok_replaced:
  assumes "pc_ok y q pc" and "hd_ver (cl_head (cc_lst y)) = of_nat (cc_count y)"
    and "cl_lv (cc_lst y') = cl_lv (cc_lst y)" and "hd_ver (cl_head (cc_lst y')) = of_nat (cc_count y')"
    and "cc_count y' = Suc (cc_count y)" and "conc_bound y'"
    and "\<And>i. cc_holder y i = Some q \<Longrightarrow> cc_holder y' i = Some q"
  shows "pc_ok y' q pc"
proof -
  have old: "\<exists>c < cc_count y'. hd_ver cur = of_nat c" if "seen y cur" for cur
    using seen_next [OF that assms(2,5)] .
  then have "seen y' cur" "cur \<noteq> cl_head (cc_lst y')" if "seen y cur" for cur
    using that old_not_head [OF _ assms(4,6)] by (auto simp: seen_def)
  with assms(1,3,7) show ?thesis by (auto simp: pc_ok_def chain_of_def split: lst_pc.splits)
qed

lemma cas_head_cases: "cas_head s cur new = (ok, cur', s') \<Longrightarrow>
  (ok \<and> cl_head s = cur \<and> s' = s\<lparr>cl_head := new\<rparr>) \<or> (\<not> ok \<and> cur' = cl_head s \<and> s' = s)"
  by (auto simp: cas_head_def split: if_splits)

lemma nxt_cas_inv:
  assumes inv: "conc_inv y F" and pc: "cc_pc y p = Nxt_linked cur n" and head: "cl_head (cc_lst y) = cur"
    and y': "y' = at_pc p Idle (y\<lparr>cc_lst := (cc_lst y)\<lparr>cl_head := \<lparr>hd_ver = incVersion (hd_ver cur), hd_idx = n\<rparr>\<rparr>,
      cc_holder := (cc_holder y)(hd_idx cur := Some p), cc_count := cc_count y + 1\<rparr>)" and bound: "conc_bound y'"
  shows "\<exists>F'. F = hd_idx cur # F' \<and> conc_inv y' F'"
proof -
  from inv_pc [OF inv, of p] pc head have n: "hd_idx cur \<noteq> LIST_END" "n = cl_lv (cc_lst y) ! unat (hd_idx cur)"
    by (auto simp: pc_ok_def)
  have rep: "free_rep (cc_lst y) F" and ver: "hd_ver cur = of_nat (cc_count y)"
    and hold: "\<And>i. (i \<in> set F \<longleftrightarrow> unat i < length (cl_lv (cc_lst y)) \<and> cc_holder y i = None)"
      "\<And>i. cc_holder y i \<noteq> None \<Longrightarrow> unat i < length (cl_lv (cc_lst y))"
    using inv head by (auto simp: conc_inv_def)
  obtain F' where F: "F = hd_idx cur # F'" using rep n(1) head by (cases F) (auto simp: free_rep_Nil free_rep_Cons)
  have dist: "hd_idx cur \<notin> set F'" and c: "unat (hd_idx cur) < length (cl_lv (cc_lst y))"
    using rep F by (auto simp: free_rep_Cons)
  have "free_rep (cc_lst y') F'" using rep F head n(2) by (auto simp: y' free_rep_def)
  moreover have "hd_ver (cl_head (cc_lst y')) = of_nat (cc_count y')"
    using bound ver incVersion_count [of "cc_count y"] by (simp add: y' conc_bound_def)
  moreover have "pc_ok y' q (cc_pc y' q)" for q
  proof (cases "q = p")
    case False
    have "cc_holder y (hd_idx cur) = None" using hold(1) F by auto
    then have "cc_holder y' i = Some q" if "cc_holder y i = Some q" for i using that by (auto simp: y')
    with pc_ok_replaced [OF inv_pc [OF inv, of q] _ _ calculation(2) _ bound] inv False show ?thesis
      by (simp add: y' conc_inv_def)
  qed (simp add: y' pc_ok_def)
  moreover have "(i \<in> set F' \<longleftrightarrow> unat i < length (cl_lv (cc_lst y')) \<and> cc_holder y' i = None) \<and>
      (cc_holder y' i \<noteq> None \<longrightarrow> unat i < length (cl_lv (cc_lst y')))" for i
    using hold(1) [of i] hold(2) [of i] F dist c by (auto simp: y')
  ultimately show ?thesis using F by (auto simp: conc_inv_def)
qed

lemma chain_last: "conc_inv y F \<Longrightarrow> chain_of y p C \<Longrightarrow> last C \<in> set C \<and> unat (last C) < length (cl_lv (cc_lst y))"
  by (auto simp: conc_inv_def chain_of_def)

lemma chain_path:
  assumes "C \<noteq> []" and "lv_path lv (hd C) (butlast C) (last C)" and "unat (last C) < length lv"
  shows "lv_path lv (hd C) C (lv ! unat (last C))"
proof -
  have "lv_path lv (hd C) (butlast C @ [last C]) (lv ! unat (last C))" using assms(2,3) by (simp add: lv_path_append)
  then show ?thesis using assms(1) by simp
qed

lemma free_cas_inv:
  assumes inv: "conc_inv y F" and pc: "cc_pc y p = Free_linked C cur" and head: "cl_head (cc_lst y) = cur"
    and y': "y' = at_pc p Idle (y\<lparr>cc_lst := (cc_lst y)\<lparr>cl_head := \<lparr>hd_ver = hd_ver cur + 1, hd_idx = hd C\<rparr>\<rparr>,
      cc_holder := release C (cc_holder y), cc_count := cc_count y + 1\<rparr>)" and bound: "conc_bound y'"
  shows "conc_inv y' (C @ F)"
proof -
  from inv_pc [OF inv, of p] pc have C: "chain_of y p C" "cl_lv (cc_lst y) ! unat (last C) = hd_idx cur"
    by (auto simp: pc_ok_def)
  then have hC: "cc_holder y i = Some p" if "i \<in> set C" for i using that by (simp add: chain_of_def)
  have rep: "free_rep (cc_lst y) F" and ver: "hd_ver cur = of_nat (cc_count y)"
    and hold: "\<And>j. (j \<in> set F \<longleftrightarrow> unat j < length (cl_lv (cc_lst y)) \<and> cc_holder y j = None)"
      "\<And>j. cc_holder y j \<noteq> None \<Longrightarrow> unat j < length (cl_lv (cc_lst y))"
    using inv head by (auto simp: conc_inv_def)
  have CF: "set C \<inter> set F = {}" using hold(1) hC by fastforce
  have "lv_path (cl_lv (cc_lst y)) (hd C) C (hd_idx cur)"
    using chain_path [of C "cl_lv (cc_lst y)"] C chain_last [OF inv C(1)] by (simp add: chain_of_def)
  then have "free_rep (cc_lst y') (C @ F)" using rep head C(1) CF by (auto simp: y' free_rep_def chain_of_def lv_path_append)
  moreover have "hd_ver (cl_head (cc_lst y')) = of_nat (cc_count y')" using ver by (simp add: y')
  moreover have "pc_ok y' q (cc_pc y' q)" for q
  proof (cases "q = p")
    case False
    then have "cc_holder y' j = Some q" if "cc_holder y j = Some q" for j using that hC [of j] by (auto simp: y' release_def)
    with pc_ok_replaced [OF inv_pc [OF inv, of q] _ _ calculation(2) _ bound] inv False show ?thesis
      by (simp add: y' conc_inv_def)
  qed (simp add: y' pc_ok_def)
  moreover have "(j \<in> set (C @ F) \<longleftrightarrow> unat j < length (cl_lv (cc_lst y')) \<and> cc_holder y' j = None) \<and>
      (cc_holder y' j \<noteq> None \<longrightarrow> unat j < length (cl_lv (cc_lst y')))" for j
    using hold(1) [of j] hold(2) [of j] hC [of j] by (auto simp: y' release_def)
  ultimately show ?thesis by (simp add: conc_inv_def)
qed

lemma chain_upd:
  assumes "chain_of y q C" and "u \<notin> set (butlast C)" and "cc_holder y' = cc_holder y"
    and "cl_lv (cc_lst y') = (cl_lv (cc_lst y))[unat u := v]"
  shows "chain_of y' q C"
  using assms by (simp add: chain_of_def lv_path_upd)

lemma free_link_inv:
  assumes inv: "conc_inv y F" and pc: "cc_pc y p = Free_loaded C cur" and w: "wr (cl_lv (cc_lst y)) (last C) (hd_idx cur) = Some lv"
  shows "conc_inv (at_pc p (Free_linked C cur) (y\<lparr>cc_lst := (cc_lst y)\<lparr>cl_lv := lv\<rparr>\<rparr>)) F"
proof -
  let ?y = "y\<lparr>cc_lst := (cc_lst y)\<lparr>cl_lv := lv\<rparr>\<rparr>" and ?u = "last C"
  from inv_pc [OF inv, of p] pc have C: "chain_of y p C" "seen y cur" by (auto simp: pc_ok_def)
  from w have lv: "lv = (cl_lv (cc_lst y))[unat ?u := hd_idx cur]" "unat ?u < length (cl_lv (cc_lst y))" by (auto dest: wr_SomeD)
  have u: "cc_holder y ?u = Some p" using C(1) by (simp add: chain_of_def)
  then have uF: "?u \<notin> set F" using inv by (auto simp: conc_inv_def)
  have head: "hd_idx (cl_head (cc_lst y)) \<noteq> LIST_END \<Longrightarrow> hd_idx (cl_head (cc_lst y)) \<noteq> ?u"
    using free_rep_head [of "cc_lst y" F] inv uF by (auto simp: conc_inv_def)
  have "free_rep (cc_lst ?y) F" using inv uF lv by (auto simp: conc_inv_def free_rep_def lv_path_upd)
  moreover have "pc_ok ?y q (cc_pc y q)" if "q \<noteq> p" for q
  proof -
    have other: "chain_of ?y q D \<and> lv ! unat (last D) = cl_lv (cc_lst y) ! unat (last D)" if "chain_of y q D" for D
    proof -
      have D: "D \<noteq> []" "\<forall>i \<in> set D. cc_holder y i = Some q" using that by (simp_all add: chain_of_def)
      then have "?u \<notin> set D" using u \<open>q \<noteq> p\<close> by auto
      moreover from this have "last D \<noteq> ?u" using last_in_set [OF D(1)] by metis
      moreover have "?u \<notin> set (butlast D)" using calculation(1) by (auto dest: in_set_butlastD)
      ultimately show ?thesis using chain_upd [OF that, of ?u ?y "hd_idx cur"] lv(1) by (simp add: upd_other)
    qed
    show ?thesis
      using inv_pc [OF inv, of q] lv head other by (auto simp: pc_ok_def seen_def upd_other split: lst_pc.splits)
  qed
  moreover have "pc_ok ?y p (Free_linked C cur)"
  proof -
    have "?u \<notin> set (butlast C)"
      using C(1) append_butlast_last_id [of C] distinct_append [of "butlast C" "[?u]"] by (simp add: chain_of_def)
    from chain_upd [OF C(1) this, of ?y "hd_idx cur"] have "chain_of ?y p C" using lv(1) by simp
    then show ?thesis using C(2) lv by (simp add: pc_ok_def seen_def)
  qed
  ultimately show ?thesis using inv lv by (simp add: conc_inv_def)
qed

text \<open>Whatever the step, the index a process holds stays with it until it gives it back itself.\<close>

lemma conc_step_inv:
  assumes inv: "conc_inv y F" and bound: "conc_bound y'"
  shows "conc_step p y y' \<Longrightarrow> (\<exists>F'. conc_inv y' F') \<and> cc_count y \<le> cc_count y' \<and>
    length (cl_lv (cc_lst y')) = length (cl_lv (cc_lst y)) \<and>
    (\<forall>i q. cc_holder y i = Some q \<longrightarrow> cc_holder y' i = Some q \<or> (q = p \<and> cc_holder y' i = None))"
proof (induction rule: conc_step.cases)
  case (nxt_load z)
  then have "pc_ok y p (Nxt_loaded (cl_head (cc_lst y)))" using head_in_range [OF inv] by (simp add: pc_ok_def seen_def)
  with nxt_load inv_at_pc [OF inv this] show ?case by auto
next
  case (nxt_end z cur)
  with inv_at_pc [OF inv, of p Idle] show ?case by (auto simp: pc_ok_def)
next
  case (nxt_link z cur n)
  then have "pc_ok y p (Nxt_linked cur n)" using inv_pc [OF inv, of p] by (auto simp: pc_ok_def dest: rd_SomeD)
  with nxt_link inv_at_pc [OF inv this] show ?case by auto
next
  case (nxt_cas z cur n ok cur' s')
  from cas_head_cases [OF nxt_cas(4)] show ?case
  proof
    assume ok: "ok \<and> cl_head (cc_lst z) = cur \<and> s' = (cc_lst z)\<lparr>cl_head := \<lparr>hd_ver = incVersion (hd_ver cur), hd_idx = n\<rparr>\<rparr>"
    with nxt_cas have y': "y' = at_pc p Idle (y\<lparr>cc_lst := (cc_lst y)\<lparr>cl_head := \<lparr>hd_ver = incVersion (hd_ver cur), hd_idx = n\<rparr>\<rparr>,
        cc_holder := (cc_holder y)(hd_idx cur := Some p), cc_count := cc_count y + 1\<rparr>)" by simp
    have pc: "cc_pc y p = Nxt_linked cur n" "cl_head (cc_lst y) = cur" using nxt_cas ok by auto
    from nxt_cas_inv [OF inv pc y' bound] obtain F' where F': "F = hd_idx cur # F'" "conc_inv y' F'" by (elim exE conjE)
    have "cc_holder y (hd_idx cur) = None" using inv F'(1) by (auto simp: conc_inv_def)
    with F'(2) show ?thesis by (auto simp: y')
  next
    assume "\<not> ok \<and> cur' = cl_head (cc_lst z) \<and> s' = cc_lst z"
    with nxt_cas have "y' = at_pc p (Nxt_loaded (cl_head (cc_lst y))) y" by simp
    moreover have "pc_ok y p (Nxt_loaded (cl_head (cc_lst y)))" using head_in_range [OF inv] by (simp add: pc_ok_def seen_def)
    ultimately show ?thesis using inv_at_pc [OF inv, of p] by auto
  qed
next
  case (free_load z C)
  then have "pc_ok y p (Free_loaded C (cl_head (cc_lst y)))" by (simp add: pc_ok_def seen_def)
  with free_load inv_at_pc [OF inv this] show ?case by auto
next
  case (free_link z C cur lv)
  then have y: "cc_pc y p = Free_loaded C cur" "wr (cl_lv (cc_lst y)) (last C) (hd_idx cur) = Some lv" by simp_all
  with free_link free_link_inv [OF inv y] show ?case by (auto dest: wr_SomeD)
next
  case (free_cas z C cur ok cur' s')
  from cas_head_cases [OF free_cas(4)] show ?case
  proof
    assume ok: "ok \<and> cl_head (cc_lst z) = cur \<and> s' = (cc_lst z)\<lparr>cl_head := \<lparr>hd_ver = hd_ver cur + 1, hd_idx = hd C\<rparr>\<rparr>"
    with free_cas have y': "y' = at_pc p Idle (y\<lparr>cc_lst := (cc_lst y)\<lparr>cl_head := \<lparr>hd_ver = hd_ver cur + 1, hd_idx = hd C\<rparr>\<rparr>,
        cc_holder := release C (cc_holder y), cc_count := cc_count y + 1\<rparr>)" by simp
    have pc: "cc_pc y p = Free_linked C cur" "cl_head (cc_lst y) = cur" using free_cas ok by auto
    have "\<forall>i \<in> set C. cc_holder y i = Some p" using inv_pc [OF inv, of p] pc(1) by (simp add: pc_ok_def chain_of_def)
    with free_cas_inv [OF inv pc y' bound] show ?thesis by (auto simp: y' release_def)
  next
    assume f: "\<not> ok \<and> cur' = cl_head (cc_lst z) \<and> s' = cc_lst z"
    with free_cas have "y' = at_pc p (Free_loaded C (cl_head (cc_lst y))) y" by simp
    moreover have "pc_ok y p (Free_loaded C (cl_head (cc_lst y)))"
      using inv_pc [OF inv, of p] free_cas by (simp add: pc_ok_def seen_def)
    ultimately show ?thesis using inv_at_pc [OF inv, of p] by auto
  qed
qed

lemma conc_step_count: "conc_step p y y' \<Longrightarrow> cc_count y \<le> cc_count y'"
  by (induction rule: conc_step.induct) simp_all

lemma conc_run_inv: "any_step\<^sup>*\<^sup>* y y' \<Longrightarrow> conc_inv y F \<Longrightarrow> conc_bound y' \<Longrightarrow>
  (\<exists>F'. conc_inv y' F') \<and> length (cl_lv (cc_lst y')) = length (cl_lv (cc_lst y))"
proof (induction rule: rtranclp_induct)
  case (step y1 y2)
  from step(2) obtain p where p: "conc_step p y1 y2" by (auto simp: any_step_def)
  then have "conc_bound y1" using step.prems(2) conc_step_count [OF p] by (simp add: conc_bound_def)
  with step obtain F1 where "conc_inv y1 F1" "length (cl_lv (cc_lst y1)) = length (cl_lv (cc_lst y))" by auto
  with conc_step_inv [OF this(1) step.prems(2) p] show ?case by simp
qed auto

lemma conc_start_inv: "free_rep s F \<Longrightarrow> hd_ver (cl_head s) = 0 \<Longrightarrow> \<forall>i. unat i < length (cl_lv s) \<longrightarrow> i \<in> set F \<Longrightarrow>
  conc_inv (conc_start s) F"
  using free_rep_bound [of s F] by (auto simp: conc_inv_def conc_start_def pc_ok_def)

section \<open>A process alone\<close>

text \<open>One step of a process that is inside an operation, when no other process is in between.\<close>

definition solo :: "lst_conc \<Rightarrow> nat \<Rightarrow> nat \<Rightarrow> bool" where
  "solo y p k \<longleftrightarrow> (\<exists>j \<le> k. \<exists>y'. (conc_step p ^^ j) y y' \<and> cc_pc y' p = Idle)"

lemma solo_mono: "solo y p j \<Longrightarrow> j \<le> k \<Longrightarrow> solo y p k"
  unfolding solo_def by (meson le_trans)

lemma solo_0: "cc_pc y p = Idle \<Longrightarrow> solo y p 0"
  unfolding solo_def by (rule exI [of _ 0]) simp

lemma solo_step: "conc_step p y y' \<Longrightarrow> solo y' p k \<Longrightarrow> solo y p (Suc k)"
  unfolding solo_def by (meson Suc_le_mono relpowp_Suc_I2)

lemma solo_linked:
  assumes "cc_pc y p = Nxt_linked (cl_head (cc_lst y)) n \<or> cc_pc y p = Free_linked C (cl_head (cc_lst y))"
  shows "solo y p 1"
  using assms
proof
  assume pc: "cc_pc y p = Nxt_linked (cl_head (cc_lst y)) n"
  show ?thesis
    unfolding One_nat_def by (rule solo_step [OF nxt_cas [OF pc]], simp add: cas_head_def, rule solo_0) simp
next
  assume pc: "cc_pc y p = Free_linked C (cl_head (cc_lst y))"
  show ?thesis
    unfolding One_nat_def by (rule solo_step [OF free_cas [OF pc]], simp add: cas_head_def, rule solo_0) simp
qed

lemma solo_loaded:
  assumes inv: "conc_inv y F" and pc: "cc_pc y p = Nxt_loaded (cl_head (cc_lst y)) \<or> cc_pc y p = Free_loaded C (cl_head (cc_lst y))"
  shows "solo y p 2"
  using pc
proof
  assume pc: "cc_pc y p = Nxt_loaded (cl_head (cc_lst y))"
  show ?thesis
  proof (cases "hd_idx (cl_head (cc_lst y)) = LIST_END")
    case True
    have "solo (at_pc p Idle y) p 1" using solo_0 [of "at_pc p Idle y" p] by (auto simp: solo_def)
    from solo_step [OF nxt_end [OF pc True] this] show ?thesis by (simp add: numeral_2_eq_2)
  next
    case False
    then have r: "rd (cl_lv (cc_lst y)) (hd_idx (cl_head (cc_lst y))) = Some (cl_lv (cc_lst y) ! unat (hd_idx (cl_head (cc_lst y))))"
      using head_in_range [OF inv] by (simp add: rd_in)
    have "solo (at_pc p (Nxt_linked (cl_head (cc_lst y)) (cl_lv (cc_lst y) ! unat (hd_idx (cl_head (cc_lst y))))) y) p 1"
      by (rule solo_linked) simp
    from solo_step [OF nxt_link [OF pc False r] this] show ?thesis by (simp add: numeral_2_eq_2)
  qed
next
  assume pc: "cc_pc y p = Free_loaded C (cl_head (cc_lst y))"
  then have "unat (last C) < length (cl_lv (cc_lst y))" using inv_pc [OF inv, of p] chain_last [OF inv, of p C] by (simp add: pc_ok_def)
  then have w: "wr (cl_lv (cc_lst y)) (last C) (hd_idx (cl_head (cc_lst y))) = Some ((cl_lv (cc_lst y))[unat (last C) := hd_idx (cl_head (cc_lst y))])"
    by (simp add: wr_in)
  show ?thesis
    unfolding numeral_2_eq_2 by (rule solo_step [OF free_link [OF pc w]], fold One_nat_def, rule solo_linked) simp
qed

lemma solo_failed:
  assumes inv: "conc_inv y F" and pc: "cc_pc y p = Nxt_linked cur n \<or> cc_pc y p = Free_linked C cur"
  shows "solo y p 3"
proof (cases "cl_head (cc_lst y) = cur")
  case True
  then have "solo y p 1" using solo_linked [of y p n C] pc by auto
  then show ?thesis by (rule solo_mono) simp
next
  case False
  show ?thesis
    using pc
  proof
    assume pc: "cc_pc y p = Nxt_linked cur n"
    have s: "conc_step p y (at_pc p (Nxt_loaded (cl_head (cc_lst y))) y)"
      using nxt_cas [OF pc, of False "cl_head (cc_lst y)" "cc_lst y"] False by (simp add: cas_head_def)
    have "pc_ok y p (Nxt_loaded (cl_head (cc_lst y)))" using head_in_range [OF inv] by (simp add: pc_ok_def seen_def)
    from solo_loaded [OF inv_at_pc [OF inv this], of p C] have "solo (at_pc p (Nxt_loaded (cl_head (cc_lst y))) y) p 2" by simp
    from solo_step [OF s this] show ?thesis by (simp add: numeral_3_eq_3 numeral_2_eq_2)
  next
    assume pc: "cc_pc y p = Free_linked C cur"
    have s: "conc_step p y (at_pc p (Free_loaded C (cl_head (cc_lst y))) y)"
      using free_cas [OF pc, of False "cl_head (cc_lst y)" "cc_lst y"] False by (simp add: cas_head_def)
    have "pc_ok y p (Free_loaded C (cl_head (cc_lst y)))" using inv_pc [OF inv, of p] pc by (simp add: pc_ok_def seen_def)
    from solo_loaded [OF inv_at_pc [OF inv this], of p C] have "solo (at_pc p (Free_loaded C (cl_head (cc_lst y))) y) p 2" by simp
    from solo_step [OF s this] show ?thesis by (simp add: numeral_3_eq_3 numeral_2_eq_2)
  qed
qed

lemma solo_any:
  assumes inv: "conc_inv y F"
  shows "solo y p 4"
proof (cases "cc_pc y p")
  case Idle
  then show ?thesis using solo_0 [of y p] by (auto simp: solo_def)
next
  case (Nxt_loaded cur)
  show ?thesis
  proof (cases "hd_idx cur = LIST_END")
    case True
    have "solo (at_pc p Idle y) p 3" using solo_0 [of "at_pc p Idle y" p] by (auto simp: solo_def)
    from solo_step [OF nxt_end [OF Nxt_loaded True] this] show ?thesis by (simp add: numeral_3_eq_3 eval_nat_numeral)
  next
    case False
    then have r: "rd (cl_lv (cc_lst y)) (hd_idx cur) = Some (cl_lv (cc_lst y) ! unat (hd_idx cur))"
      using inv_pc [OF inv, of p] Nxt_loaded by (simp add: pc_ok_def rd_in)
    have "pc_ok y p (Nxt_linked cur (cl_lv (cc_lst y) ! unat (hd_idx cur)))"
      using inv_pc [OF inv, of p] Nxt_loaded False by (simp add: pc_ok_def)
    from solo_failed [OF inv_at_pc [OF inv this], of p] have
      "solo (at_pc p (Nxt_linked cur (cl_lv (cc_lst y) ! unat (hd_idx cur))) y) p 3" by auto
    from solo_step [OF nxt_link [OF Nxt_loaded False r] this] show ?thesis by (simp add: eval_nat_numeral)
  qed
next
  case (Nxt_linked cur n)
  then have "solo y p 3" using solo_failed [OF inv] by blast
  then show ?thesis by (rule solo_mono) simp
next
  case (Free_loaded C cur)
  then have "unat (last C) < length (cl_lv (cc_lst y))" using inv_pc [OF inv, of p] chain_last [OF inv, of p C] by (simp add: pc_ok_def)
  then have w: "wr (cl_lv (cc_lst y)) (last C) (hd_idx cur) = Some ((cl_lv (cc_lst y))[unat (last C) := hd_idx cur])" by (simp add: wr_in)
  from solo_failed [OF free_link_inv [OF inv Free_loaded w], of p] have
    "solo (at_pc p (Free_linked C cur) (y\<lparr>cc_lst := (cc_lst y)\<lparr>cl_lv := (cl_lv (cc_lst y))[unat (last C) := hd_idx cur]\<rparr>\<rparr>)) p 3" by auto
  from solo_step [OF free_link [OF Free_loaded w] this] show ?thesis by (simp add: eval_nat_numeral)
next
  case (Free_linked C cur)
  then have "solo y p 3" using solo_failed [OF inv] by blast
  then show ?thesis by (rule solo_mono) simp
qed

text \<open>Its steps, taken together, are the operation.\<close>

lemma solo_nxt:
  assumes inv: "conc_inv y F" and pc: "cc_pc y p = Idle"
  shows "\<exists>y' r. (conc_step p)\<^sup>*\<^sup>* y y' \<and> cc_pc y' p = Idle \<and> lst_nxt (cc_lst y) = Some (r, cc_lst y') \<and>
    cc_holder y' = (if r = LIST_END then cc_holder y else (cc_holder y)(r := Some p))"
proof -
  let ?h = "cl_head (cc_lst y)" and ?y1 = "at_pc p (Nxt_loaded (cl_head (cc_lst y))) y"
  have s1: "conc_step p y ?y1" by (rule nxt_load [OF pc])
  have rep: "free_rep (cc_lst y) F" using inv by (simp add: conc_inv_def)
  show ?thesis
  proof (cases F)
    case Nil
    then have e: "hd_idx ?h = LIST_END" "lst_nxt (cc_lst y) = Some (LIST_END, cc_lst y)"
      using rep nxt_empty by (auto simp: free_rep_Nil)
    have "conc_step p ?y1 (at_pc p Idle ?y1)" by (rule nxt_end [of _ _ ?h]) (simp_all add: e)
    with s1 e(2) show ?thesis by (intro exI [of _ "at_pc p Idle ?y1"] exI [of _ LIST_END]) auto
  next
    case (Cons c F')
    have c: "hd_idx ?h = c" "unat c < length (cl_lv (cc_lst y))" "c \<noteq> LIST_END"
      using rep Cons by (auto simp: free_rep_Cons dest: not_LIST_END)
    let ?y2 = "at_pc p (Nxt_linked ?h (cl_lv (cc_lst y) ! unat c)) ?y1"
    let ?y3 = "at_pc p Idle (?y2\<lparr>cc_lst := popped (cc_lst y) c, cc_holder := (cc_holder ?y2)(hd_idx ?h := Some p),
      cc_count := cc_count ?y2 + 1\<rparr>)"
    have "conc_step p ?y1 ?y2" by (rule nxt_link) (use c in \<open>simp_all add: rd_in\<close>)
    moreover have "conc_step p ?y2 ?y3"
      using nxt_cas [of ?y2 p ?h "cl_lv (cc_lst y) ! unat c" True ?h "popped (cc_lst y) c"] c
      by (simp add: cas_head_def popped_def)
    ultimately have "(conc_step p)\<^sup>*\<^sup>* y ?y3" using s1 by (meson converse_rtranclp_into_rtranclp rtranclp.rtrancl_refl)
    moreover have "lst_nxt (cc_lst y) = Some (c, cc_lst ?y3)" using nxt_Cons rep Cons by simp
    ultimately show ?thesis using c by (intro exI [of _ ?y3] exI [of _ c]) simp
  qed
qed

lemma solo_free:
  assumes inv: "conc_inv y F" and pc: "cc_pc y p = Idle" and C: "chain_of y p C"
  shows "\<exists>y' r. (conc_step p)\<^sup>*\<^sup>* y y' \<and> cc_pc y' p = Idle \<and> lst_free (cc_lst y) (hd C) (last C) = Some (r, cc_lst y') \<and>
    cc_holder y' = release C (cc_holder y)"
proof -
  let ?h = "cl_head (cc_lst y)" and ?y1 = "at_pc p (Free_loaded C (cl_head (cc_lst y))) y"
  let ?lv = "(cl_lv (cc_lst y))[unat (last C) := hd_idx ?h]"
  let ?y2 = "at_pc p (Free_linked C ?h) (?y1\<lparr>cc_lst := (cc_lst ?y1)\<lparr>cl_lv := ?lv\<rparr>\<rparr>)"
  let ?y3 = "at_pc p Idle (?y2\<lparr>cc_lst := pushed (cc_lst y) (hd C) (last C), cc_holder := release C (cc_holder ?y2),
      cc_count := cc_count ?y2 + 1\<rparr>)"
  have u: "unat (last C) < length (cl_lv (cc_lst y))" using chain_last [OF inv C] by simp
  have "conc_step p y ?y1" by (rule free_load [OF pc C])
  moreover have "conc_step p ?y1 ?y2" by (rule free_link) (use u in \<open>simp_all add: wr_in\<close>)
  moreover have "conc_step p ?y2 ?y3"
    using free_cas [of ?y2 p C ?h True ?h "pushed (cc_lst y) (hd C) (last C)"] by (simp add: cas_head_def pushed_def)
  ultimately have "(conc_step p)\<^sup>*\<^sup>* y ?y3" by (meson converse_rtranclp_into_rtranclp rtranclp.rtrancl_refl)
  then show ?thesis using lst_free_eq [OF u] by (intro exI [of _ ?y3] exI [of _ "hd_idx ?h"]) simp
qed

lemma chain_single: "cc_holder y i = Some p \<Longrightarrow> chain_of y p [i]"
  by (simp add: chain_of_def)

lemma solo_free1:
  assumes inv: "conc_inv y F" and pc: "cc_pc y p = Idle" and i: "cc_holder y i = Some p"
  shows "\<exists>y' r. (conc_step p)\<^sup>*\<^sup>* y y' \<and> cc_pc y' p = Idle \<and> lst_free1 (cc_lst y) i = Some (r, cc_lst y') \<and>
    cc_holder y' = (cc_holder y)(i := None)"
proof -
  have "release [i] (cc_holder y) = (cc_holder y)(i := None)" by (auto simp: release_def)
  with solo_free [OF inv pc chain_single [OF i]] show ?thesis by (simp add: lst_free_def lst_free1_def)
qed

section \<open>Properties\<close>

lemma init_run:
  assumes "CncrLst_init sz mem = Some s" and "length mem = unat sz" and "0 < unat sz"
    and "any_step\<^sup>*\<^sup>* (conc_start s) y" and "conc_bound y"
  shows "\<exists>F. conc_inv y F" and "length (cl_lv (cc_lst y)) = unat sz"
proof -
  obtain s' where s': "CncrLst_init sz mem = Some s'" "length (cl_lv s') = unat sz" "free_rep s' (map of_nat [0..<unat sz])"
    using CncrLst_init_free_rep [OF assms(2,3)] by (elim exE conjE)
  have "hd_ver (cl_head s) = 0" using assms(1) by (auto simp: CncrLst_init_def split: bind_splits)
  moreover have "i \<in> set (map of_nat [0..<unat sz])" if "unat i < unat sz" for i :: u32
    using that by (auto simp: image_iff intro!: bexI [of _ "unat i"])
  ultimately have "conc_inv (conc_start s) (map of_nat [0..<unat sz])" using s' assms(1) by (intro conc_start_inv) auto
  from conc_run_inv [OF assms(4) this assms(5)] s' assms(1) show "\<exists>F. conc_inv y F" "length (cl_lv (cc_lst y)) = unat sz"
    by (auto simp: conc_start_def)
qed

text \<open>C1. While the head has been replaced fewer than \<open>2 ^ 32 - 1\<close> times, so that no version of it has
  repeated, and as long as processes take blocks by \<open>nxt\<close> and give back, by \<open>free(idx)\<close> or \<open>free(st, en)\<close>,
  only blocks they hold, a chain only while the list still links it from its first to its last block:
  whatever way their memory accesses interleave, the free list is the list of exactly the blocks nobody
  holds, so no block is lost, and none is given to a process while another one holds it. Chains that
  are linked otherwise break this, as the last theorem of this theory shows.\<close>

theorem conc_no_double_allocation:
  assumes "CncrLst_init sz mem = Some s" and "length mem = unat sz" and "0 < unat sz"
    and "any_step\<^sup>*\<^sup>* (conc_start s) y" and "conc_bound y"
  shows "(\<exists>F. free_rep (cc_lst y) F \<and> (\<forall>i. i \<in> set F \<longleftrightarrow> unat i < unat sz \<and> cc_holder y i = None)) \<and>
    (\<forall>p y' i q. conc_step p y y' \<longrightarrow> conc_bound y' \<longrightarrow> cc_holder y i = Some q \<longrightarrow>
       cc_holder y' i = Some q \<or> (q = p \<and> cc_holder y' i = None))"
proof -
  obtain F where F: "conc_inv y F" using init_run(1) [OF assms] by blast
  then have "free_rep (cc_lst y) F \<and> (\<forall>i. i \<in> set F \<longleftrightarrow> unat i < unat sz \<and> cc_holder y i = None)"
    using init_run(2) [OF assms] by (simp add: conc_inv_def)
  with conc_step_inv [OF F] show ?thesis by blast
qed

definition two_blocks :: cncr_lst where
  "two_blocks = \<lparr>cl_lv = [1, LIST_END], cl_head = \<lparr>hd_ver = 0, hd_idx = 0\<rparr>\<rparr>"

lemma two_blocks_init: "CncrLst_init 2 [0, 0] = Some two_blocks"
  by (simp add: CncrLst_init_def two_blocks_def wr_def)

text \<open>Two processes read the head before the first one takes it.\<close>

definition race :: lst_conc where
  "race = \<lparr>cc_lst = \<lparr>cl_lv = [1, LIST_END], cl_head = \<lparr>hd_ver = 1, hd_idx = 1\<rparr>\<rparr>,
     cc_pc = (\<lambda>p. Idle)(2 := Nxt_linked \<lparr>hd_ver = 0, hd_idx = 0\<rparr> 1), cc_holder = (\<lambda>i. None)(0 := Some 1), cc_count = 1\<rparr>"

lemma race_reached: "any_step\<^sup>*\<^sup>* (conc_start two_blocks) race"
proof -
  let ?h = "\<lparr>hd_ver = 0, hd_idx = 0\<rparr>"
  let ?y0 = "conc_start two_blocks"
  let ?y1 = "at_pc 1 (Nxt_loaded ?h) ?y0"
  let ?y2 = "at_pc 2 (Nxt_loaded ?h) ?y1"
  let ?y3 = "at_pc 1 (Nxt_linked ?h 1) ?y2"
  let ?y4 = "at_pc 2 (Nxt_linked ?h 1) ?y3"
  have "conc_step 1 ?y0 ?y1" using nxt_load [of ?y0 1] by (simp add: conc_start_def two_blocks_def)
  moreover have "conc_step 2 ?y1 ?y2" using nxt_load [of ?y1 2] by (simp add: conc_start_def two_blocks_def)
  moreover have "conc_step 1 ?y2 ?y3"
    using nxt_link [of ?y2 1 ?h 1] by (simp add: conc_start_def two_blocks_def rd_def LIST_END_def)
  moreover have "conc_step 2 ?y3 ?y4"
    using nxt_link [of ?y3 2 ?h 1] by (simp add: conc_start_def two_blocks_def rd_def LIST_END_def)
  moreover have "conc_step 1 ?y4 race"
  proof -
    let ?s = "\<lparr>cl_lv = [1, LIST_END], cl_head = \<lparr>hd_ver = 1, hd_idx = 1\<rparr>\<rparr>"
    have "cas_head (cc_lst ?y4) ?h \<lparr>hd_ver = incVersion (hd_ver ?h), hd_idx = 1\<rparr> = (True, ?h, ?s)"
      by (simp add: conc_start_def two_blocks_def cas_head_def incVersion_def NXT_VER_SPECIAL_def)
    from nxt_cas [OF _ this, of 1] have "conc_step 1 ?y4 (at_pc 1 Idle
        (?y4\<lparr>cc_lst := ?s, cc_holder := (cc_holder ?y4)(0 := Some 1), cc_count := cc_count ?y4 + 1\<rparr>))" by simp
    moreover have "at_pc 1 Idle (?y4\<lparr>cc_lst := ?s, cc_holder := (cc_holder ?y4)(0 := Some 1), cc_count := cc_count ?y4 + 1\<rparr>) = race"
      by (rule lst_conc.equality) (auto simp: race_def conc_start_def fun_eq_iff)
    ultimately show ?thesis by simp
  qed
  ultimately show ?thesis by (meson any_stepI converse_rtranclp_into_rtranclp rtranclp.rtrancl_refl)
qed

theorem conc_no_double_allocation_witness:
  "\<exists>F. free_rep (cc_lst race) F \<and> (\<forall>i. i \<in> set F \<longleftrightarrow> unat i < 2 \<and> cc_holder race i = None)"
  using conc_no_double_allocation [OF two_blocks_init _ _ race_reached] by (simp add: conc_bound_def race_def)

text \<open>C18. No interleaving can stop a process for good: from any state it can reach, left alone it completes
  its \<open>nxt\<close> or \<open>free\<close> within four memory accesses, without leaving the array.\<close>

theorem conc_obstruction_free:
  assumes "CncrLst_init sz mem = Some s" and "length mem = unat sz" and "0 < unat sz"
    and "any_step\<^sup>*\<^sup>* (conc_start s) y" and "conc_bound y"
  shows "\<exists>k \<le> 4. \<exists>y'. (conc_step p ^^ k) y y' \<and> cc_pc y' p = Idle"
  using init_run(1) [OF assms] solo_any unfolding solo_def by blast

theorem conc_obstruction_free_witness: "\<exists>k \<le> 4. \<exists>y'. (conc_step 2 ^^ k) race y' \<and> cc_pc y' 2 = Idle"
  using conc_obstruction_free [OF two_blocks_init _ _ race_reached] by (simp add: conc_bound_def race_def)

text \<open>C19. A process that runs an operation with no other in between does exactly what the sequential \<open>nxt\<close> and
  the two sequential \<open>free\<close> do, and gets or gives back the indices they say.\<close>

theorem conc_alone_is_sequential:
  assumes "CncrLst_init sz mem = Some s" and "length mem = unat sz" and "0 < unat sz"
    and "any_step\<^sup>*\<^sup>* (conc_start s) y" and "conc_bound y" and "cc_pc y p = Idle"
  shows "(\<exists>y' r. (conc_step p)\<^sup>*\<^sup>* y y' \<and> cc_pc y' p = Idle \<and> lst_nxt (cc_lst y) = Some (r, cc_lst y') \<and>
      cc_holder y' = (if r = LIST_END then cc_holder y else (cc_holder y)(r := Some p))) \<and>
    (\<forall>i. cc_holder y i = Some p \<longrightarrow> (\<exists>y' r. (conc_step p)\<^sup>*\<^sup>* y y' \<and> cc_pc y' p = Idle \<and>
      lst_free1 (cc_lst y) i = Some (r, cc_lst y') \<and> cc_holder y' = (cc_holder y)(i := None))) \<and>
    (\<forall>C. chain_of y p C \<longrightarrow> (\<exists>y' r. (conc_step p)\<^sup>*\<^sup>* y y' \<and> cc_pc y' p = Idle \<and>
      lst_free (cc_lst y) (hd C) (last C) = Some (r, cc_lst y') \<and> cc_holder y' = release C (cc_holder y)))"
proof -
  obtain F where F: "conc_inv y F" using init_run(1) [OF assms(1-5)] by blast
  from solo_nxt [OF F assms(6)] solo_free1 [OF F assms(6)] solo_free [OF F assms(6)] show ?thesis by blast
qed

theorem conc_alone_is_sequential_witness:
  "\<exists>y' r. (conc_step 3)\<^sup>*\<^sup>* race y' \<and> cc_pc y' 3 = Idle \<and> lst_nxt (cc_lst race) = Some (r, cc_lst y')"
  using conc_alone_is_sequential [OF two_blocks_init _ _ race_reached, of 3] by (simp add: conc_bound_def race_def) blast

section \<open>Chains of more than one block\<close>

text \<open>\<open>alloc\<close> after its first \<open>nxt\<close>, so that another process can come in between.\<close>

definition alloc_rest :: "cncr_str \<Rightarrow> u32 \<Rightarrow> u32 \<Rightarrow> u32 \<Rightarrow> u32 \<Rightarrow> (ver_idx \<times> cncr_str) option" where
  "alloc_rest s sz klen hash st = do {
     let blocks = blocksNeeded s sz;
     if st = LIST_END then Some (List_End, s)
     else do {
       let ver = ucast (cs_version s);
       let s = s\<lparr>cs_version := cs_version s + 1\<rparr>;
       (last_blk, s) \<leftarrow> alloc_loop (unat (blocks - 1)) s ver sz st;
       (case last_blk of
          None \<Rightarrow> do { (_, s) \<leftarrow> str_free s st ver; Some (\<lparr>vi_idx = LIST_END, vi_version = 0\<rparr>, s) }
        | Some cur \<Rightarrow> do {
            bls \<leftarrow> wr (cs_bls s) cur (BlkLst False 0 LIST_END ver sz 0 0);
            b \<leftarrow> rd bls st;
            bls \<leftarrow> wr bls st (b\<lparr>bl_kr := (bl_kr b)\<lparr>kr_isKey := True, kr_isDeleted := False\<rparr>,
                              bl_hash := hash, bl_len := sz, bl_klen := klen\<rparr>);
            Some (\<lparr>vi_idx = st, vi_version = ver\<rparr>, s\<lparr>cs_bls := bls\<rparr>)
          })
     }
   }"

lemma str_alloc_rest: "str_alloc s sz klen hash = do { (st, cl) \<leftarrow> lst_nxt (cs_cl s); alloc_rest (s\<lparr>cs_cl := cl\<rparr>) sz klen hash st }"
  by (simp add: str_alloc_def alloc_rest_def blocksNeeded_def Let_def)

lemma blocksNeeded_cong: "cs_blockSize s' = cs_blockSize s \<Longrightarrow> blocksNeeded s' = blocksNeeded s"
  by (simp add: blocksNeeded_def fun_eq_iff)

text \<open>Allocating a single block, the rest of an allocation of two blocks, and freeing a chain of two.\<close>

lemma alloc_one:
  assumes "lst_nxt (cs_cl s) = Some (i, cl)" and "i \<noteq> LIST_END" and "blocksNeeded s sz = 1" and "unat i < length (cs_bls s)"
  shows "str_alloc s sz klen hash = Some (\<lparr>vi_idx = i, vi_version = ucast (cs_version s)\<rparr>,
    s\<lparr>cs_cl := cl, cs_version := cs_version s + 1,
      cs_bls := (cs_bls s)[unat i := BlkLst True 0 LIST_END (ucast (cs_version s)) sz klen hash]\<rparr>)"
  using assms by (simp add: str_alloc_def arr_simps BlkLst_def Let_def blocksNeeded_cong [of "s\<lparr>cs_cl := cl\<rparr>" s])

lemma alloc_rest_two:
  assumes "lst_nxt (cs_cl s) = Some (c, cl)" and "st \<noteq> LIST_END" "c \<noteq> LIST_END" "st \<noteq> c" and "blocksNeeded s sz = 2"
    and "unat st < length (cs_bls s)" "unat c < length (cs_bls s)"
  shows "alloc_rest s sz klen hash st = Some (\<lparr>vi_idx = st, vi_version = ucast (cs_version s)\<rparr>,
    s\<lparr>cs_cl := cl, cs_version := cs_version s + 1,
      cs_bls := (cs_bls s)[unat st := BlkLst True 0 c (ucast (cs_version s)) sz klen hash,
        unat c := BlkLst False 0 LIST_END (ucast (cs_version s)) sz 0 0]\<rparr>)"
proof -
  have "unat (2 - 1 :: u32) = Suc 0" by simp
  moreover have "unat st \<noteq> unat c" using assms(4) by (simp add: word_unat_eq_iff)
  ultimately show ?thesis
    using assms by (simp add: alloc_rest_def arr_simps BlkLst_def list_update_swap Let_def)
qed

lemma free_two:
  assumes "unat st < length (cs_bls s)" "unat c < length (cs_bls s)" "unat c < length (cl_lv (cs_cl s))"
    and "st \<noteq> LIST_END" "c \<noteq> LIST_END" "st \<noteq> c"
    and "cs_bls s ! unat st = BlkLst True 0 c ver sz klen hash" and "bl_idx (cs_bls s ! unat c) = LIST_END"
  shows "\<exists>s'. str_free s st ver = Some (False, s') \<and> cs_cl s' = pushed (cs_cl s) st c \<and>
    (\<forall>i. i \<noteq> st \<longrightarrow> cs_bls s' ! unat i = cs_bls s ! unat i)"
proof -
  let ?k = "\<lparr>kr_isKey = True, kr_isDeleted = True, kr_readers = 0\<rparr>"
  let ?bls = "(cs_bls s)[unat st := (cs_bls s ! unat st)\<lparr>bl_kr := ?k\<rparr>]"
  let ?freed = "?bls[unat st := (?bls ! unat st)\<lparr>bl_version := 0\<rparr>]"
  have ne: "unat st \<noteq> unat c" using assms(6) by (simp add: word_unat_eq_iff)
  have "findEndSetVersion_loop ?bls st st 0 = Some (c, ?freed)"
    using assms ne by (simp add: findEndSetVersion_loop.simps [of _ st] findEndSetVersion_loop.simps [of _ c]
        findEndSetVersion_loop.simps [of _ LIST_END] arr_simps BlkLst_def)
  moreover have "lst_free (cs_cl s) st c = Some (hd_idx (cl_head (cs_cl s)), pushed (cs_cl s) st c)"
    using assms(3) by (rule lst_free_eq)
  ultimately have "str_doFree (s\<lparr>cs_bls := ?bls\<rparr>) st = Some (s\<lparr>cs_bls := ?freed, cs_cl := pushed (cs_cl s) st c\<rparr>)"
    by (simp add: str_doFree_def findEndSetVersion_def)
  then have "str_free s st ver = Some (False, s\<lparr>cs_bls := ?freed, cs_cl := pushed (cs_cl s) st c\<rparr>)"
    using assms(1,7) by (simp add: str_free_def decReadersOrDel_def decReadersOrDel_loop.simps cas_kr_def arr_simps BlkLst_def)
  moreover have "?freed ! unat i = cs_bls s ! unat i" if "i \<noteq> st" for i using that by (simp add: word_unat_eq_iff)
  ultimately show ?thesis by (intro exI [of _ "s\<lparr>cs_bls := ?freed, cs_cl := pushed (cs_cl s) st c\<rparr>"]) simp
qed

text \<open>C29. Freeing a chain is not safe when its allocation was interleaved: the chain is given back as a run of
  the free list although another process may have taken a block between. In whatever store has at least
  three free blocks \<open>a\<close>, \<open>b\<close>, \<open>c\<close>: a process starts to allocate two blocks and gets \<open>a\<close>, another allocates
  \<open>b\<close>, the first goes on and gets \<open>c\<close>, and then frees its value. The free list is as it was before, with
  \<open>b\<close> on it, although the record of \<open>b\<close> is still the one its holder was given, and the second next
  process to ask is given \<open>b\<close> again.\<close>

theorem interleaved_chain_double_allocation:
  assumes rep: "free_rep (cs_cl s) (a # b # c # F)" and len: "length (cs_bls s) = length (cl_lv (cs_cl s))"
    and two: "blocksNeeded s szA = 2" and one: "blocksNeeded s szB = 1"
  shows "\<exists>cl vb s1 va s2 s3 cl1 cl2. lst_nxt (cs_cl s) = Some (a, cl) \<and>
    str_alloc (s\<lparr>cs_cl := cl\<rparr>) szB klenB hashB = Some (\<lparr>vi_idx = b, vi_version = vb\<rparr>, s1) \<and>
    alloc_rest s1 szA klenA hashA a = Some (\<lparr>vi_idx = a, vi_version = va\<rparr>, s2) \<and>
    str_free s2 a va = Some (False, s3) \<and>
    cs_bls s3 ! unat b = BlkLst True 0 LIST_END vb szB klenB hashB \<and>
    free_rep (cs_cl s3) (a # b # c # F) \<and>
    lst_nxt (cs_cl s3) = Some (a, cl1) \<and> lst_nxt cl1 = Some (b, cl2)"
proof -
  let ?lv = "cl_lv (cs_cl s)" and ?ver = "ucast (cs_version s) :: u32" and ?ver' = "ucast (cs_version s + 1) :: u32"
  from rep have bound: "unat a < length ?lv" "unat b < length ?lv" "unat c < length ?lv"
    and ne: "a \<noteq> b" "a \<noteq> c" "b \<noteq> c" and small: "length ?lv < 2 ^ 32"
    by (auto simp: free_rep_def)
  have no_end: "a \<noteq> LIST_END" "b \<noteq> LIST_END" "c \<noteq> LIST_END" using bound small not_LIST_END by blast+
  let ?cl1 = "popped (cs_cl s) a" let ?cl2 = "popped ?cl1 b" let ?cl3 = "popped ?cl2 c"
  have n1: "lst_nxt (cs_cl s) = Some (a, ?cl1)" "free_rep ?cl1 (b # c # F)" using nxt_Cons [OF rep] by simp_all
  have n2: "lst_nxt ?cl1 = Some (b, ?cl2)" "free_rep ?cl2 (c # F)" using nxt_Cons [OF n1(2)] by simp_all
  have n3: "lst_nxt ?cl2 = Some (c, ?cl3)" "free_rep ?cl3 F" using nxt_Cons [OF n2(2)] by simp_all
  let ?B = "BlkLst True 0 LIST_END ?ver szB klenB hashB"
  let ?s1 = "s\<lparr>cs_cl := ?cl2, cs_version := cs_version s + 1, cs_bls := (cs_bls s)[unat b := ?B]\<rparr>"
  have s1: "str_alloc (s\<lparr>cs_cl := ?cl1\<rparr>) szB klenB hashB = Some (\<lparr>vi_idx = b, vi_version = ?ver\<rparr>, ?s1)"
    using alloc_one [of "s\<lparr>cs_cl := ?cl1\<rparr>" b ?cl2 szB klenB hashB] n2(1) no_end one bound len
    by (simp add: blocksNeeded_cong [of "s\<lparr>cs_cl := ?cl1\<rparr>" s])
  let ?bls2 = "(cs_bls s)[unat b := ?B, unat a := BlkLst True 0 c ?ver' szA klenA hashA,
      unat c := BlkLst False 0 LIST_END ?ver' szA 0 0]"
  let ?s2 = "?s1\<lparr>cs_cl := ?cl3, cs_version := cs_version s + 1 + 1, cs_bls := ?bls2\<rparr>"
  have s2: "alloc_rest ?s1 szA klenA hashA a = Some (\<lparr>vi_idx = a, vi_version = ?ver'\<rparr>, ?s2)"
    using alloc_rest_two [of ?s1 c ?cl3 a szA klenA hashA] n3(1) no_end ne two bound len
    by (simp add: blocksNeeded_cong [of ?s1 s])
  have une: "unat a \<noteq> unat b" "unat a \<noteq> unat c" "unat b \<noteq> unat c" using ne by (simp_all add: word_unat_eq_iff)
  have "\<exists>s3. str_free ?s2 a ?ver' = Some (False, s3) \<and> cs_cl s3 = pushed (cs_cl ?s2) a c \<and>
      (\<forall>i. i \<noteq> a \<longrightarrow> cs_bls s3 ! unat i = cs_bls ?s2 ! unat i)"
    by (rule free_two [where klen = klenA and hash = hashA and sz = szA])
      (use bound len no_end ne une in \<open>simp_all add: BlkLst_def\<close>)
  then obtain s3 where s3: "str_free ?s2 a ?ver' = Some (False, s3)" "cs_cl s3 = pushed ?cl3 a c"
    "\<forall>i. i \<noteq> a \<longrightarrow> cs_bls s3 ! unat i = ?bls2 ! unat i" by auto
  have "cs_bls s3 ! unat b = ?B" using s3(3) ne une bound len by simp
  moreover have "free_rep (cs_cl s3) (a # b # c # F)" using rep by (simp add: s3(2) pushed_def popped_def free_rep_def)
  moreover from nxt_Cons [OF this] nxt_Cons have "\<exists>cl1 cl2. lst_nxt (cs_cl s3) = Some (a, cl1) \<and> lst_nxt cl1 = Some (b, cl2)"
    by blast
  ultimately show ?thesis using n1(1) s1 s2 s3(1) by blast
qed

text \<open>A new store of four blocks of eight bytes, and values of two blocks and of one.\<close>

theorem interleaved_chain_double_allocation_witness:
  "\<exists>s cl vb s1 va s2 s3 cl1 cl2. CncrStr_init 8 4 (replicate 4 0) (replicate 32 0) = Some s \<and>
    lst_nxt (cs_cl s) = Some (0, cl) \<and> str_alloc (s\<lparr>cs_cl := cl\<rparr>) 4 1 0 = Some (\<lparr>vi_idx = 1, vi_version = vb\<rparr>, s1) \<and>
    alloc_rest s1 12 1 0 0 = Some (\<lparr>vi_idx = 0, vi_version = va\<rparr>, s2) \<and> str_free s2 0 va = Some (False, s3) \<and>
    lst_nxt (cs_cl s3) = Some (0, cl1) \<and> lst_nxt cl1 = Some (1, cl2) \<and> bl_version (cs_bls s3 ! 1) = vb"
proof -
  obtain cl where cl: "CncrLst_init 4 (replicate 4 0) = Some cl" "length (cl_lv cl) = 4" "free_rep cl [0, 1, 2, 3]"
    using CncrLst_init_free_rep [of "replicate 4 0" 4] by (auto simp: upt_rec)
  let ?s = "\<lparr>cs_cl = cl, cs_bls = replicate 4 BlkLst0, cs_blks = replicate 32 0, cs_version = 1, cs_blockSize = 8\<rparr>"
  have "CncrStr_init 8 4 (replicate 4 0) (replicate 32 0) = Some ?s" using cl(1) by (simp add: CncrStr_init_def)
  moreover have "free_rep (cs_cl ?s) (0 # 1 # 2 # [3])" using cl(3) by simp
  note interleaved_chain_double_allocation [OF this, of 12 4 1 0 1 0]
  ultimately show ?thesis using cl(2) by (auto simp: blocksNeeded_def BlkLst_def)
qed

end
