(* ===== verification/Shm_Readers_Conc.thy ===== *)
theory Shm_Readers_Conc
  imports Shm_Store
begin

text \<open>
  The reader counts of \<open>CncrStr\<close> under interleaving: \<open>incReaders\<close>, \<open>decReadersOrDel\<close>, \<open>doFree\<close> and the
  writes of \<open>alloc\<close> on the \<open>BlkLst\<close> record of one block, one memory access at a time, by any number of
  processes. The record is the first of its chain. \<open>rc_owner\<close> says who has to give the block back,
  \<open>rc_seen\<close> holds the versions that were ever handed out for it and \<open>rc_next\<close> the count of versions
  given so far; the code reads none of the three.

  What the store relies on is part of the steps: the free list hands the block out only after it was
  returned to it (\<open>rc_owner = Free_list\<close>), and one process takes the entry of a value out of the table
  and frees it (\<open>rc_owner = Table\<close>). The first is what \<open>Shm_List_Conc\<close> proves of the free list for chains that
  are linked as they were taken, the second what \<open>Shm_Slots_Conc\<close> proves of the slots. Both fail for a
  chain whose allocation was interleaved, as \<open>Shm_List_Conc\<close> shows at its end; its blocks are outside
  of what is said here.
\<close>

section \<open>Steps\<close>

datatype owner = Free_list | Table | Readers | Proc nat

text \<open>Where a process is. \<open>Dec_loaded\<close> and \<open>Dec_checked\<close> carry the parameter \<open>del\<close> of
  \<open>decReadersOrDel\<close>; \<open>Reading v\<close> is a process to which \<open>incReaders\<close> of version \<open>v\<close> has returned the
  record.\<close>

datatype rd_pc = Out | Inc_loaded u32 key_readers | Inc_checked u32 key_readers | Reading u32
  | Dec_loaded bool u32 key_readers | Dec_checked bool u32 key_readers | Freeing u32 | Marked
  | Alloc_taken u32 | Alloc_kr u32 | Alloc_ver u32 | Alloc_both u32 | Alloc_loaded u32 key_readers | Alloc_key u32
  | Alloc_reloaded u32 key_readers | Alloc_done u32

record rd_conc =
  rc_bl :: blk_lst
  rc_owner :: owner
  rc_seen :: "u32 set"
  rc_next :: nat
  rc_pc :: "nat \<Rightarrow> rd_pc"

definition goto :: "nat \<Rightarrow> rd_pc \<Rightarrow> rd_conc \<Rightarrow> rd_conc" where
  "goto p pc y = y\<lparr>rc_pc := (rc_pc y)(p := pc)\<rparr>"

definition set_kr :: "key_readers \<Rightarrow> rd_conc \<Rightarrow> rd_conc" where
  "set_kr kr y = y\<lparr>rc_bl := (rc_bl y)\<lparr>bl_kr := kr\<rparr>\<rparr>"

definition set_ver :: "u32 \<Rightarrow> rd_conc \<Rightarrow> rd_conc" where
  "set_ver v y = y\<lparr>rc_bl := (rc_bl y)\<lparr>bl_version := v\<rparr>\<rparr>"

definition set_owner :: "owner \<Rightarrow> rd_conc \<Rightarrow> rd_conc" where
  "set_owner w y = y\<lparr>rc_owner := w\<rparr>"

lemma goto_simps [simp]: "rc_bl (goto p pc y) = rc_bl y" "rc_owner (goto p pc y) = rc_owner y"
  "rc_seen (goto p pc y) = rc_seen y" "rc_next (goto p pc y) = rc_next y"
  "rc_pc (goto p pc y) = (rc_pc y)(p := pc)"
  by (simp_all add: goto_def)

lemma set_simps [simp]:
  "rc_bl (set_kr kr y) = (rc_bl y)\<lparr>bl_kr := kr\<rparr>" "rc_bl (set_ver v y) = (rc_bl y)\<lparr>bl_version := v\<rparr>"
  "rc_bl (set_owner w y) = rc_bl y" "rc_owner (set_kr kr y) = rc_owner y" "rc_owner (set_ver v y) = rc_owner y"
  "rc_owner (set_owner w y) = w" "rc_seen (set_kr kr y) = rc_seen y" "rc_seen (set_ver v y) = rc_seen y"
  "rc_seen (set_owner w y) = rc_seen y" "rc_next (set_kr kr y) = rc_next y" "rc_next (set_ver v y) = rc_next y"
  "rc_next (set_owner w y) = rc_next y" "rc_pc (set_kr kr y) = rc_pc y" "rc_pc (set_ver v y) = rc_pc y"
  "rc_pc (set_owner w y) = rc_pc y"
  by (simp_all add: set_kr_def set_ver_def set_owner_def)

text \<open>\<open>incReaders\<close>: the check of the loop and its compare-and-swap.\<close>

definition inc_check :: "nat \<Rightarrow> u32 \<Rightarrow> key_readers \<Rightarrow> rd_conc \<Rightarrow> rd_conc" where
  "inc_check p v cur y =
     (if bl_version (rc_bl y) \<noteq> v \<or> sint (kr_readers cur) < 0 \<or> kr_isDeleted cur then goto p Out y
      else goto p (Inc_checked v cur) y)"

definition inc_cas :: "nat \<Rightarrow> u32 \<Rightarrow> key_readers \<Rightarrow> rd_conc \<Rightarrow> rd_conc" where
  "inc_cas p v cur y =
     (if bl_kr (rc_bl y) = cur
      then goto p (Reading v) (set_kr (cur\<lparr>kr_readers := kr_readers cur + 1\<rparr>) y)
      else goto p (Inc_loaded v (bl_kr (rc_bl y))) y)"

text \<open>\<open>decReadersOrDel\<close>: a process that decides to delete goes on to \<open>doFree\<close>; a process that sets
  the flag while there are readers leaves the block to the last of them.\<close>

definition dec_doDelete :: "bool \<Rightarrow> key_readers \<Rightarrow> bool" where
  "dec_doDelete del cur = (if del then kr_readers cur = 0 \<and> \<not> kr_isDeleted cur
     else kr_readers cur = 1 \<and> kr_isDeleted cur)"

definition dec_nxt :: "bool \<Rightarrow> key_readers \<Rightarrow> key_readers" where
  "dec_nxt del cur = (if del then cur\<lparr>kr_isDeleted := True\<rparr> else cur\<lparr>kr_readers := kr_readers cur - 1\<rparr>)"

definition dec_check :: "nat \<Rightarrow> bool \<Rightarrow> u32 \<Rightarrow> key_readers \<Rightarrow> rd_conc \<Rightarrow> rd_conc" where
  "dec_check p del v cur y =
     (if bl_version (rc_bl y) \<noteq> v then goto p Out y else goto p (Dec_checked del v cur) y)"

definition dec_cas :: "nat \<Rightarrow> bool \<Rightarrow> u32 \<Rightarrow> key_readers \<Rightarrow> rd_conc \<Rightarrow> rd_conc" where
  "dec_cas p del v cur y =
     (if bl_kr (rc_bl y) = cur then
        (let y' = set_kr (dec_nxt del cur) y
         in if dec_doDelete del cur then goto p (Freeing v) (set_owner (Proc p) y')
            else goto p Out (if del then set_owner Readers y' else y'))
      else goto p (Dec_loaded del v (bl_kr (rc_bl y))) y)"

text \<open>What a process may choose where it has a choice: to read a version it once found in the table,
  to take the table's entry out and free it, to allocate (with a version that was not given before),
  to write the version before the reader count, to leave with its count as \<open>get\<close> does when the buffer
  is too small, and to free what it has just allocated.\<close>

datatype rd_act = A_go | A_inc u32 | A_del | A_take nat | A_ver_first | A_quit | A_drop

definition out_act :: "rd_act \<Rightarrow> nat \<Rightarrow> rd_conc \<Rightarrow> rd_conc option" where
  "out_act a p y = (case a of
     A_inc v \<Rightarrow> if v \<in> rc_seen y then Some (goto p (Inc_loaded v (bl_kr (rc_bl y))) y) else None
   | A_del \<Rightarrow> if rc_owner y = Table
       then Some (goto p (Dec_loaded True (bl_version (rc_bl y)) (bl_kr (rc_bl y))) (set_owner (Proc p) y)) else None
   | A_take c \<Rightarrow> if rc_owner y = Free_list \<and> rc_next y \<le> c
       then Some (goto p (Alloc_taken (of_nat c)) (set_owner (Proc p) (y\<lparr>rc_next := Suc c\<rparr>))) else None
   | _ \<Rightarrow> None)"

text \<open>\<open>alloc\<close> writes the flags \<open>isKey\<close> and \<open>isDeleted\<close> one after the other, each as a load and a store of
  the word they share with the count.\<close>

primrec go_act :: "rd_pc \<Rightarrow> nat \<Rightarrow> rd_conc \<Rightarrow> rd_conc option" where
  "go_act Out p y = None"
| "go_act (Inc_loaded v cur) p y = Some (inc_check p v cur y)"
| "go_act (Inc_checked v cur) p y = Some (inc_cas p v cur y)"
| "go_act (Reading v) p y = Some (goto p (Dec_loaded False v (bl_kr (rc_bl y))) y)"
| "go_act (Dec_loaded del v cur) p y = Some (dec_check p del v cur y)"
| "go_act (Dec_checked del v cur) p y = Some (dec_cas p del v cur y)"
| "go_act (Freeing v) p y = Some (goto p Marked (set_ver 0 y))"
| "go_act Marked p y = Some (goto p Out (set_owner Free_list y))"
| "go_act (Alloc_taken ver) p y = Some (goto p (Alloc_kr ver) (set_kr (bl_kr BlkLst0) y))"
| "go_act (Alloc_kr ver) p y = Some (goto p (Alloc_both ver) (set_ver ver y))"
| "go_act (Alloc_ver ver) p y = Some (goto p (Alloc_both ver) (set_kr (bl_kr BlkLst0) y))"
| "go_act (Alloc_both ver) p y = Some (goto p (Alloc_loaded ver (bl_kr (rc_bl y))) y)"
| "go_act (Alloc_loaded ver cur) p y =
     Some (goto p (Alloc_key ver) (set_kr (cur\<lparr>kr_isKey := True\<rparr>) y))"
| "go_act (Alloc_key ver) p y = Some (goto p (Alloc_reloaded ver (bl_kr (rc_bl y))) y)"
| "go_act (Alloc_reloaded ver cur) p y = Some (goto p (Alloc_done ver) (set_kr (cur\<lparr>kr_isDeleted := False\<rparr>) y))"
| "go_act (Alloc_done ver) p y = Some (goto p Out (set_owner Table (y\<lparr>rc_seen := insert ver (rc_seen y)\<rparr>)))"

definition rd_step :: "rd_act \<Rightarrow> nat \<Rightarrow> rd_conc \<Rightarrow> rd_conc option" where
  "rd_step a p y = (case (a, rc_pc y p) of
     (A_go, pc) \<Rightarrow> go_act pc p y
   | (_, Out) \<Rightarrow> out_act a p y
   | (A_ver_first, Alloc_taken ver) \<Rightarrow> Some (goto p (Alloc_ver ver) (set_ver ver y))
   | (A_quit, Reading v) \<Rightarrow> Some (goto p Out y)
   | (A_drop, Alloc_done ver) \<Rightarrow>
       Some (goto p (Dec_loaded True ver (bl_kr (rc_bl y))) (y\<lparr>rc_seen := insert ver (rc_seen y)\<rparr>))
   | _ \<Rightarrow> None)"

fun rd_run :: "(nat \<times> rd_act) list \<Rightarrow> rd_conc \<Rightarrow> rd_conc option" where
  "rd_run [] y = Some y"
| "rd_run ((p, a) # xs) y = do { y \<leftarrow> rd_step a p y; rd_run xs y }"

text \<open>The record as the owner's constructor leaves it, with the version counter at 1.\<close>

definition rd_start :: rd_conc where
  "rd_start = \<lparr>rc_bl = BlkLst0, rc_owner = Free_list, rc_seen = {}, rc_next = 1, rc_pc = (\<lambda>p. Out)\<rparr>"

lemmas rd_act_defs = rd_step_def out_act_def inc_check_def inc_cas_def dec_check_def dec_cas_def

inductive rd_reach :: "rd_conc \<Rightarrow> bool" where
  rd_init: "rd_reach rd_start"
| rd_next: "rd_reach y \<Longrightarrow> rd_step a p y = Some y' \<Longrightarrow> rd_reach y'"

section \<open>A process alone\<close>

text \<open>Without interference the accesses are those of the sequential \<open>incReaders\<close> and
  \<open>decReadersOrDel\<close>, where \<open>rc_bl y\<close> is the record of block \<open>i\<close>.\<close>

lemma inc_alone:
  assumes "rd (cs_bls s) i = Some (rc_bl y)" and "rc_pc y p = Inc_loaded v (bl_kr (rc_bl y))"
  shows "\<exists>s' bl'. incReaders s i v = Some (bl', s') \<and>
    (case rc_pc (inc_check p v (bl_kr (rc_bl y)) y) p of
       Out \<Rightarrow> bl' = BlkLst0 \<and> s' = s
     | Inc_checked v cur \<Rightarrow> rd (cs_bls s') i = Some bl' \<and> inc_cas p v cur y = goto p (Reading v) (y\<lparr>rc_bl := bl'\<rparr>)
     | _ \<Rightarrow> False)"
  using assms
  by (subst incReaders_def, subst incReaders_loop.simps)
     (auto simp: rd_def wr_def cas_kr_def inc_check_def inc_cas_def set_kr_def split: if_splits)

lemma dec_alone:
  assumes "rd (cs_bls s) i = Some (rc_bl y)" and "rc_pc y p = Dec_loaded del v (bl_kr (rc_bl y))"
    and ver: "bl_version (rc_bl y) = v"
  shows "\<exists>s1. rd (cs_bls s1) i = Some (rc_bl (dec_cas p del v (bl_kr (rc_bl y)) y)) \<and>
    dec_check p del v (bl_kr (rc_bl y)) y = goto p (Dec_checked del v (bl_kr (rc_bl y))) y \<and>
    decReadersOrDel s i v del =
      (if rc_pc (dec_cas p del v (bl_kr (rc_bl y)) y) p = Freeing v
       then do { s' \<leftarrow> str_doFree s1 i; Some (False, s') } else Some (True, s1))"
  using assms
  by (intro exI [of _ "s\<lparr>cs_bls := (cs_bls s)[unat i := (rc_bl y)\<lparr>bl_kr := dec_nxt del (bl_kr (rc_bl y))\<rparr>]\<rparr>"],
      subst decReadersOrDel_def, subst decReadersOrDel_loop.simps)
     (auto simp: rd_def wr_def cas_kr_def dec_check_def dec_cas_def dec_doDelete_def dec_nxt_def set_kr_def Let_def
      split: if_splits)

section \<open>Invariant\<close>

text \<open>The processes that hold a count on version \<open>v\<close>, and those that have the block to themselves.\<close>

fun holds :: "rd_pc \<Rightarrow> u32 \<Rightarrow> bool" where
  "holds (Reading w) v = (w = v)"
| "holds (Dec_loaded del w cur) v = (\<not> del \<and> w = v)"
| "holds (Dec_checked del w cur) v = (\<not> del \<and> w = v)"
| "holds _ _ = False"

fun frees :: "rd_pc \<Rightarrow> bool" where
  "frees (Freeing v) = True"
| "frees Marked = True"
| "frees _ = False"

fun allocs :: "rd_pc \<Rightarrow> bool" where
  "allocs (Alloc_taken _) = True"
| "allocs (Alloc_kr _) = True"
| "allocs (Alloc_ver _) = True"
| "allocs (Alloc_both _) = True"
| "allocs (Alloc_loaded _ _) = True"
| "allocs (Alloc_key _) = True"
| "allocs (Alloc_reloaded _ _) = True"
| "allocs (Alloc_done _) = True"
| "allocs _ = False"

fun deletes :: "rd_pc \<Rightarrow> bool" where
  "deletes (Dec_loaded del _ _) = del"
| "deletes (Dec_checked del _ _) = del"
| "deletes _ = False"

abbreviation excl :: "rd_pc \<Rightarrow> bool" where
  "excl pc \<equiv> frees pc \<or> allocs pc \<or> deletes pc"

definition holders :: "rd_conc \<Rightarrow> u32 \<Rightarrow> nat set" where
  "holders y v = {p. holds (rc_pc y p) v}"

definition given :: "rd_conc \<Rightarrow> u32 \<Rightarrow> bool" where
  "given y v \<longleftrightarrow> (\<exists>c. 1 \<le> c \<and> c < rc_next y \<and> v = of_nat c)"

definition fresh :: "rd_conc \<Rightarrow> u32 \<Rightarrow> bool" where
  "fresh y v \<longleftrightarrow> given y v \<and> v \<notin> rc_seen y"

text \<open>What is known at each point, \<open>bl\<close> being the record.\<close>

primrec pc_known :: "rd_pc \<Rightarrow> rd_conc \<Rightarrow> blk_lst \<Rightarrow> bool" where
  "pc_known Out y bl = True"
| "pc_known (Inc_loaded v cur) y bl = (v \<in> rc_seen y)"
| "pc_known (Inc_checked v cur) y bl = (v \<in> rc_seen y \<and> \<not> kr_isDeleted cur \<and> 0 \<le> sint (kr_readers cur))"
| "pc_known (Reading v) y bl = (v \<in> rc_seen y)"
| "pc_known (Dec_loaded del v cur) y bl = (v \<in> rc_seen y \<and> (del \<longrightarrow> bl_version bl = v \<and> \<not> kr_isDeleted (bl_kr bl)))"
| "pc_known (Dec_checked del v cur) y bl =
     (v \<in> rc_seen y \<and> bl_version bl = v \<and> (del \<longrightarrow> \<not> kr_isDeleted (bl_kr bl)))"
| "pc_known (Freeing v) y bl =
     (v \<in> rc_seen y \<and> bl_version bl = v \<and> kr_isDeleted (bl_kr bl) \<and> kr_readers (bl_kr bl) = 0)"
| "pc_known Marked y bl = (bl_version bl = 0)"
| "pc_known (Alloc_taken ver) y bl = (fresh y ver \<and> bl_version bl = 0)"
| "pc_known (Alloc_kr ver) y bl = (fresh y ver \<and> bl_version bl = 0)"
| "pc_known (Alloc_ver ver) y bl = (fresh y ver \<and> bl_version bl = ver)"
| "pc_known (Alloc_both ver) y bl = (fresh y ver \<and> bl_version bl = ver)"
| "pc_known (Alloc_loaded ver cur) y bl = (fresh y ver \<and> bl_version bl = ver)"
| "pc_known (Alloc_key ver) y bl = (fresh y ver \<and> bl_version bl = ver)"
| "pc_known (Alloc_reloaded ver cur) y bl = (fresh y ver \<and> bl_version bl = ver)"
| "pc_known (Alloc_done ver) y bl = (fresh y ver \<and> bl_version bl = ver \<and> \<not> kr_isDeleted (bl_kr bl))"

primrec owner_known :: "owner \<Rightarrow> rd_conc \<Rightarrow> blk_lst \<Rightarrow> bool" where
  "owner_known Free_list y bl = (bl_version bl = 0)"
| "owner_known Table y bl = (bl_version bl \<in> rc_seen y \<and> \<not> kr_isDeleted (bl_kr bl))"
| "owner_known Readers y bl =
     (bl_version bl \<in> rc_seen y \<and> kr_isDeleted (bl_kr bl) \<and> kr_readers (bl_kr bl) \<noteq> 0)"
| "owner_known (Proc p) y bl = excl (rc_pc y p)"

definition rd_inv :: "rd_conc \<Rightarrow> bool" where
  "rd_inv y \<longleftrightarrow> 1 \<le> rc_next y \<and> (\<forall>v \<in> rc_seen y. given y v) \<and> finite {p. rc_pc y p \<noteq> Out} \<and>
     (\<forall>p. excl (rc_pc y p) \<longrightarrow> rc_owner y = Proc p) \<and>
     (\<forall>p. pc_known (rc_pc y p) y (rc_bl y)) \<and> owner_known (rc_owner y) y (rc_bl y) \<and>
     (bl_version (rc_bl y) \<noteq> 0 \<longrightarrow> card (holders y (bl_version (rc_bl y))) \<le> unat (kr_readers (bl_kr (rc_bl y))))"

lemma rd_invD:
  assumes "rd_inv y"
  shows "finite {p. rc_pc y p \<noteq> Out}" and "pc_known (rc_pc y p) y (rc_bl y)"
    and "excl (rc_pc y p) \<Longrightarrow> rc_owner y = Proc p" and "owner_known (rc_owner y) y (rc_bl y)"
    and "bl_version (rc_bl y) \<noteq> 0 \<Longrightarrow>
      card (holders y (bl_version (rc_bl y))) \<le> unat (kr_readers (bl_kr (rc_bl y)))"
    and "v \<in> rc_seen y \<Longrightarrow> given y v" and "1 \<le> rc_next y"
  using assms by (auto simp: rd_inv_def)

lemma finite_holders: "rd_inv y \<Longrightarrow> finite (holders y v)"
  unfolding holders_def by (drule rd_invD(1), erule rev_finite_subset) (auto elim: holds.elims)

lemma given_nonzero: "given y v \<Longrightarrow> rc_next y \<le> 2 ^ 32 \<Longrightarrow> v \<noteq> 0"
proof -
  assume "given y v" "rc_next y \<le> 2 ^ 32"
  then obtain c where c: "1 \<le> c" "c < 2 ^ 32" "v = of_nat c" by (auto simp: given_def)
  then have "unat v = c" by (simp only: unat_of_nat_u32)
  with c(1) show "v \<noteq> 0" by auto
qed

text \<open>No process holds a count when the readers are 0, and none on a fresh version.\<close>

lemma no_holders: "rd_inv y \<Longrightarrow> bl_version (rc_bl y) \<noteq> 0 \<Longrightarrow> kr_readers (bl_kr (rc_bl y)) = 0 \<Longrightarrow>
  holders y (bl_version (rc_bl y)) = {}"
  using finite_holders [of y] rd_invD(5) [of y] by simp

lemma holds_seen: "pc_known pc y bl \<Longrightarrow> holds pc v \<Longrightarrow> v \<in> rc_seen y"
  by (cases pc) auto

lemma no_holders_fresh: "rd_inv y \<Longrightarrow> v \<notin> rc_seen y \<Longrightarrow> holders y v = {}"
  using holds_seen rd_invD(2) unfolding holders_def by blast

lemma holders_goto: "holders (goto p pc y) v = (if holds pc v then insert p (holders y v) else holders y v - {p})"
  by (auto simp: holders_def)

lemma holders_set [simp]: "holders (set_kr kr y) = holders y" "holders (set_ver u y) = holders y"
  "holders (set_owner w y) = holders y" "holders (y\<lparr>rc_seen := S\<rparr>) = holders y" "holders (y\<lparr>rc_next := n\<rparr>) = holders y"
  by (intro ext; simp add: holders_def)+

section \<open>Every step keeps the invariant\<close>

text \<open>A step that changes only where the process is.\<close>

lemma excl_unique: "rd_inv y \<Longrightarrow> excl (rc_pc y p) \<Longrightarrow> excl (rc_pc y q) \<Longrightarrow> p = q"
  using rd_invD(3) [of y p] rd_invD(3) [of y q] by simp

lemma finite_goto: "finite {q. rc_pc y q \<noteq> Out} \<Longrightarrow> finite {q. ((rc_pc y)(p := pc)) q \<noteq> Out}"
  by (rule finite_subset [of _ "insert p {q. rc_pc y q \<noteq> Out}"]) (auto split: if_splits)

lemma pc_known_frame: "pc_known pc y bl \<Longrightarrow> rc_seen y' = rc_seen y \<Longrightarrow> rc_next y' = rc_next y \<Longrightarrow> pc_known pc y' bl"
  by (cases pc) (auto simp: fresh_def given_def)

lemma inv_goto:
  assumes inv: "rd_inv y" and "pc_known pc y (rc_bl y)" and "excl pc \<longleftrightarrow> excl (rc_pc y p)"
    and "\<And>v. holds pc v \<Longrightarrow> holds (rc_pc y p) v"
  shows "rd_inv (goto p pc y)"
proof -
  have "holders (goto p pc y) v \<subseteq> holders y v" for v using assms(4) by (auto simp: holders_def)
  then have card: "card (holders (goto p pc y) v) \<le> card (holders y v)" for v
    by (intro card_mono finite_holders [OF inv])
  have known: "pc_known (((rc_pc y)(p := pc)) q) (goto p pc y) (rc_bl y)" for q
    using assms(2) rd_invD(2) [OF inv, of q] by (auto intro: pc_known_frame)
  have own: "owner_known (rc_owner y) (goto p pc y) (rc_bl y)"
    using rd_invD(4) [OF inv] assms(3) by (cases "rc_owner y") auto
  have excl: "excl (((rc_pc y)(p := pc)) q) \<longrightarrow> rc_owner y = Proc q" for q
    using assms(3) rd_invD(3) [OF inv, of q] by auto
  show ?thesis
    unfolding rd_inv_def
    using known own excl finite_goto [OF rd_invD(1) [OF inv], of p pc] rd_invD(7) [OF inv] rd_invD(6) [OF inv]
      le_trans [OF card rd_invD(5) [OF inv]]
    by (simp add: given_def)
qed

text \<open>A step of the process that has the block to itself, or takes it, or gives it up. \<open>y'\<close> is the state
  before the process moves on.\<close>

lemma pc_known_others:
  assumes "pc_known pc y bl" and "\<not> excl pc" and "rc_seen y \<subseteq> rc_seen y'"
    and "bl_version bl' = bl_version bl \<or> \<not> holds pc (bl_version bl)"
  shows "pc_known pc y' bl'"
  using assms by (cases pc) auto

lemma inv_excl:
  assumes inv: "rd_inv y"
    and others: "\<And>q. q \<noteq> p \<Longrightarrow> \<not> excl (rc_pc y q)"
    and pcs: "rc_pc y' = rc_pc y" and seen: "rc_seen y \<subseteq> rc_seen y'" "\<forall>v \<in> rc_seen y'. given y' v" "1 \<le> rc_next y'"
    and known: "pc_known pc y' (rc_bl y')" and ex: "excl pc \<Longrightarrow> rc_owner y' = Proc p"
    and own: "owner_known (rc_owner y') (goto p pc y') (rc_bl y')"
    and ver: "bl_version (rc_bl y') = bl_version (rc_bl y) \<or> holders y (bl_version (rc_bl y)) = {}"
    and card: "bl_version (rc_bl y') \<noteq> 0 \<Longrightarrow>
      card (holders (goto p pc y) (bl_version (rc_bl y'))) \<le> unat (kr_readers (bl_kr (rc_bl y')))"
  shows "rd_inv (goto p pc y')"
proof -
  have frame: "pc_known pc (goto p pc y') (rc_bl y')" using known by (rule pc_known_frame) simp_all
  have "pc_known (rc_pc y q) (goto p pc y') (rc_bl y')" if "q \<noteq> p" for q
    using rd_invD(2) [OF inv, of q] others [OF that]
  proof (rule pc_known_others)
    show "bl_version (rc_bl y') = bl_version (rc_bl y) \<or> \<not> holds (rc_pc y q) (bl_version (rc_bl y))"
      using ver by (auto simp: holders_def)
  qed (use seen in simp)
  with frame have "pc_known (((rc_pc y)(p := pc)) q) (goto p pc y') (rc_bl y')" for q by simp
  moreover have "holders (goto p pc y') = holders (goto p pc y)" by (intro ext) (simp add: holders_def pcs)
  moreover have "excl (((rc_pc y)(p := pc)) q) \<longrightarrow> rc_owner y' = Proc q" for q
    using others [of q] ex by auto
  ultimately show ?thesis
    unfolding rd_inv_def
    using own card finite_goto [OF rd_invD(1) [OF inv], of p pc] seen(2,3) by (simp add: pcs given_def)
qed

text \<open>A reader's change of the count while the block is not deleted.\<close>

lemma pc_known_kr: "pc_known pc y bl \<Longrightarrow> \<not> kr_isDeleted (bl_kr bl) \<Longrightarrow> \<not> kr_isDeleted kr \<Longrightarrow>
  pc_known pc y (bl\<lparr>bl_kr := kr\<rparr>)"
  by (cases pc) auto

lemma inv_kr:
  assumes inv: "rd_inv y" and ex: "\<not> excl (rc_pc y p)" "\<not> excl pc"
    and del: "\<not> kr_isDeleted (bl_kr (rc_bl y))" "\<not> kr_isDeleted kr" and known: "pc_known pc y (rc_bl y)"
    and card: "bl_version (rc_bl y) \<noteq> 0 \<Longrightarrow>
      card (holders (goto p pc y) (bl_version (rc_bl y))) \<le> unat (kr_readers kr)"
  shows "rd_inv (goto p pc (set_kr kr y))"
proof -
  let ?y = "goto p pc (set_kr kr y)"
  have "pc_known (((rc_pc y)(p := pc)) q) ?y (rc_bl ?y)" for q
    using pc_known_kr [OF known del] pc_known_kr [OF rd_invD(2) [OF inv, of q] del] by (auto intro: pc_known_frame)
  moreover have "owner_known (rc_owner y) ?y (rc_bl ?y)"
    using rd_invD(4) [OF inv] del ex by (cases "rc_owner y") auto
  moreover have "holders ?y = holders (goto p pc y)" by (intro ext) (simp add: holders_def)
  moreover have "excl (((rc_pc y)(p := pc)) q) \<longrightarrow> rc_owner y = Proc q" for q
    using rd_invD(3) [OF inv, of q] ex by auto
  ultimately show ?thesis
    unfolding rd_inv_def
    using card finite_goto [OF rd_invD(1) [OF inv], of p pc] rd_invD(6,7) [OF inv] by (simp add: given_def)
qed

lemma sint_nonneg_30: "0 \<le> sint (r :: 30 word) \<Longrightarrow> unat (r + 1) = Suc (unat r)"
proof -
  assume "0 \<le> sint r"
  then have "\<not> bit r 29" by (simp add: sint_uint bit_uint_iff signed_take_bit_nonnegative_iff)
  then have "r + 1 \<noteq> 0" by (auto simp: add_eq_0_iff2)
  then show "unat (r + 1) = Suc (unat r)" by (simp add: unatSuc add.commute)
qed

lemma card_after: "rd_inv y \<Longrightarrow> card (holders (goto p pc y) v) \<le> (if holds pc v then Suc (card (holders y v)) else card (holders y v))"
  using finite_holders [of y v] by (auto simp: holders_goto card_insert_if card_Diff_singleton_if)

lemma inv_inc_cas:
  assumes inv: "rd_inv y" and pc: "rc_pc y p = Inc_checked v cur"
  shows "rd_inv (inc_cas p v cur y)"
proof (cases "bl_kr (rc_bl y) = cur")
  case True
  have k: "v \<in> rc_seen y" "\<not> kr_isDeleted cur" "0 \<le> sint (kr_readers cur)" using rd_invD(2) [OF inv, of p] pc by auto
  let ?V = "bl_version (rc_bl y)"
  have "card (holders (goto p (Reading v) y) ?V) \<le> unat (kr_readers cur + 1)" if "?V \<noteq> 0"
    using card_after [OF inv, of p "Reading v" ?V] rd_invD(5) [OF inv that] True sint_nonneg_30 [OF k(3)]
    by (auto split: if_splits)
  with True k pc show ?thesis by (auto simp: inc_cas_def intro!: inv_kr [OF inv])
next
  case False
  with inv pc rd_invD(2) [OF inv, of p] show ?thesis by (auto simp: inc_cas_def intro!: inv_goto)
qed

lemma inv_inc_check:
  assumes inv: "rd_inv y" and pc: "rc_pc y p = Inc_loaded v cur"
  shows "rd_inv (inc_check p v cur y)"
  using rd_invD(2) [OF inv, of p] pc by (auto simp: inc_check_def intro!: inv_goto [OF inv])

lemma inv_dec_check:
  assumes inv: "rd_inv y" and pc: "rc_pc y p = Dec_loaded del v cur"
  shows "rd_inv (dec_check p del v cur y)"
  using rd_invD(2) [OF inv, of p] pc by (auto simp: dec_check_def intro!: inv_goto [OF inv])

lemma excl_others: "rd_inv y \<Longrightarrow> excl (rc_pc y p) \<Longrightarrow> q \<noteq> p \<Longrightarrow> \<not> excl (rc_pc y q)"
  using excl_unique [of y p q] by blast

lemma no_excl: "rd_inv y \<Longrightarrow> rc_owner y = w \<Longrightarrow> (\<forall>p. w \<noteq> Proc p) \<Longrightarrow> \<not> excl (rc_pc y q)"
  using rd_invD(3) [of y q] by auto

text \<open>The last two accesses of \<open>decReadersOrDel\<close>.\<close>

lemma inv_dec_cas_del:
  assumes inv: "rd_inv y" and pc: "rc_pc y p = Dec_checked True v cur" and kr: "bl_kr (rc_bl y) = cur"
  shows "rd_inv (dec_cas p True v cur y)"
proof -
  have k: "v \<in> rc_seen y" "bl_version (rc_bl y) = v" "\<not> kr_isDeleted cur"
    using rd_invD(2) [OF inv, of p] pc kr by auto
  have own: "\<And>q. q \<noteq> p \<Longrightarrow> \<not> excl (rc_pc y q)" by (rule excl_others [OF inv]) (use pc in auto)
  have card: "card (holders (goto p pc' y) v) \<le> unat (kr_readers cur)" if "\<not> holds pc' v" "v \<noteq> 0" for pc'
    using card_after [OF inv, of p pc' v] rd_invD(5) [OF inv] that k kr by auto
  show ?thesis
  proof (cases "kr_readers cur = 0")
    case True
    then have "dec_cas p True v cur y = goto p (Freeing v) (set_owner (Proc p) (set_kr (cur\<lparr>kr_isDeleted := True\<rparr>) y))"
      using k kr by (simp add: dec_cas_def dec_doDelete_def dec_nxt_def)
    moreover have "rd_inv \<dots>" using k kr card [of "Freeing v"] True own rd_invD(6,7) [OF inv]
      by (intro inv_excl [OF inv]) (auto simp: given_def)
    ultimately show ?thesis by simp
  next
    case False
    then have "dec_cas p True v cur y = goto p Out (set_owner Readers (set_kr (cur\<lparr>kr_isDeleted := True\<rparr>) y))"
      using k kr by (simp add: dec_cas_def dec_doDelete_def dec_nxt_def)
    moreover have "rd_inv \<dots>" using k kr card [of Out] False own rd_invD(6,7) [OF inv]
      by (intro inv_excl [OF inv]) (auto simp: given_def)
    ultimately show ?thesis by simp
  qed
qed

lemma inv_dec_cas_reader:
  assumes inv: "rd_inv y" and le: "rc_next y \<le> 2 ^ 32"
    and pc: "rc_pc y p = Dec_checked False v cur" and kr: "bl_kr (rc_bl y) = cur"
  shows "rd_inv (dec_cas p False v cur y)"
proof -
  have k: "v \<in> rc_seen y" "bl_version (rc_bl y) = v" using rd_invD(2) [OF inv, of p] pc by auto
  have v0: "v \<noteq> 0" using rd_invD(6) [OF inv k(1)] le by (rule given_nonzero)
  have mem: "p \<in> holders y v" using pc by (simp add: holders_def)
  have le1: "card (holders y v) \<le> unat (kr_readers cur)" using rd_invD(5) [OF inv] k kr v0 by simp
  then have r0: "kr_readers cur \<noteq> 0" using mem finite_holders [OF inv, of v] by auto
  have card: "card (holders (goto p pc' y) v) \<le> unat (kr_readers cur - 1)" if "\<not> holds pc' v" for pc'
    using le1 mem that by (simp add: holders_goto unat_minus_one [OF r0])
  have ex: "\<not> excl (rc_pc y p)" using pc by simp
  let ?kr = "cur\<lparr>kr_readers := kr_readers cur - 1\<rparr>"
  show ?thesis
  proof (cases "kr_isDeleted cur")
    case False
    then have "dec_cas p False v cur y = goto p Out (set_kr ?kr y)"
      using kr by (simp add: dec_cas_def dec_doDelete_def dec_nxt_def)
    moreover have "rd_inv \<dots>" using card [of Out] False kr k ex by (intro inv_kr [OF inv]) auto
    ultimately show ?thesis by simp
  next
    case True
    have "rc_owner y = Readers"
    proof (cases "rc_owner y")
      case (Proc q)
      then have "excl (rc_pc y q)" using rd_invD(4) [OF inv] by simp
      moreover have "rc_pc y q \<noteq> Marked" "\<forall>u. rc_pc y q \<noteq> Freeing u"
        using rd_invD(2) [OF inv, of q] k kr v0 r0 by auto
      ultimately show ?thesis
        using rd_invD(2) [OF inv, of q] k v0 True kr by (cases "rc_pc y q") (auto simp: fresh_def)
    qed (use rd_invD(4) [OF inv] k v0 True kr in auto)
    then have own: "\<And>q. \<not> excl (rc_pc y q)" by (rule no_excl [OF inv]) simp
    show ?thesis
    proof (cases "kr_readers cur = 1")
      case one: True
      then have "dec_cas p False v cur y = goto p (Freeing v) (set_owner (Proc p) (set_kr ?kr y))"
        using kr True by (simp add: dec_cas_def dec_doDelete_def dec_nxt_def)
      moreover have "rd_inv \<dots>" using k kr card [of "Freeing v"] True one own rd_invD(6,7) [OF inv]
        by (intro inv_excl [OF inv]) (auto simp: given_def)
      ultimately show ?thesis by simp
    next
      case more: False
      then have "dec_cas p False v cur y = goto p Out (set_kr ?kr y)"
        using kr by (simp add: dec_cas_def dec_doDelete_def dec_nxt_def)
      moreover have "rd_inv \<dots>"
        using k kr card [of Out] True more own rd_invD(6,7) [OF inv] \<open>rc_owner y = Readers\<close>
        by (intro inv_excl [OF inv]) (auto simp: given_def)
      ultimately show ?thesis by simp
    qed
  qed
qed

lemma inv_dec_cas:
  assumes inv: "rd_inv y" and le: "rc_next y \<le> 2 ^ 32" and pc: "rc_pc y p = Dec_checked del v cur"
  shows "rd_inv (dec_cas p del v cur y)"
proof (cases "bl_kr (rc_bl y) = cur")
  case True
  with inv_dec_cas_del [OF inv] inv_dec_cas_reader [OF inv le] pc show ?thesis by (cases del) auto
next
  case False
  with pc rd_invD(2) [OF inv, of p] show ?thesis by (auto simp: dec_cas_def intro!: inv_goto [OF inv])
qed

text \<open>Freeing and allocating.\<close>

lemma zero_not_seen: "rd_inv y \<Longrightarrow> rc_next y \<le> 2 ^ 32 \<Longrightarrow> 0 \<notin> rc_seen y"
  using rd_invD(6) [of y 0] given_nonzero [of y 0] by auto

lemma card_fresh: "rd_inv y \<Longrightarrow> v \<notin> rc_seen y \<Longrightarrow> \<not> holds pc v \<Longrightarrow> card (holders (goto p pc y) v) = 0"
  using no_holders_fresh [of y v] by (simp add: holders_goto)

lemma inv_alone:
  assumes inv: "rd_inv y" and ex: "excl (rc_pc y p)" "excl pc" and "rc_pc y' = rc_pc y" "rc_seen y' = rc_seen y"
    "rc_next y' = rc_next y" "rc_owner y' = rc_owner y" and known: "pc_known pc y' (rc_bl y')"
    and ver: "bl_version (rc_bl y') = bl_version (rc_bl y) \<or> holders y (bl_version (rc_bl y)) = {}"
    and card: "bl_version (rc_bl y') \<noteq> 0 \<Longrightarrow> card (holders (goto p pc y) (bl_version (rc_bl y'))) = 0"
  shows "rd_inv (goto p pc y')"
  using assms(4-7) known ver card ex(2) rd_invD(3) [OF inv ex(1)] rd_invD(6,7) [OF inv] excl_others [OF inv ex(1)]
  by (intro inv_excl [OF inv]) (auto simp: given_def)

lemma inv_go:
  assumes inv: "rd_inv y" and le: "rc_next y \<le> 2 ^ 32" and go: "go_act (rc_pc y p) p y = Some y'"
  shows "rd_inv y'"
proof -
  note known = rd_invD(2) [OF inv, of p]
  note z = zero_not_seen [OF inv le]
  show ?thesis
  proof (cases "rc_pc y p")
    case (Reading v)
    with go known show ?thesis by (auto intro!: inv_goto [OF inv])
  next
    case (Freeing v)
    then have "v \<noteq> 0" using known z by auto
    then have "holders y v = {}" using Freeing known no_holders [OF inv] by simp
    with Freeing go known show ?thesis by (auto intro!: inv_alone [OF inv])
  next
    case Marked
    with go known rd_invD(6,7) [OF inv] excl_others [OF inv, of p] show ?thesis
      by (auto intro!: inv_excl [OF inv] simp: given_def)
  next
    case (Alloc_taken ver)
    with go known show ?thesis by (auto intro!: inv_alone [OF inv] simp: fresh_def given_def)
  next
    case (Alloc_kr ver)
    with go known z no_holders_fresh [OF inv, of 0] card_fresh [OF inv, of ver "Alloc_both ver" p] show ?thesis
      by (auto intro!: inv_alone [OF inv] simp: fresh_def given_def)
  next
    case (Alloc_ver ver)
    with go known card_fresh [OF inv, of ver "Alloc_both ver" p] show ?thesis
      by (auto intro!: inv_alone [OF inv] simp: fresh_def given_def)
  next
    case (Alloc_both ver)
    with go known show ?thesis by (auto intro!: inv_goto [OF inv])
  next
    case (Alloc_loaded ver cur)
    with go known card_fresh [OF inv, of ver "Alloc_key ver" p] show ?thesis
      by (auto intro!: inv_alone [OF inv] simp: fresh_def given_def)
  next
    case (Alloc_key ver)
    with go known show ?thesis by (auto intro!: inv_goto [OF inv])
  next
    case (Alloc_reloaded ver cur)
    with go known card_fresh [OF inv, of ver "Alloc_done ver" p] show ?thesis
      by (auto intro!: inv_alone [OF inv] simp: fresh_def given_def)
  next
    case (Alloc_done ver)
    then have "\<not> holds Out ver" "ver \<notin> rc_seen y" using known by (auto simp: fresh_def)
    with Alloc_done go known card_fresh [OF inv, of ver Out p] rd_invD(6,7) [OF inv] excl_others [OF inv, of p]
    show ?thesis by (auto intro!: inv_excl [OF inv] simp: fresh_def given_def)
  qed (use go inv_inc_check inv_inc_cas inv_dec_check inv_dec_cas [OF inv le] inv in auto)
qed

lemma fresh_take:
  assumes inv: "rd_inv y" and "rc_next y \<le> c" and "c < 2 ^ 32"
  shows "of_nat c \<notin> rc_seen y"
proof
  assume "of_nat c \<in> rc_seen y"
  then obtain c' where "c' < rc_next y" "(of_nat c :: u32) = of_nat c'"
    using rd_invD(6) [OF inv] by (auto simp: given_def)
  moreover have "unat (of_nat c :: u32) = c" using assms(3) by (rule unat_of_nat_u32)
  moreover have "c' < 2 ^ 32" using calculation(1) assms(2,3) by simp
  then have "unat (of_nat c' :: u32) = c'" by (rule unat_of_nat_u32)
  ultimately show False using assms(2) by simp
qed

lemma inv_out:
  assumes inv: "rd_inv y" and pc: "rc_pc y p = Out" and act: "out_act a p y = Some y'" and le: "rc_next y' \<le> 2 ^ 32"
  shows "rd_inv y'"
proof (cases a)
  case (A_inc v)
  with act pc show ?thesis by (auto simp: out_act_def intro!: inv_goto [OF inv] split: if_splits)
next
  case A_del
  let ?V = "bl_version (rc_bl y)"
  from A_del act have own: "rc_owner y = Table"
    and y': "y' = goto p (Dec_loaded True ?V (bl_kr (rc_bl y))) (set_owner (Proc p) y)"
    by (auto simp: out_act_def split: if_splits)
  have "card (holders (goto p (Dec_loaded True ?V (bl_kr (rc_bl y))) y) ?V) \<le> unat (kr_readers (bl_kr (rc_bl y)))"
    if "?V \<noteq> 0"
    using card_after [OF inv, of p "Dec_loaded True ?V (bl_kr (rc_bl y))" ?V] rd_invD(5) [OF inv that] by simp
  with own rd_invD(4) [OF inv] no_excl [OF inv own] rd_invD(6,7) [OF inv] show ?thesis
    unfolding y' by (intro inv_excl [OF inv]) (auto simp: given_def)
next
  case (A_take c)
  from A_take act have own: "rc_owner y = Free_list" and c: "rc_next y \<le> c"
    and y': "y' = goto p (Alloc_taken (of_nat c)) (set_owner (Proc p) (y\<lparr>rc_next := Suc c\<rparr>))"
    by (auto simp: out_act_def split: if_splits)
  have "of_nat c \<notin> rc_seen y" using c le unfolding y' by (intro fresh_take [OF inv]) simp_all
  moreover have "given y v \<Longrightarrow> given (y\<lparr>rc_next := Suc c\<rparr>) v" for v
    using c by (auto simp: given_def)
  moreover have "\<exists>d \<ge> Suc 0. d < Suc c \<and> (of_nat c :: u32) = of_nat d"
    using rd_invD(7) [OF inv] c by (intro exI [of _ c]) simp
  ultimately show ?thesis
    using own rd_invD(4) [OF inv] no_excl [OF inv own] rd_invD(6,7) [OF inv] c
    unfolding y' by (intro inv_excl [OF inv]) (auto simp: fresh_def given_def)
qed (use act in \<open>simp_all add: out_act_def\<close>)

lemma inv_step:
  assumes inv: "rd_inv y" and step: "rd_step a p y = Some y'" and le: "rc_next y \<le> 2 ^ 32" "rc_next y' \<le> 2 ^ 32"
  shows "rd_inv y'"
proof -
  note known = rd_invD(2) [OF inv, of p]
  consider (go) "go_act (rc_pc y p) p y = Some y'" | (out) "rc_pc y p = Out" "out_act a p y = Some y'"
    | (first) ver where "rc_pc y p = Alloc_taken ver" "y' = goto p (Alloc_ver ver) (set_ver ver y)"
    | (quit) v where "rc_pc y p = Reading v" "y' = goto p Out y"
    | (drp) ver where "rc_pc y p = Alloc_done ver"
      "y' = goto p (Dec_loaded True ver (bl_kr (rc_bl y))) (y\<lparr>rc_seen := insert ver (rc_seen y)\<rparr>)"
    using step by (auto simp: rd_step_def split: rd_act.splits rd_pc.splits)
  then show ?thesis
  proof cases
    case go
    then show ?thesis by (rule inv_go [OF inv le(1)])
  next
    case out
    then show ?thesis using le(2) by (rule inv_out [OF inv])
  next
    case first
    with known zero_not_seen [OF inv le(1)] no_holders_fresh [OF inv, of 0] card_fresh [OF inv, of ver "Alloc_ver ver" p]
    show ?thesis by (auto intro!: inv_alone [OF inv] simp: fresh_def given_def)
  next
    case quit
    then show ?thesis by (auto intro!: inv_goto [OF inv])
  next
    case drp
    then have "ver \<notin> rc_seen y" using known by (auto simp: fresh_def)
    with drp known card_fresh [OF inv, of ver "Dec_loaded True ver (bl_kr (rc_bl y))" p] rd_invD(6,7) [OF inv]
      excl_others [OF inv, of p] rd_invD(3) [OF inv, of p]
    show ?thesis by (auto intro!: inv_excl [OF inv] simp: fresh_def given_def)
  qed
qed

lemma next_mono: "rd_step a p y = Some y' \<Longrightarrow> rc_next y \<le> rc_next y'"
  by (cases "rc_pc y p") (auto simp: rd_act_defs Let_def split: rd_act.splits if_splits)

lemma rd_start_inv: "rd_inv rd_start"
  by (simp add: rd_inv_def rd_start_def BlkLst0_def BlkLst_def)

lemma reach_inv: "rd_reach y \<Longrightarrow> rc_next y \<le> 2 ^ 32 \<Longrightarrow> rd_inv y"
proof (induction rule: rd_reach.induct)
  case rd_init
  show ?case by (rule rd_start_inv)
next
  case (rd_next y a p y')
  then show ?case using next_mono [OF rd_next.hyps(2)] by (intro inv_step [OF _ rd_next.hyps(2)]) simp_all
qed

section \<open>Properties\<close>

lemma busy_no_holders:
  assumes inv: "rd_inv y" and le: "rc_next y \<le> 2 ^ 32" and busy: "frees (rc_pc y p) \<or> allocs (rc_pc y p)"
  shows "holders y (bl_version (rc_bl y)) = {}"
  using rd_invD(2) [OF inv, of p] busy no_holders [OF inv] no_holders_fresh [OF inv] zero_not_seen [OF inv le]
  by (cases "rc_pc y p"; cases "bl_version (rc_bl y) = 0") (auto simp: fresh_def)

lemma free_no_holders: "rd_inv y \<Longrightarrow> rc_next y \<le> 2 ^ 32 \<Longrightarrow> rc_owner y = Free_list \<Longrightarrow>
  holders y (bl_version (rc_bl y)) = {}"
  using rd_invD(4) [of y] no_holders_fresh [of y 0] zero_not_seen [of y] by simp

lemma version_kept: "rd_step a q y = Some y' \<Longrightarrow> \<not> frees (rc_pc y q) \<Longrightarrow> \<not> allocs (rc_pc y q) \<Longrightarrow>
  bl_version (rc_bl y') = bl_version (rc_bl y)"
  by (cases "rc_pc y q") (auto simp: rd_act_defs Let_def split: rd_act.splits if_splits)

text \<open>C2. The reader counts protect the first block of a chain in every interleaving of these steps in which
  fewer than \<open>2 ^ 32\<close> versions have been given, the free list hands the block out only after it was
  returned, and a table entry is taken out by one process: while a process frees the block or sets it up
  for a new value, no other process frees, deletes or sets it up, and no process holds a count on its
  version; and while some process holds a count on its version, the block is not in the free list and
  no access of any process changes its version.\<close>

theorem conc_reader_protects:
  assumes "rd_reach y" and "rc_next y \<le> 2 ^ 32"
  shows "(frees (rc_pc y p) \<or> allocs (rc_pc y p) \<longrightarrow>
      \<not> holds (rc_pc y q) (bl_version (rc_bl y)) \<and>
      (q \<noteq> p \<longrightarrow> \<not> frees (rc_pc y q) \<and> \<not> allocs (rc_pc y q) \<and> \<not> deletes (rc_pc y q))) \<and>
    (holds (rc_pc y p) (bl_version (rc_bl y)) \<longrightarrow>
      rc_owner y \<noteq> Free_list \<and> (\<forall>a y'. rd_step a q y = Some y' \<longrightarrow> bl_version (rc_bl y') = bl_version (rc_bl y)))"
proof -
  have inv: "rd_inv y" using assms by (rule reach_inv)
  have "frees (rc_pc y p) \<or> allocs (rc_pc y p) \<Longrightarrow>
      \<not> holds (rc_pc y q) (bl_version (rc_bl y)) \<and>
      (q \<noteq> p \<longrightarrow> \<not> frees (rc_pc y q) \<and> \<not> allocs (rc_pc y q) \<and> \<not> deletes (rc_pc y q))"
    using busy_no_holders [OF inv assms(2), of p] excl_others [OF inv, of p q] by (auto simp: holders_def)
  moreover have "rc_owner y \<noteq> Free_list \<and> (\<forall>a y'. rd_step a q y = Some y' \<longrightarrow> bl_version (rc_bl y') = bl_version (rc_bl y))"
    if "holds (rc_pc y p) (bl_version (rc_bl y))"
  proof -
    from that have "holders y (bl_version (rc_bl y)) \<noteq> {}" by (auto simp: holders_def)
    then show ?thesis
      using busy_no_holders [OF inv assms(2), of q] free_no_holders [OF inv assms(2)] version_kept [of _ q y] by auto
  qed
  ultimately show ?thesis by blast
qed

lemma reach_run: "rd_reach y \<Longrightarrow> rd_run xs y = Some z \<Longrightarrow> rd_reach z"
proof (induction xs arbitrary: y)
  case Nil
  then show ?case by simp
next
  case (Cons x xs)
  then show ?case by (cases x; cases "rd_step (snd x) (fst x) y") (auto intro: rd_next)
qed

definition alloc_acts :: "nat \<Rightarrow> nat \<Rightarrow> (nat \<times> rd_act) list" where
  "alloc_acts p c = (p, A_take c) # replicate 7 (p, A_go)"

lemmas rd_eval = alloc_acts_def eval_nat_numeral rd_start_def rd_act_defs goto_def set_kr_def set_ver_def set_owner_def
  BlkLst0_def BlkLst_def dec_doDelete_def dec_nxt_def

theorem conc_reader_protects_witness:
  "\<exists>y. rd_run (alloc_acts 0 1 @ (1, A_inc 1) # replicate 2 (1, A_go) @ (0, A_del) # replicate 2 (0, A_go)) rd_start = Some y \<and>
    rc_pc y 1 = Reading 1 \<and> kr_isDeleted (bl_kr (rc_bl y)) \<and> rc_owner y \<noteq> Free_list"
proof -
  have "\<exists>y. rd_run (alloc_acts 0 1 @ (1, A_inc 1) # replicate 2 (1, A_go) @ (0, A_del) # replicate 2 (0, A_go)) rd_start = Some y \<and>
    rc_pc y 1 = Reading 1 \<and> kr_isDeleted (bl_kr (rc_bl y)) \<and> bl_version (rc_bl y) = 1 \<and> rc_next y = 2"
    by (simp add: rd_eval)
  then obtain y where y: "rd_run (alloc_acts 0 1 @ (1, A_inc 1) # replicate 2 (1, A_go) @ (0, A_del) # replicate 2 (0, A_go)) rd_start = Some y"
    "rc_pc y 1 = Reading 1" "kr_isDeleted (bl_kr (rc_bl y))" "bl_version (rc_bl y) = 1" "rc_next y = 2"
    by (elim exE conjE)
  have "rd_reach y" by (rule reach_run [OF rd_init y(1)])
  from conc_reader_protects [OF this, of 1] y show ?thesis by auto
qed

text \<open>Once every process is out or about to find the block deleted, nothing changes it any more.\<close>

definition stuck :: "rd_conc \<Rightarrow> bool" where
  "stuck y \<longleftrightarrow> rc_owner y = Readers \<and> kr_isDeleted (bl_kr (rc_bl y)) \<and>
     (\<forall>p. rc_pc y p = Out \<or> (\<exists>v. rc_pc y p = Inc_loaded v (bl_kr (rc_bl y))))"

lemma stuck_step: "stuck y \<Longrightarrow> rd_step a p y = Some y' \<Longrightarrow> stuck y'"
  unfolding stuck_def
  by (elim conjE, frule spec [of _ p], cases "rc_pc y p") (auto simp: rd_act_defs split: rd_act.splits if_splits)

lemma stuck_run: "stuck y \<Longrightarrow> pred_option stuck (rd_run xs y)"
proof (induction xs arbitrary: y)
  case Nil
  then show ?case by simp
next
  case (Cons x xs)
  then show ?case using stuck_step by (cases x; cases "rd_step (snd x) (fst x) y") auto
qed

text \<open>C30. A reader that is overtaken loses a block for good: process 1 checks the version of the block,
  process 0 frees the block and allocates it again, process 1 then counts itself on the new value, which
  its decrement does not undo because the version is another one. When process 0 deletes the new value
  as well, no process holds a count, but the block waits for its last reader, and whatever the
  processes do afterwards it never returns to the free list.\<close>

theorem conc_overtaken_reader_leaks:
  "\<exists>y. rd_run (alloc_acts 0 1 @ [(1, A_inc 1), (1, A_go)] @ (0, A_del) # replicate 4 (0, A_go) @ alloc_acts 0 2 @
      replicate 3 (1, A_go) @ [(0, A_del), (0, A_go), (0, A_go)]) rd_start = Some y \<and>
    (\<forall>p. rc_pc y p = Out) \<and> rc_owner y = Readers \<and> kr_readers (bl_kr (rc_bl y)) = 1 \<and>
    (\<forall>xs. pred_option (\<lambda>z. rc_owner z = Readers) (rd_run xs y))"
proof -
  have "\<exists>y. rd_run (alloc_acts 0 1 @ [(1, A_inc 1), (1, A_go)] @ (0, A_del) # replicate 4 (0, A_go) @ alloc_acts 0 2 @
      replicate 3 (1, A_go) @ [(0, A_del), (0, A_go), (0, A_go)]) rd_start = Some y \<and>
    (\<forall>p. rc_pc y p = Out) \<and> rc_owner y = Readers \<and> kr_isDeleted (bl_kr (rc_bl y)) \<and> kr_readers (bl_kr (rc_bl y)) = 1"
    by (simp add: rd_eval)
  then obtain y where y: "rd_run (alloc_acts 0 1 @ [(1, A_inc 1), (1, A_go)] @ (0, A_del) # replicate 4 (0, A_go) @
      alloc_acts 0 2 @ replicate 3 (1, A_go) @ [(0, A_del), (0, A_go), (0, A_go)]) rd_start = Some y"
    "\<forall>p. rc_pc y p = Out" "rc_owner y = Readers" "kr_isDeleted (bl_kr (rc_bl y))" "kr_readers (bl_kr (rc_bl y)) = 1"
    by (elim exE conjE)
  then have "stuck y" by (simp add: stuck_def)
  then have "pred_option (\<lambda>z. rc_owner z = Readers) (rd_run xs y)" for xs
    using stuck_run [of y xs] by (auto simp: option.pred_set stuck_def)
  with y show ?thesis by blast
qed

end
