(* ===== verification/Shm_Slots_Conc.thy ===== *)
theory Shm_Slots_Conc
  imports Shm_Hash_Inv
begin

text \<open>
  The slots of \<open>CncrHsh\<close> under interleaving: \<open>put\<close> and \<open>del\<close> of any number of processes, one access to the
  table at a time. What the comparison of a key answers depends on the block store, which other
  processes change: each step takes it as a choice. Of an allocation only the version index it
  returned is modelled. \<open>sl_given\<close>, \<open>sl_freed\<close> and \<open>sl_lost\<close> record the version indices allocated, freed
  and dropped; the code reads none of them.
\<close>

section \<open>Steps\<close>

text \<open>Where a process is: in \<open>putHashed\<close> with the version index to insert, the last slot \<open>en\<close> and the
  present one, in \<open>delHashed\<close>, or about to free what it took out.\<close>

datatype sl_pc = Outside
  | Put_at ver_idx u32 u32 | Put_cmp ver_idx u32 u32 ver_idx | Put_cas ver_idx u32 u32 ver_idx
  | Del_at u32 u32 | Del_cmp u32 u32 ver_idx | Del_cas u32 u32 ver_idx
  | Take_free ver_idx

record sl_conc =
  sl_h :: cncr_hsh
  sl_pc :: "nat \<Rightarrow> sl_pc"
  sl_given :: "ver_idx set"
  sl_freed :: "ver_idx list"
  sl_lost :: "ver_idx set"

definition real_vi :: "ver_idx \<Rightarrow> bool" where "real_vi vi \<longleftrightarrow> vi_idx vi < DELETED"

definition sl_goto :: "nat \<Rightarrow> sl_pc \<Rightarrow> sl_conc \<Rightarrow> sl_conc" where
  "sl_goto p pc y = y\<lparr>sl_pc := (sl_pc y)(p := pc)\<rparr>"

inductive slot_step :: "nat \<Rightarrow> sl_conc \<Rightarrow> sl_conc \<Rightarrow> bool" for p where
  put_start: "sl_pc y p = Outside \<Longrightarrow> real_vi v \<Longrightarrow> v \<notin> sl_given y \<Longrightarrow> i = hash mod ch_sz (sl_h y) \<Longrightarrow>
    slot_step p y (sl_goto p (Put_at v (prevIdx (sl_h y) i) i) (y\<lparr>sl_given := insert v (sl_given y)\<rparr>))"
| put_load: "sl_pc y p = Put_at v en i \<Longrightarrow> load (sl_h y) i = Some vi \<Longrightarrow>
    slot_step p y (sl_goto p (if DELETED \<le> vi_idx vi then Put_cas v en i vi else Put_cmp v en i vi) y)"
| put_differs: "sl_pc y p = Put_cmp v en i vi \<Longrightarrow> i \<noteq> en \<Longrightarrow>
    slot_step p y (sl_goto p (Put_at v en (nxtIdx (sl_h y) i)) y)"
| put_full: "sl_pc y p = Put_cmp v en en vi \<Longrightarrow>
    slot_step p y (sl_goto p Outside (y\<lparr>sl_lost := insert v (sl_lost y)\<rparr>))"
| put_matches: "sl_pc y p = Put_cmp v en i vi \<Longrightarrow> slot_step p y (sl_goto p (Put_cas v en i vi) y)"
| put_cas: "sl_pc y p = Put_cas v en i vi \<Longrightarrow> cmpex_vi (sl_h y) i vi v = Some (success, h') \<Longrightarrow>
    slot_step p y (if success
      then sl_goto p (if vi_idx vi < DELETED then Take_free vi else Outside) (y\<lparr>sl_h := h'\<rparr>)
      else sl_goto p (Put_at v en (nxtIdx (sl_h y) (prevIdx (sl_h y) i))) y)"
| del_start: "sl_pc y p = Outside \<Longrightarrow> i = hash mod ch_sz (sl_h y) \<Longrightarrow>
    slot_step p y (sl_goto p (Del_at (prevIdx (sl_h y) i) i) y)"
| del_end: "sl_pc y p = Del_at en en \<Longrightarrow> slot_step p y (sl_goto p Outside y)"
| del_load: "sl_pc y p = Del_at en i \<Longrightarrow> i \<noteq> en \<Longrightarrow> load (sl_h y) i = Some vi \<Longrightarrow>
    slot_step p y (sl_goto p (if DELETED \<le> vi_idx vi then Del_at en (nxtIdx (sl_h y) i) else Del_cmp en i vi) y)"
| del_differs: "sl_pc y p = Del_cmp en i vi \<Longrightarrow> slot_step p y (sl_goto p (Del_at en (nxtIdx (sl_h y) i)) y)"
| del_removed: "sl_pc y p = Del_cmp en i vi \<Longrightarrow> slot_step p y (sl_goto p Outside y)"
| del_matches: "sl_pc y p = Del_cmp en i vi \<Longrightarrow> slot_step p y (sl_goto p (Del_cas en i vi) y)"
| del_cas: "sl_pc y p = Del_cas en i vi \<Longrightarrow> cmpex_vi (sl_h y) i vi deleted_vi = Some (success, h') \<Longrightarrow>
    slot_step p y (if success then sl_goto p (Take_free vi) (y\<lparr>sl_h := h'\<rparr>)
      else sl_goto p (Del_at en (nxtIdx (sl_h y) (prevIdx (sl_h y) i))) y)"
| take_free: "sl_pc y p = Take_free vi \<Longrightarrow>
    slot_step p y (sl_goto p Outside (y\<lparr>sl_freed := vi # sl_freed y\<rparr>))"

definition slots_start :: "cncr_hsh \<Rightarrow> sl_conc" where
  "slots_start h = \<lparr>sl_h = h, sl_pc = (\<lambda>p. Outside), sl_given = {}, sl_freed = [], sl_lost = {}\<rparr>"

inductive slots_reach :: "cncr_hsh \<Rightarrow> sl_conc \<Rightarrow> bool" for h where
  slots_init: "slots_reach h (slots_start h)"
| slots_next: "slots_reach h y \<Longrightarrow> slot_step p y y' \<Longrightarrow> slots_reach h y'"

section \<open>Where a version index is\<close>

datatype place = In_slot u32 | Held nat | Freed | Lost

fun holding :: "sl_pc \<Rightarrow> ver_idx option" where
  "holding (Put_at v _ _) = Some v"
| "holding (Put_cmp v _ _ _) = Some v"
| "holding (Put_cas v _ _ _) = Some v"
| "holding (Take_free v) = Some v"
| "holding _ = None"

definition places :: "sl_conc \<Rightarrow> ver_idx \<Rightarrow> place set" where
  "places y v = {In_slot i |i. i < ch_sz (sl_h y) \<and> slot (sl_h y) i = v} \<union> {Held p |p. holding (sl_pc y p) = Some v} \<union>
     (if v \<in> set (sl_freed y) then {Freed} else {}) \<union> (if v \<in> sl_lost y then {Lost} else {})"

lemma in_places [simp]:
  "In_slot i \<in> places y v \<longleftrightarrow> i < ch_sz (sl_h y) \<and> slot (sl_h y) i = v"
  "Held p \<in> places y v \<longleftrightarrow> holding (sl_pc y p) = Some v"
  "Freed \<in> places y v \<longleftrightarrow> v \<in> set (sl_freed y)"
  "Lost \<in> places y v \<longleftrightarrow> v \<in> sl_lost y"
  by (auto simp: places_def)

lemma sl_goto_simps [simp]: "sl_h (sl_goto p pc y) = sl_h y" "sl_given (sl_goto p pc y) = sl_given y"
  "sl_freed (sl_goto p pc y) = sl_freed y" "sl_lost (sl_goto p pc y) = sl_lost y"
  "sl_pc (sl_goto p pc y) = (sl_pc y)(p := pc)"
  by (simp_all add: sl_goto_def)

lemma place_eqI: "(\<And>x. x \<in> A \<longleftrightarrow> x \<in> B) \<Longrightarrow> A = (B :: place set)"
  by blast

lemma places_goto: "places (sl_goto p pc y) v = places y v - {Held p} \<union> (if holding pc = Some v then {Held p} else {})"
  by (rule place_eqI, case_tac x) auto

lemma places_slot: "hsh_wf (sl_h y) \<Longrightarrow> i < ch_sz (sl_h y) \<Longrightarrow>
  places (y\<lparr>sl_h := set_slot (sl_h y) i w\<rparr>) v = places y v - {In_slot i} \<union> (if v = w then {In_slot i} else {})"
  by (rule place_eqI, case_tac x) (auto simp: slot_set)

lemma places_ghost [simp]: "places (y\<lparr>sl_given := G\<rparr>) v = places y v"
  "places (y\<lparr>sl_freed := w # sl_freed y\<rparr>) v = places y v \<union> (if v = w then {Freed} else {})"
  "places (y\<lparr>sl_lost := insert w (sl_lost y)\<rparr>) v = places y v \<union> (if v = w then {Lost} else {})"
  by (auto simp: places_def)

section \<open>Invariant\<close>

primrec sl_known :: "sl_pc \<Rightarrow> u32 \<Rightarrow> bool" where
  "sl_known Outside sz = True"
| "sl_known (Put_at v en i) sz = real_vi v"
| "sl_known (Put_cmp v en i vi) sz = (real_vi v \<and> real_vi vi \<and> i < sz)"
| "sl_known (Put_cas v en i vi) sz = (real_vi v \<and> i < sz)"
| "sl_known (Del_at en i) sz = True"
| "sl_known (Del_cmp en i vi) sz = (real_vi vi \<and> i < sz)"
| "sl_known (Del_cas en i vi) sz = (real_vi vi \<and> i < sz)"
| "sl_known (Take_free vi) sz = real_vi vi"

definition sl_inv :: "sl_conc \<Rightarrow> bool" where
  "sl_inv y \<longleftrightarrow> hsh_wf (sl_h y) \<and> distinct (sl_freed y) \<and> (\<forall>p. sl_known (sl_pc y p) (ch_sz (sl_h y))) \<and>
     (\<forall>v. real_vi v \<longrightarrow> (if v \<in> sl_given y then \<exists>x. places y v = {x} else places y v = {}))"

lemma holding_real: "sl_known pc sz \<Longrightarrow> holding pc = Some v \<Longrightarrow> real_vi v"
  by (cases pc) auto

lemma sl_inv_places: "sl_inv y \<Longrightarrow> real_vi v \<Longrightarrow> x \<in> places y v \<Longrightarrow> v \<in> sl_given y \<and> places y v = {x}"
  unfolding sl_inv_def by (elim conjE, drule spec [of _ v]) (auto split: if_splits)

lemma sl_inv_held: "sl_inv y \<Longrightarrow> holding (sl_pc y p) = Some v \<Longrightarrow> v \<in> sl_given y \<and> places y v = {Held p}"
  using sl_inv_places [of y v "Held p"] holding_real [of "sl_pc y p" "ch_sz (sl_h y)" v] by (simp add: sl_inv_def)

lemma cmpex_cases:
  assumes "hsh_wf h" and "i < ch_sz h" and "cmpex_vi h i ex d = Some (ok, h')"
  shows "ok \<and> slot h i = ex \<and> h' = set_slot h i d \<or> \<not> ok \<and> h' = h"
proof (cases "slot h i = ex")
  case True
  then show ?thesis using cmpex_slot [OF assms(1,2), of d] assms(3) by auto
next
  case False
  then have "ch_vis h ! unat i \<noteq> enc i ex" by (auto simp: slot_def)
  then have "cmpex_vi h i ex d = Some (False, h)"
    using assms(1,2) unfolding cmpex_vi_def Let_def
    by (simp add: arr_simps hsh_wf_def word_less_nat_alt) (simp add: enc_def split: if_splits)
  with assms(3) show ?thesis by simp
qed

text \<open>A step that keeps what the process holds.\<close>

lemma sl_inv_goto:
  assumes "sl_inv y" and "sl_known pc (ch_sz (sl_h y))" and "holding pc = holding (sl_pc y p)"
  shows "sl_inv (sl_goto p pc y)"
proof -
  have "places (sl_goto p pc y) v = places y v" for v
    using assms(3) by (intro place_eqI) (case_tac x, auto)
  with assms(1,2) show ?thesis by (simp add: sl_inv_def)
qed

lemma sl_inv_swap:
  assumes inv: "sl_inv y" and i: "i < ch_sz (sl_h y)" and had: "holding (sl_pc y p) = (if real_vi new then Some new else None)"
    and pc: "holding pc = (if real_vi (slot (sl_h y) i) then Some (slot (sl_h y) i) else None)"
    and known: "sl_known pc (ch_sz (sl_h y))"
  shows "sl_inv (sl_goto p pc (y\<lparr>sl_h := set_slot (sl_h y) i new\<rparr>))"
proof -
  define y' where "y' = sl_goto p pc (y\<lparr>sl_h := set_slot (sl_h y) i new\<rparr>)"
  have wf: "hsh_wf (sl_h y)" using inv by (simp add: sl_inv_def)
  have move: "places y' v = (places y v - {In_slot i} \<union> (if v = new then {In_slot i} else {})) - {Held p} \<union>
      (if holding pc = Some v then {Held p} else {})" for v
    by (simp add: y'_def places_goto places_slot [OF wf i])
  have given: "sl_given y' = sl_given y" by (simp add: y'_def)
  have "if v \<in> sl_given y' then \<exists>x. places y' v = {x} else places y' v = {}" if v: "real_vi v" for v
  proof (cases "slot (sl_h y) i = v")
    case True
    then have at: "v \<in> sl_given y" "places y v = {In_slot i}" using sl_inv_places [OF inv v, of "In_slot i"] i by auto
    have "v \<noteq> new"
    proof
      assume "v = new"
      then have "holding (sl_pc y p) = Some v" using had v by simp
      from sl_inv_held [OF inv this] at(2) show False by simp
    qed
    moreover have "holding pc = Some v" using pc True v by simp
    ultimately have "places y' v = {Held p}" by (simp add: move at(2))
    then show ?thesis using at(1) given by simp
  next
    case old: False
    then have pcv: "holding pc \<noteq> Some v" using pc by simp
    show ?thesis
    proof (cases "v = new")
      case True
      then have "holding (sl_pc y p) = Some v" using had v by simp
      then have at: "v \<in> sl_given y" "places y v = {Held p}" using sl_inv_held [OF inv] by blast+
      then have "places y' v = {In_slot i}" using True pcv by (simp add: move at(2)) blast
      then show ?thesis using at(1) given by simp
    next
      case False
      have "In_slot i \<notin> places y v" "Held p \<notin> places y v" using old had False by auto
      then have "places y' v = places y v" using False pcv by (simp add: move)
      then show ?thesis using inv v given by (simp add: sl_inv_def)
    qed
  qed
  moreover have "sl_known (((sl_pc y)(p := pc)) q) (ch_sz (sl_h y))" for q
    using inv known by (simp add: sl_inv_def)
  ultimately have "sl_inv y'" using inv by (simp add: sl_inv_def) (simp add: y'_def)
  then show ?thesis by (simp add: y'_def)
qed

lemma sl_inv_given:
  assumes inv: "sl_inv y" and "sl_pc y p = Outside" and v: "real_vi v" "v \<notin> sl_given y"
  shows "sl_inv (sl_goto p (Put_at v en i) (y\<lparr>sl_given := insert v (sl_given y)\<rparr>))"
proof -
  let ?y = "sl_goto p (Put_at v en i) (y\<lparr>sl_given := insert v (sl_given y)\<rparr>)"
  have "Held p \<notin> places y w" for w using assms(2) by simp
  then have "places ?y w = places y w \<union> (if w = v then {Held p} else {})" for w
    by (auto simp: places_goto)
  with inv v show ?thesis by (auto simp: sl_inv_def)
qed

text \<open>A process gives up what it held: it frees it, or it drops it because the table is full.\<close>

lemma sl_inv_gives_up:
  assumes inv: "sl_inv y" and held: "holding (sl_pc y p) = Some v" and "sl_given y' = sl_given y" and "sl_h y' = sl_h y"
    and "sl_pc y' = sl_pc y" and "distinct (sl_freed y) \<Longrightarrow> Freed \<notin> places y v \<Longrightarrow> distinct (sl_freed y')"
    and new: "\<And>w. places y' w = places y w \<union> (if w = v then {x} else {})" and "x \<noteq> Held p"
  shows "sl_inv (sl_goto p Outside y')"
proof -
  have h: "v \<in> sl_given y" "places y v = {Held p}" using sl_inv_held [OF inv held] by auto
  have "distinct (sl_freed y')" using assms(6) h inv by (simp add: sl_inv_def)
  moreover have "if w \<in> sl_given y' then \<exists>x. places (sl_goto p Outside y') w = {x} else places (sl_goto p Outside y') w = {}"
    if "real_vi w" for w
  proof (cases "w = v")
    case True
    then show ?thesis using h new [of v] assms(3,8) by (auto simp: places_goto)
  next
    case False
    then have "Held p \<notin> places y w" using held by simp
    then have "places (sl_goto p Outside y') w = places y w" using new [of w] False by (auto simp: places_goto)
    then show ?thesis using inv that assms(3) by (simp add: sl_inv_def)
  qed
  ultimately show ?thesis using inv assms(4,5) by (simp add: sl_inv_def)
qed

lemma load_range: "load h i = Some vi \<Longrightarrow> i < ch_sz h"
  by (simp add: load_def split: if_splits)

lemma deleted_not_real [simp]: "\<not> real_vi deleted_vi" and empty_not_real [simp]: "\<not> real_vi empty_vi"
  by (simp_all add: real_vi_def deleted_vi_def empty_vi_def DELETED_def EMPTY_def)

lemma sl_inv_known: "sl_inv y \<Longrightarrow> sl_pc y p = pc \<Longrightarrow> sl_known pc (ch_sz (sl_h y))"
  by (auto simp: sl_inv_def)

lemma sl_inv_step:
  assumes "slot_step p y y'" and inv: "sl_inv y"
  shows "sl_inv y'"
  using assms(1)
proof cases
  case (put_start v i hash)
  then show ?thesis using sl_inv_given [OF inv] by simp
next
  case (put_load v en i vi)
  with sl_inv_known [OF inv put_load(2)] show ?thesis
    by (auto intro!: sl_inv_goto [OF inv] dest: load_range simp: real_vi_def not_le)
next
  case (put_full v en vi)
  then show ?thesis by (auto intro!: sl_inv_gives_up [OF inv, of p v _ Lost])
next
  case (put_cas v en i vi success h')
  have k: "real_vi v" "i < ch_sz (sl_h y)" using sl_inv_known [OF inv put_cas(2)] by auto
  have wf: "hsh_wf (sl_h y)" using inv by (simp add: sl_inv_def)
  show ?thesis
  proof (cases success)
    case True
    then have s: "slot (sl_h y) i = vi" "h' = set_slot (sl_h y) i v"
      using cmpex_cases [OF wf k(2) put_cas(3)] by simp_all
    let ?pc = "if vi_idx vi < DELETED then Take_free vi else Outside"
    have "sl_inv (sl_goto p ?pc (y\<lparr>sl_h := set_slot (sl_h y) i v\<rparr>))"
      using s(1) put_cas(2) k by (intro sl_inv_swap [OF inv k(2)]) (auto simp: real_vi_def)
    with True s(2) put_cas(1) show ?thesis by simp
  next
    case False
    with put_cas k show ?thesis by (auto intro!: sl_inv_goto [OF inv])
  qed
next
  case (del_cas en i vi success h')
  have k: "real_vi vi" "i < ch_sz (sl_h y)" using sl_inv_known [OF inv del_cas(2)] by auto
  have wf: "hsh_wf (sl_h y)" using inv by (simp add: sl_inv_def)
  show ?thesis
  proof (cases success)
    case True
    then have s: "slot (sl_h y) i = vi" "h' = set_slot (sl_h y) i deleted_vi"
      using cmpex_cases [OF wf k(2) del_cas(3)] by simp_all
    have "sl_inv (sl_goto p (Take_free vi) (y\<lparr>sl_h := set_slot (sl_h y) i deleted_vi\<rparr>))"
      using s(1) del_cas(2) k by (intro sl_inv_swap [OF inv k(2)]) auto
    with True s(2) del_cas(1) show ?thesis by simp
  next
    case False
    with del_cas k show ?thesis by (auto intro!: sl_inv_goto [OF inv])
  qed
next
  case (del_load en i vi)
  then show ?thesis by (auto intro!: sl_inv_goto [OF inv] dest: load_range simp: real_vi_def not_le)
next
  case (take_free vi)
  then show ?thesis by (auto intro!: sl_inv_gives_up [OF inv, of p vi _ Freed])
qed (use sl_inv_known [OF inv] inv in \<open>fastforce intro!: sl_inv_goto\<close>)+

lemma slots_reach_inv:
  assumes "slots_reach h y" and "hsh_wf h" and "\<forall>p < ch_sz h. \<not> real_vi (slot h p)"
  shows "sl_inv y"
  using assms(1)
proof induction
  case slots_init
  have "places (slots_start h) v = {}" if "real_vi v" for v
    using assms(3) that by (auto simp: places_def slots_start_def)
  with assms(2) show ?case by (simp add: sl_inv_def) (simp add: slots_start_def)
next
  case (slots_next y p y')
  then show ?case using sl_inv_step by blast
qed

section \<open>A process alone\<close>

text \<open>What the sequential \<open>putHashed\<close> does to the slots, a process does by steps of its own; \<open>same_slots\<close>
  says that two tables differ in their block stores only.\<close>

definition same_slots :: "cncr_hsh \<Rightarrow> cncr_hsh \<Rightarrow> bool" where
  "same_slots g h \<longleftrightarrow> ch_sz g = ch_sz h \<and> ch_vis g = ch_vis h"

lemma same_slots_access:
  assumes "same_slots g h"
  shows "load g i = load h i" and "nxtIdx g i = nxtIdx h i" and "prevIdx g i = prevIdx h i"
    and "same_slots g (h\<lparr>ch_cs := cs\<rparr>)"
  using assms by (simp_all add: same_slots_def load_def nxtIdx_def prevIdx_def)

lemma load_cs: "load (h\<lparr>ch_cs := cs\<rparr>) i = load h i"
  by (simp add: load_def)

text \<open>A compare-and-swap right after the load succeeds.\<close>

lemma load_cmpex:
  assumes "load h i = Some vi" and "cmpex_vi h i vi d = Some (ok, h')" and "same_slots g h"
  shows "ok \<and> (\<exists>g'. cmpex_vi g i vi d = Some (True, g') \<and> same_slots g' h')"
proof -
  have r: "unat i < length (ch_vis h)" "vi = dec i (ch_vis h ! unat i)"
    using assms(1) by (auto simp: load_def rd_def dec_def Let_def split: if_splits)
  have "cmpex_vi f i vi d = Some (True, f\<lparr>ch_vis := (ch_vis f)[unat i := enc i d]\<rparr>)" if "ch_vis f = ch_vis h" for f
  proof -
    have "ch_vis h ! unat i = enc i vi" using r(2) by simp
    then show ?thesis using r(1) that unfolding cmpex_vi_def Let_def enc_def by (simp add: arr_simps)
  qed
  with assms(2,3) show ?thesis by (auto simp: same_slots_def)
qed

definition after_cas :: "ver_idx \<Rightarrow> sl_pc" where
  "after_cas vi = (if vi_idx vi < DELETED then Take_free vi else Outside)"

text \<open>The steps of process \<open>p\<close> alone lead from \<open>y\<close> to the table and to the old version index in \<open>r\<close>.\<close>

definition alone_to :: "nat \<Rightarrow> sl_conc \<Rightarrow> ver_idx \<times> cncr_hsh \<Rightarrow> bool" where
  "alone_to p y r \<longleftrightarrow> (\<exists>y'. (slot_step p)\<^sup>*\<^sup>* y y' \<and> same_slots (sl_h y') (snd r) \<and> sl_pc y' p = after_cas (fst r))"

lemma alone_to_step: "slot_step p y y1 \<Longrightarrow> alone_to p y1 r \<Longrightarrow> alone_to p y r"
  unfolding alone_to_def using converse_rtranclp_into_rtranclp by metis

lemma alone_to_now: "same_slots (sl_h y) h \<Longrightarrow> sl_pc y p = after_cas vi \<Longrightarrow> alone_to p y (vi, h)"
  unfolding alone_to_def by (rule exI [of _ y]) simp

lemma put_cas_alone:
  assumes pc: "sl_pc y p = Put_cas v en i vi" and "same_slots (sl_h y) h" and "load h i = Some vi"
    and "cmpex_vi h i vi v = Some (ok, h')"
  shows "ok \<and> alone_to p y (vi, h')"
proof -
  obtain g' where g: "ok" "cmpex_vi (sl_h y) i vi v = Some (True, g')" "same_slots g' h'"
    using load_cmpex [OF assms(3,4,2)] by blast
  have "slot_step p y (sl_goto p (after_cas vi) (y\<lparr>sl_h := g'\<rparr>))"
    using slot_step.put_cas [OF pc g(2)] by (simp add: after_cas_def)
  moreover have "alone_to p (sl_goto p (after_cas vi) (y\<lparr>sl_h := g'\<rparr>)) (vi, h')"
    by (rule alone_to_now) (simp_all add: g(3))
  ultimately show ?thesis using g(1) alone_to_step by blast
qed

lemma put_match_alone:
  assumes "sl_pc y p = Put_cmp v en i vi" and "same_slots (sl_h y) h" and "load h i = Some vi"
    and "cmpex_vi h i vi v = Some (ok, h')"
  shows "ok \<and> alone_to p y (vi, h')"
proof -
  have "ok \<and> alone_to p (sl_goto p (Put_cas v en i vi) y) (vi, h')"
    using assms(2-4) by (intro put_cas_alone) simp_all
  with slot_step.put_matches [OF assms(1)] show ?thesis using alone_to_step by blast
qed

lemma put_full_alone:
  assumes "sl_pc y p = Put_cmp v en en vi" and "same_slots (sl_h y) h"
  shows "alone_to p y (empty_vi, h)"
proof (rule alone_to_step)
  show "slot_step p y (sl_goto p Outside (y\<lparr>sl_lost := insert v (sl_lost y)\<rparr>))"
    using assms(1) by (rule slot_step.put_full)
  show "alone_to p (sl_goto p Outside (y\<lparr>sl_lost := insert v (sl_lost y)\<rparr>)) (empty_vi, h)"
    using assms(2) by (intro alone_to_now) (simp_all add: after_cas_def empty_vi_def EMPTY_def DELETED_def)
qed

text \<open>The part of a turn of the loop after the comparison; \<open>again\<close> and \<open>onward\<close> are the recursive calls.\<close>

lemma put_cmp_alone:
  assumes pc: "sl_pc y p = Put_cmp v en i vi" and same: "same_slots (sl_h y) h" and vi: "load h i = Some vi"
    and run: "(if m \<noteq> MATCH_TRUE then if i = en then Some (empty_vi, h) else onward
       else do {
         r \<leftarrow> cmpex_vi h i vi v;
         (case r of (success, h') \<Rightarrow> if success then Some (vi, h') else again h')
       }) = Some r"
    and IH: "\<And>y. onward = Some r \<Longrightarrow> sl_pc y p = Put_at v en (nxtIdx h i) \<Longrightarrow> same_slots (sl_h y) h \<Longrightarrow> alone_to p y r"
  shows "alone_to p y r"
proof (cases "m = MATCH_TRUE")
  case True
  with run obtain ok h1 where c: "cmpex_vi h i vi v = Some (ok, h1)" by (cases "cmpex_vi h i vi v") auto
  from put_match_alone [OF pc same vi c] run True c show ?thesis by auto
next
  case differs: False
  show ?thesis
  proof (cases "i = en")
    case True
    then have "r = (empty_vi, h)" using run differs by simp
    with put_full_alone [OF _ same] pc True show ?thesis by simp
  next
    case False
    with run differs have "onward = Some r" by simp
    from IH [OF this, of "sl_goto p (Put_at v en (nxtIdx (sl_h y) i)) y"] same
    have "alone_to p (sl_goto p (Put_at v en (nxtIdx (sl_h y) i)) y) r"
      by (simp add: same_slots_access(2) [OF same])
    with slot_step.put_differs [OF pc False] show ?thesis by (rule alone_to_step)
  qed
qed

lemma put_alone:
  assumes "putHashed_loop h hash v key klen en i = Some r"
  shows "\<forall>y. sl_pc y p = Put_at v en i \<longrightarrow> same_slots (sl_h y) h \<longrightarrow> alone_to p y r"
  using assms
proof (induction rule: putHashed_loop.raw_induct [rotated 1, consumes 1, case_names step])
  case (step loop h hash v key klen en i r)
  show ?case
  proof (intro allI impI)
    fix y :: sl_conc assume pc: "sl_pc y p = Put_at v en i" and same: "same_slots (sl_h y) h"
    from step.hyps obtain vi where vi: "load h i = Some vi" by (cases "load h i") simp_all
    let ?pc = "if DELETED \<le> vi_idx vi then Put_cas v en i vi else Put_cmp v en i vi"
    have s1: "slot_step p y (sl_goto p ?pc y)"
      by (rule slot_step.put_load [OF pc]) (simp add: same_slots_access(1) [OF same] vi)
    obtain y1 where y1: "y1 = sl_goto p ?pc y" by simp
    have same1: "same_slots (sl_h y1) h" using same by (simp add: y1)
    have "alone_to p y1 r"
    proof (cases "DELETED \<le> vi_idx vi")
      case True
      with step.hyps vi obtain ok h1 where c: "cmpex_vi h i vi v = Some (ok, h1)"
        by (cases "cmpex_vi h i vi v") auto
      from True have "sl_pc y1 p = Put_cas v en i vi" by (simp add: y1)
      from put_cas_alone [OF this same1 vi c] step.hyps vi True c show ?thesis by auto
    next
      case False
      then have pc1: "sl_pc y1 p = Put_cmp v en i vi" by (simp add: y1)
      from step.hyps vi False obtain m cs where m: "str_compare (ch_cs h) (vi_idx vi) (vi_version vi) key klen hash = Some (m, cs)"
        by (cases "str_compare (ch_cs h) (vi_idx vi) (vi_version vi) key klen hash") auto
      show ?thesis
        by (rule put_cmp_alone [OF pc1 same_slots_access(4) [OF same1, of cs], of m "loop (h\<lparr>ch_cs := cs\<rparr>) hash v key klen en (nxtIdx h i)"
              "\<lambda>h'. loop h' hash v key klen en (nxtIdx h' (prevIdx h' i))"])
          (use step.hyps vi False m step.IH in \<open>simp_all add: load_cs nxtIdx_def\<close>)
    qed
    with s1 show "alone_to p y r" unfolding y1 by (rule alone_to_step)
  qed
qed

lemma del_cas_alone:
  assumes pc: "sl_pc y p = Del_cmp en i vi" and "same_slots (sl_h y) h" and "load h i = Some vi"
    and "vi_idx vi < DELETED" and "cmpex_vi h i vi deleted_vi = Some (ok, h')"
  shows "ok \<and> alone_to p y (vi, h')"
proof -
  obtain g' where g: "ok" "cmpex_vi (sl_h y) i vi deleted_vi = Some (True, g')" "same_slots g' h'"
    using load_cmpex [OF assms(3,5,2)] by blast
  let ?y1 = "sl_goto p (Del_cas en i vi) y" and ?y2 = "sl_goto p (Take_free vi) (sl_goto p (Del_cas en i vi) y\<lparr>sl_h := g'\<rparr>)"
  have "slot_step p ?y1 ?y2"
    using slot_step.del_cas [of ?y1 p en i vi True g'] g(2) by simp
  moreover have "alone_to p ?y2 (vi, h')"
    using assms(4) by (intro alone_to_now) (simp_all add: g(3) after_cas_def)
  ultimately show ?thesis using g(1) alone_to_step slot_step.del_matches [OF pc] by blast
qed

lemma out_alone: "slot_step p y (sl_goto p Outside y) \<Longrightarrow> same_slots (sl_h y) h \<Longrightarrow> alone_to p y (empty_vi, h)"
  by (erule alone_to_step, rule alone_to_now) (simp_all add: after_cas_def empty_vi_def EMPTY_def DELETED_def)

lemma del_cmp_alone:
  assumes pc: "sl_pc y p = Del_cmp en i vi" and same: "same_slots (sl_h y) h" and vi: "load h i = Some vi"
    and real: "vi_idx vi < DELETED" and en: "i \<noteq> en"
    and run: "(if m = MATCH_TRUE then do {
         r \<leftarrow> cmpex_vi h i vi deleted_vi;
         (case r of (success, h') \<Rightarrow> if success then Some (vi, h') else again h')
       } else if m = MATCH_REMOVED \<or> i = en then Some (empty_vi, h) else onward) = Some r"
    and IH: "\<And>y. onward = Some r \<Longrightarrow> sl_pc y p = Del_at en (nxtIdx h i) \<Longrightarrow> same_slots (sl_h y) h \<Longrightarrow> alone_to p y r"
  shows "alone_to p y r"
proof -
  consider "m = MATCH_TRUE" | "m = MATCH_REMOVED" | "m \<noteq> MATCH_TRUE" "m \<noteq> MATCH_REMOVED" by blast
  then show ?thesis
  proof cases
    case 1
    with run obtain ok h1 where c: "cmpex_vi h i vi deleted_vi = Some (ok, h1)"
      by (cases "cmpex_vi h i vi deleted_vi") auto
    from del_cas_alone [OF pc same vi real c] run 1 c show ?thesis by auto
  next
    case 2
    with run have "r = (empty_vi, h)" by simp
    with out_alone [OF slot_step.del_removed [OF pc] same] show ?thesis by simp
  next
    case 3
    with run en have "onward = Some r" by simp
    from IH [OF this, of "sl_goto p (Del_at en (nxtIdx (sl_h y) i)) y"] same
    have "alone_to p (sl_goto p (Del_at en (nxtIdx (sl_h y) i)) y) r"
      by (simp add: same_slots_access(2) [OF same])
    with slot_step.del_differs [OF pc] show ?thesis by (rule alone_to_step)
  qed
qed

lemma del_alone:
  assumes "delHashed_loop h key klen hash en i = Some r"
  shows "\<forall>y. sl_pc y p = Del_at en i \<longrightarrow> same_slots (sl_h y) h \<longrightarrow> alone_to p y r"
  using assms
proof (induction rule: delHashed_loop.raw_induct [rotated 1, consumes 1, case_names step])
  case (step loop h key klen hash en i r)
  show ?case
  proof (intro allI impI)
    fix y :: sl_conc assume pc: "sl_pc y p = Del_at en i" and same: "same_slots (sl_h y) h"
    show "alone_to p y r"
    proof (cases "i = en")
      case True
      with step.hyps out_alone [OF slot_step.del_end same] pc show ?thesis by simp
    next
      case more: False
      with step.hyps obtain vi where vi: "load h i = Some vi" by (cases "load h i") simp_all
      let ?pc = "if DELETED \<le> vi_idx vi then Del_at en (nxtIdx (sl_h y) i) else Del_cmp en i vi"
      obtain y1 where y1: "y1 = sl_goto p ?pc y" by simp
      have s1: "slot_step p y y1"
        unfolding y1 by (rule slot_step.del_load [OF pc more]) (simp add: same_slots_access(1) [OF same] vi)
      have same1: "same_slots (sl_h y1) h" using same by (simp add: y1)
      have "alone_to p y1 r"
      proof (cases "DELETED \<le> vi_idx vi")
        case True
        with step.hyps vi more have "loop h key klen hash en (nxtIdx h i) = Some r" by simp
        from step.IH [OF this] same1 True show ?thesis by (simp add: y1 same_slots_access(2) [OF same])
      next
        case False
        then have pc1: "sl_pc y1 p = Del_cmp en i vi" by (simp add: y1)
        from step.hyps vi False more obtain m cs where m: "str_compare (ch_cs h) (vi_idx vi) (vi_version vi) key klen hash = Some (m, cs)"
          by (cases "str_compare (ch_cs h) (vi_idx vi) (vi_version vi) key klen hash") auto
        show ?thesis
          by (rule del_cmp_alone [OF pc1 same_slots_access(4) [OF same1, of cs] _ _ more, of m
                "\<lambda>h'. loop h' key klen hash en (nxtIdx h' (prevIdx h' i))" "loop (h\<lparr>ch_cs := cs\<rparr>) key klen hash en (nxtIdx h i)"])
            (use step.hyps vi False more m step.IH in \<open>simp_all add: load_cs nxtIdx_def not_le\<close>)
      qed
      with s1 show ?thesis by (rule alone_to_step)
    qed
  qed
qed

text \<open>The calls a process makes on the slots: \<open>put\<close> calls \<open>putHashed\<close> with what it allocated, \<open>del\<close> calls
  \<open>delHashed\<close>.\<close>

datatype sl_call = Put_call u32 ver_idx bytes u32 | Del_call bytes u32 u32

primrec run_call :: "sl_call \<Rightarrow> cncr_hsh \<Rightarrow> (ver_idx \<times> cncr_hsh) option" where
  "run_call (Put_call hash v key klen) h = putHashed h hash v key klen"
| "run_call (Del_call key klen hash) h = delHashed h key klen hash"

primrec call_allocates :: "sl_call \<Rightarrow> ver_idx set" where
  "call_allocates (Put_call hash v key klen) = {v}"
| "call_allocates (Del_call key klen hash) = {}"

section \<open>Properties\<close>

text \<open>What a step does to the places of a version index: a new place is the hands of the process that takes
  the step, or it was in these hands.\<close>

lemma slot_step_places:
  assumes step: "slot_step p y y'" and inv: "sl_inv y" and w: "real_vi w" and x: "x \<in> places y' w" "x \<notin> places y w"
  shows "x = Held p \<or> holding (sl_pc y p) = Some w"
  using step
proof cases
  case (put_cas v en i vi success h')
  have k: "i < ch_sz (sl_h y)" using sl_inv_known [OF inv put_cas(2)] by auto
  have wf: "hsh_wf (sl_h y)" using inv by (simp add: sl_inv_def)
  from cmpex_cases [OF wf k put_cas(3)] put_cas x show ?thesis
    by (cases x) (auto simp: slot_set [OF wf k] split: if_splits)
next
  case (del_cas en i vi success h')
  have k: "i < ch_sz (sl_h y)" using sl_inv_known [OF inv del_cas(2)] by auto
  have wf: "hsh_wf (sl_h y)" using inv by (simp add: sl_inv_def)
  from cmpex_cases [OF wf k del_cas(3)] del_cas x w show ?thesis
    by (cases x) (auto simp: slot_set [OF wf k] split: if_splits)
qed (use x in \<open>cases x; auto split: if_splits\<close>)+

lemma lost_step:
  assumes "slot_step p y y'" and "w \<in> sl_lost y'" and "w \<notin> sl_lost y"
  shows "\<exists>en vi. sl_pc y p = Put_cmp w en en vi"
  using assms by (cases rule: slot_step.cases) (auto split: if_splits)

text \<open>C4. However puts and deletes of any number of processes interleave, from an empty table on, every
  version index allocated so far is in exactly one place: in a slot, in the hands of one process, among
  those freed, or among those that their put dropped; and none is freed twice. An index that is in a
  slot leaves it only into the hands of the process that takes it out. An index is dropped by its own
  put only, when the last slot of the probe run is in use by another key: this does happen, also while
  other slots are free again.\<close>

theorem conc_slots_conserve:
  assumes "slots_reach h y" and "hsh_wf h" and "\<forall>p < ch_sz h. \<not> real_vi (slot h p)" and "real_vi v"
  shows "(if v \<in> sl_given y then \<exists>x. places y v = {x} else places y v = {}) \<and> distinct (sl_freed y) \<and>
    (\<forall>p y' i. slot_step p y y' \<longrightarrow> places y v = {In_slot i} \<longrightarrow> places y' v = {In_slot i} \<or> places y' v = {Held p}) \<and>
    (\<forall>p y'. slot_step p y y' \<longrightarrow> Lost \<in> places y' v \<longrightarrow> Lost \<in> places y v \<or> (\<exists>en vi. sl_pc y p = Put_cmp v en en vi))"
proof -
  have inv: "sl_inv y" by (rule slots_reach_inv [OF assms(1-3)])
  have "places y' v = {In_slot i} \<or> places y' v = {Held p}" if step: "slot_step p y y'" and at: "places y v = {In_slot i}" for p y' i
  proof -
    have given: "v \<in> sl_given y" using sl_inv_places [OF inv assms(4), of "In_slot i"] at by simp
    have "v \<in> sl_given y'" using step given by (cases rule: slot_step.cases) (auto split: if_splits)
    moreover have "if v \<in> sl_given y' then \<exists>x. places y' v = {x} else places y' v = {}"
      using sl_inv_step [OF step inv] assms(4) by (simp add: sl_inv_def)
    ultimately obtain x where x: "places y' v = {x}" by auto
    have "holding (sl_pc y p) \<noteq> Some v"
    proof
      assume "holding (sl_pc y p) = Some v"
      then have "Held p \<in> places y v" by simp
      with at show False by simp
    qed
    with slot_step_places [OF step inv assms(4), of x] x at show ?thesis by auto
  qed
  moreover have "Lost \<in> places y v \<or> (\<exists>en vi. sl_pc y p = Put_cmp v en en vi)"
    if "slot_step p y y'" "Lost \<in> places y' v" for p y'
    using lost_step [OF that(1), of v] that(2) by auto
  moreover have "(if v \<in> sl_given y then \<exists>x. places y v = {x} else places y v = {}) \<and> distinct (sl_freed y)"
    using inv assms(4) by (simp add: sl_inv_def)
  ultimately show ?thesis by blast
qed

text \<open>A process puts a version index into an empty table of two slots.\<close>

lemma small_slots:
  assumes h: "h = \<lparr>ch_sz = 2, ch_vis = [enc 0 empty_vi, enc 1 empty_vi], ch_cs = cs\<rparr>"
  shows "hsh_wf h" and "\<forall>p < ch_sz h. slot h p = empty_vi"
proof -
  show "hsh_wf h" by (simp add: h hsh_wf_def)
  show "\<forall>p < ch_sz h. slot h p = empty_vi"
  proof (intro allI impI)
    fix p assume "p < ch_sz h"
    then have "unat p < 2" by (simp add: h word_less_nat_alt)
    then have "unat p = 0 \<or> unat p = 1" by linarith
    then have "p = 0 \<or> p = 1" by (simp add: word_unat_eq_iff)
    then show "slot h p = empty_vi" by (auto simp: h slot_def)
  qed
qed

theorem conc_slots_conserve_witness:
  "\<exists>h y. slots_reach h y \<and> real_vi (VerIdx 5 1) \<and> slot (sl_h y) 0 = VerIdx 5 1 \<and> places y (VerIdx 5 1) = {In_slot 0}"
proof -
  obtain cs :: cncr_str where "cs = cs" by simp
  define h where "h = \<lparr>ch_sz = 2, ch_vis = [enc 0 empty_vi, enc 1 empty_vi], ch_cs = cs\<rparr>"
  note small = small_slots [OF h_def]
  let ?v = "VerIdx 5 1"
  have v: "real_vi ?v" by (simp add: real_vi_def DELETED_def EMPTY_def)
  have lt: "0 < ch_sz h" by (simp add: h_def)
  define y1 where "y1 = sl_goto 0 (Put_at ?v (prevIdx h 0) 0) ((slots_start h)\<lparr>sl_given := {?v}\<rparr>)"
  have "slot_step 0 (slots_start h) y1"
    using slot_step.put_start [of "slots_start h" 0 ?v 0 0] v by (simp add: y1_def slots_start_def)
  then have 1: "slots_reach h y1" by (rule slots_next [OF slots_init])
  define y2 where "y2 = sl_goto 0 (Put_cas ?v (prevIdx h 0) 0 empty_vi) y1"
  have "load h 0 = Some empty_vi" using load_slot [OF small(1) lt] small(2) lt by simp
  then have "slot_step 0 y1 y2"
    using slot_step.put_load [of y1 0 ?v "prevIdx h 0" 0 empty_vi]
    by (simp add: y2_def y1_def slots_start_def empty_vi_def DELETED_def EMPTY_def word_le_nat_alt)
  then have 2: "slots_reach h y2" by (rule slots_next [OF 1])
  define y where "y = sl_goto 0 Outside (y2\<lparr>sl_h := set_slot h 0 ?v\<rparr>)"
  have "cmpex_vi h 0 empty_vi ?v = Some (True, set_slot h 0 ?v)"
    using cmpex_slot [OF small(1) lt, of ?v] small(2) lt by simp
  then have "slot_step 0 y2 y"
    using slot_step.put_cas [of y2 0 ?v "prevIdx h 0" 0 empty_vi True "set_slot h 0 ?v"]
    by (simp add: y_def y2_def y1_def slots_start_def empty_vi_def DELETED_def EMPTY_def word_less_nat_alt)
  then have 3: "slots_reach h y" by (rule slots_next [OF 2])
  have "ch_sz (sl_h y) = ch_sz h" "slot (sl_h y) 0 = ?v" "sl_given y = {?v}"
    using slot_set [OF small(1) lt] by (simp_all add: y_def y2_def y1_def)
  then have mem: "In_slot 0 \<in> places y ?v" using lt by simp
  obtain x where x: "places y ?v = {x}"
    using conc_slots_conserve [OF 3 small(1) _ v] small(2) \<open>sl_given y = {?v}\<close> by auto
  have "x = In_slot 0" using mem unfolding x by simp
  with x have "places y ?v = {In_slot 0}" by simp
  with 3 v \<open>slot (sl_h y) 0 = ?v\<close> show ?thesis by blast
qed

text \<open>C5. The sequential \<open>putHashed\<close> and \<open>delHashed\<close>, from whatever state of the interleaving, are runs of the
  steps of one process: they leave the same slots, and the process then frees the version index they
  return, if that is one of a block.\<close>

theorem conc_calls_are_runs:
  assumes "run_call c (sl_h y) = Some (vi, h')" and "sl_pc y p = Outside"
    and "\<forall>v \<in> call_allocates c. real_vi v \<and> v \<notin> sl_given y"
  shows "\<exists>y'. (slot_step p)\<^sup>*\<^sup>* y y' \<and> ch_sz (sl_h y') = ch_sz h' \<and> ch_vis (sl_h y') = ch_vis h' \<and>
    sl_pc y' p = (if real_vi vi then Take_free vi else Outside)"
proof -
  have "alone_to p y (vi, h')"
  proof (cases c)
    case (Put_call hash v key klen)
    let ?i = "hash mod ch_sz (sl_h y)"
    have "putHashed_loop (sl_h y) hash v key klen (prevIdx (sl_h y) ?i) ?i = Some (vi, h')"
      using assms(1) Put_call by (simp add: putHashed_def Let_def)
    from put_alone [OF this, of p] have "alone_to p (sl_goto p (Put_at v (prevIdx (sl_h y) ?i) ?i) (y\<lparr>sl_given := insert v (sl_given y)\<rparr>)) (vi, h')"
      by (simp add: same_slots_def)
    with slot_step.put_start [OF assms(2) _ _ refl, of v hash] assms(3) Put_call show ?thesis using alone_to_step by simp
  next
    case (Del_call key klen hash)
    let ?i = "hash mod ch_sz (sl_h y)"
    have "delHashed_loop (sl_h y) key klen hash (prevIdx (sl_h y) ?i) ?i = Some (vi, h')"
      using assms(1) Del_call by (simp add: delHashed_def Let_def)
    from del_alone [OF this, of p] have "alone_to p (sl_goto p (Del_at (prevIdx (sl_h y) ?i) ?i) y) (vi, h')"
      by (simp add: same_slots_def)
    with slot_step.del_start [OF assms(2) refl, of hash] show ?thesis using alone_to_step by blast
  qed
  then show ?thesis by (simp add: alone_to_def same_slots_def after_cas_def real_vi_def)
qed

theorem conc_calls_are_runs_witness:
  "\<exists>h y'. (slot_step 0)\<^sup>*\<^sup>* (slots_start h) y' \<and> slot (sl_h y') 0 = VerIdx 5 1 \<and> sl_pc y' 0 = Outside"
proof -
  obtain cs :: cncr_str where "cs = cs" by simp
  define h where "h = \<lparr>ch_sz = 2, ch_vis = [enc 0 empty_vi, enc 1 empty_vi], ch_cs = cs\<rparr>"
  note small = small_slots [OF h_def]
  have lt: "0 < ch_sz h" by (simp add: h_def)
  have "load h 0 = Some empty_vi" using load_slot [OF small(1) lt] small(2) lt by simp
  moreover have "cmpex_vi h 0 empty_vi (VerIdx 5 1) = Some (True, set_slot h 0 (VerIdx 5 1))"
    using cmpex_slot [OF small(1) lt, of "VerIdx 5 1"] small(2) lt by simp
  ultimately have "run_call (Put_call 0 (VerIdx 5 1) [] 0) (sl_h (slots_start h)) = Some (empty_vi, set_slot h 0 (VerIdx 5 1))"
    by (simp add: putHashed_def putHashed_loop.simps [of h] slots_start_def empty_vi_def DELETED_def EMPTY_def)
  from conc_calls_are_runs [OF this, of 0] obtain y' where y: "(slot_step 0)\<^sup>*\<^sup>* (slots_start h) y'"
    "ch_vis (sl_h y') = ch_vis (set_slot h 0 (VerIdx 5 1))" "sl_pc y' 0 = Outside"
    by (auto simp: slots_start_def real_vi_def empty_vi_def DELETED_def EMPTY_def)
  have "slot (sl_h y') 0 = slot (set_slot h 0 (VerIdx 5 1)) 0" using y(2) by (simp add: slot_def)
  with y slot_set [OF small(1) lt] lt show ?thesis by auto
qed

end
