(* ===== verification/Shm_Value_Conc.thy ===== *)
theory Shm_Value_Conc
  imports Shm_Readers_Conc
begin

text \<open>
  The bytes of a value under interleaving: the steps of \<open>Shm_Readers_Conc\<close> on the first record of its
  chain, and the copies of \<open>writeBlock\<close>, \<open>readBlock\<close> and \<open>memcmpBlk\<close> one byte at a time. Offsets run
  through the blocks of the chain, \<open>bs\<close> bytes each; \<open>val v i\<close> is what the \<open>put\<close> of version \<open>v\<close> writes
  at offset \<open>i\<close>, for the offsets in \<open>ofs v\<close>. A process of even number holds the counts \<open>get\<close>, \<open>getKey\<close> and
  \<open>memcmpBlk\<close> take; the odd number after it stands for the same process inside \<open>readBlock\<close> of the first
  block, which counts itself a second time. The counts on the records of later blocks are left out:
  nothing is decided by them. \<open>vc_chk\<close> says that a process, since it counted itself, has found the version
  it asks for in the first record, as \<open>nxtBlock\<close> checks. \<open>vc_pub\<close> holds the versions that were put into
  the table and \<open>vc_got\<close> the bytes a process has copied, with the version it asked for and whether it had
  been checked; the code reads neither.

  The later blocks of a chain belong to the value as long as the first one does: they are taken by the
  same \<open>alloc\<close> and freed by the same \<open>doFree\<close>. Where a chain is freed with other blocks than were allocated,
  at the end of \<open>Shm_List_Conc\<close>, this does not hold, nor does what is proved here.
\<close>

section \<open>Steps\<close>

record val_conc =
  vc_c :: rd_conc
  vc_data :: "nat \<Rightarrow> u8"
  vc_left :: "nat set"
  vc_pub :: "u32 set"
  vc_chk :: "nat \<Rightarrow> bool"
  vc_got :: "nat \<Rightarrow> (u32 \<times> nat \<times> u8 \<times> bool) list"

text \<open>A step on the record; the further blocks of an allocation, with whatever bytes they hold; a byte
  written; the record read by \<open>nxtBlock\<close>; a byte read, in a later block only behind that check.\<close>

datatype vc_act = V_rd rd_act | V_blocks "nat \<Rightarrow> u8" | V_write nat | V_next | V_read nat

text \<open>When the code makes a step on the record: it reads versions it found in the table, \<open>readBlock\<close> runs
  inside \<open>get\<close>, which gives its own count up afterwards, and \<open>put\<close> writes everything before the version
  index is in the table.\<close>

definition vc_guard :: "rd_act \<Rightarrow> nat \<Rightarrow> val_conc \<Rightarrow> bool" where
  "vc_guard a p y = (case rc_pc (vc_c y) p of
     Out \<Rightarrow> (case a of
         A_inc v \<Rightarrow> v \<in> vc_pub y \<and> (odd p \<longrightarrow> rc_pc (vc_c y) (p - 1) = Reading v)
       | _ \<Rightarrow> even p)
   | Reading v \<Rightarrow> even p \<longrightarrow> rc_pc (vc_c y) (Suc p) = Out
   | Alloc_done ver \<Rightarrow> a = A_go \<longrightarrow> vc_left y = {}
   | _ \<Rightarrow> True)"

definition vc_rd :: "(u32 \<Rightarrow> nat set) \<Rightarrow> rd_act \<Rightarrow> nat \<Rightarrow> val_conc \<Rightarrow> rd_conc \<Rightarrow> val_conc" where
  "vc_rd ofs a p y c = y\<lparr>vc_c := c,
     vc_left := (case (rc_pc (vc_c y) p, a) of (Out, A_take n) \<Rightarrow> ofs (of_nat n) | _ \<Rightarrow> vc_left y),
     vc_pub := (case (rc_pc (vc_c y) p, a) of (Alloc_done ver, A_go) \<Rightarrow> insert ver (vc_pub y) | _ \<Rightarrow> vc_pub y),
     vc_chk := (vc_chk y)(p := False)\<rparr>"

definition vc_step :: "nat \<Rightarrow> (u32 \<Rightarrow> nat \<Rightarrow> u8) \<Rightarrow> (u32 \<Rightarrow> nat set) \<Rightarrow> vc_act \<Rightarrow> nat \<Rightarrow> val_conc \<Rightarrow> val_conc option" where
  "vc_step bs val ofs x p y = (case x of
     V_rd a \<Rightarrow> if vc_guard a p y then map_option (vc_rd ofs a p y) (rd_step a p (vc_c y)) else None
   | V_blocks d \<Rightarrow> (case rc_pc (vc_c y) p of
         Alloc_taken ver \<Rightarrow> Some (y\<lparr>vc_data := \<lambda>i. if i < bs then vc_data y i else d i\<rparr>)
       | _ \<Rightarrow> None)
   | V_write i \<Rightarrow> (case rc_pc (vc_c y) p of
         Alloc_done ver \<Rightarrow> if i \<in> vc_left y
           then Some (y\<lparr>vc_data := (vc_data y)(i := val ver i), vc_left := vc_left y - {i}\<rparr>) else None
       | _ \<Rightarrow> None)
   | V_next \<Rightarrow> (case rc_pc (vc_c y) p of
         Reading v \<Rightarrow> if bl_version (rc_bl (vc_c y)) = v then Some (y\<lparr>vc_chk := (vc_chk y)(p := True)\<rparr>) else Some y
       | _ \<Rightarrow> None)
   | V_read i \<Rightarrow> (case rc_pc (vc_c y) p of
         Reading v \<Rightarrow> if i < bs \<or> vc_chk y p
           then Some (y\<lparr>vc_got := (vc_got y)(p := (v, i, vc_data y i, vc_chk y p) # vc_got y p)\<rparr>) else None
       | _ \<Rightarrow> None))"

definition vc_start :: "(nat \<Rightarrow> u8) \<Rightarrow> val_conc" where
  "vc_start d = \<lparr>vc_c = rd_start, vc_data = d, vc_left = {}, vc_pub = {}, vc_chk = (\<lambda>p. False),
     vc_got = (\<lambda>p. [])\<rparr>"

inductive vc_reach :: "nat \<Rightarrow> (u32 \<Rightarrow> nat \<Rightarrow> u8) \<Rightarrow> (u32 \<Rightarrow> nat set) \<Rightarrow> val_conc \<Rightarrow> bool" for bs val ofs where
  vc_init: "vc_reach bs val ofs (vc_start d)"
| vc_next: "vc_reach bs val ofs y \<Longrightarrow> vc_step bs val ofs x p y = Some y' \<Longrightarrow> vc_reach bs val ofs y'"

inductive_cases vc_reachE: "vc_reach bs val ofs y"

section \<open>What a step on the record leaves\<close>

lemma rd_others: "rd_step a q c = Some c' \<Longrightarrow> p \<noteq> q \<Longrightarrow> rc_pc c' p = rc_pc c p"
  by (cases "rc_pc c q") (auto simp: rd_act_defs Let_def split: rd_act.splits if_splits)

lemma rd_seen: "rd_step a q c = Some c' \<Longrightarrow> rc_seen c \<subseteq> rc_seen c'"
  by (cases "rc_pc c q") (auto simp: rd_act_defs Let_def split: rd_act.splits if_splits)

text \<open>A version that the record leaves never comes back.\<close>

lemma version_step:
  assumes inv: "rd_inv c" and le: "rc_next c \<le> 2 ^ 32" and step: "rd_step a q c = Some c'"
  shows "bl_version (rc_bl c') = bl_version (rc_bl c) \<or> bl_version (rc_bl c') \<notin> rc_seen c"
proof (cases "frees (rc_pc c q) \<or> allocs (rc_pc c q)")
  case True
  then show ?thesis
    using step rd_invD(2) [OF inv, of q] zero_not_seen [OF inv le]
    by (cases "rc_pc c q") (auto simp: rd_step_def fresh_def split: rd_act.splits)
next
  case False
  then show ?thesis using version_kept [OF step] by simp
qed

lemma held_version:
  assumes inv: "rd_inv c" and le: "rc_next c \<le> 2 ^ 32" and step: "rd_step a q c = Some c'"
    and held: "holds (rc_pc c p) (bl_version (rc_bl c))"
  shows "bl_version (rc_bl c') = bl_version (rc_bl c)"
proof (rule version_kept [OF step])
  have "holders c (bl_version (rc_bl c)) \<noteq> {}" using held by (auto simp: holders_def)
  then show "\<not> frees (rc_pc c q)" "\<not> allocs (rc_pc c q)" using busy_no_holders [OF inv le, of q] by auto
qed

section \<open>Invariant\<close>

text \<open>A process between the first access of \<open>incReaders\<close> and the first of \<open>decReadersOrDel\<close>.\<close>

fun seeks :: "rd_pc \<Rightarrow> u32 \<Rightarrow> bool" where
  "seeks (Inc_loaded w cur) v = (w = v)"
| "seeks (Inc_checked w cur) v = (w = v)"
| "seeks (Reading w) v = (w = v)"
| "seeks _ _ = False"

text \<open>The odd processes are inside a \<open>get\<close>: the process before them reads the version they seek, and once
  they have found it, it stays.\<close>

definition nested :: "rd_conc \<Rightarrow> nat \<Rightarrow> bool" where
  "nested c p \<longleftrightarrow> (\<forall>v. seeks (rc_pc c p) v \<longrightarrow> rc_pc c (p - 1) = Reading v \<and>
     (bl_version (rc_bl c) = v \<or> (\<exists>cur. rc_pc c p = Inc_loaded v cur)))"

text \<open>How far the process that allocates is with its bytes.\<close>

fun written :: "(u32 \<Rightarrow> nat \<Rightarrow> u8) \<Rightarrow> (u32 \<Rightarrow> nat set) \<Rightarrow> val_conc \<Rightarrow> rd_pc \<Rightarrow> bool" where
  "written val ofs y (Alloc_taken ver) = (ofs ver \<subseteq> vc_left y)"
| "written val ofs y (Alloc_kr ver) = (ofs ver \<subseteq> vc_left y)"
| "written val ofs y (Alloc_ver ver) = (ofs ver \<subseteq> vc_left y)"
| "written val ofs y (Alloc_both ver) = (ofs ver \<subseteq> vc_left y)"
| "written val ofs y (Alloc_loaded ver cur) = (ofs ver \<subseteq> vc_left y)"
| "written val ofs y (Alloc_reloaded ver cur) = (ofs ver \<subseteq> vc_left y)"
| "written val ofs y (Alloc_key ver) = (ofs ver \<subseteq> vc_left y)"
| "written val ofs y (Alloc_done ver) = (\<forall>i \<in> ofs ver - vc_left y. vc_data y i = val ver i)"
| "written val ofs y pc = True"

definition copied :: "(u32 \<Rightarrow> nat \<Rightarrow> u8) \<Rightarrow> (u32 \<Rightarrow> nat set) \<Rightarrow> val_conc \<Rightarrow> nat \<Rightarrow> u32 \<times> nat \<times> u8 \<times> bool \<Rightarrow> bool" where
  "copied val ofs y p = (\<lambda>(v, i, b, checked). v \<in> vc_pub y \<and>
     (odd p \<or> checked \<or> bl_version (rc_bl (vc_c y)) = v \<longrightarrow> i \<in> ofs v \<longrightarrow> b = val v i))"

text \<open>A process that found its version still has a count on it.\<close>

definition checked_ok :: "val_conc \<Rightarrow> nat \<Rightarrow> bool" where
  "checked_ok y p \<longleftrightarrow> (vc_chk y p \<longrightarrow> rc_pc (vc_c y) p = Reading (bl_version (rc_bl (vc_c y))))"

definition vinv :: "(u32 \<Rightarrow> nat \<Rightarrow> u8) \<Rightarrow> (u32 \<Rightarrow> nat set) \<Rightarrow> val_conc \<Rightarrow> bool" where
  "vinv val ofs y \<longleftrightarrow> vc_pub y \<subseteq> rc_seen (vc_c y) \<and>
     (\<forall>p v. seeks (rc_pc (vc_c y) p) v \<longrightarrow> v \<in> vc_pub y) \<and>
     (\<forall>p. odd p \<longrightarrow> nested (vc_c y) p) \<and>
     (bl_version (rc_bl (vc_c y)) \<in> vc_pub y \<longrightarrow>
       (\<forall>i \<in> ofs (bl_version (rc_bl (vc_c y))). vc_data y i = val (bl_version (rc_bl (vc_c y))) i)) \<and>
     (\<forall>p. written val ofs y (rc_pc (vc_c y) p)) \<and> (\<forall>p. checked_ok y p) \<and>
     (\<forall>p. \<forall>e \<in> set (vc_got y p). copied val ofs y p e)"

lemma vinvD:
  assumes "vinv val ofs y"
  shows "vc_pub y \<subseteq> rc_seen (vc_c y)" and "seeks (rc_pc (vc_c y) p) v \<Longrightarrow> v \<in> vc_pub y"
    and "odd p \<Longrightarrow> nested (vc_c y) p"
    and "bl_version (rc_bl (vc_c y)) = v \<Longrightarrow> v \<in> vc_pub y \<Longrightarrow> i \<in> ofs v \<Longrightarrow> vc_data y i = val v i"
    and "written val ofs y (rc_pc (vc_c y) p)" and "e \<in> set (vc_got y p) \<Longrightarrow> copied val ofs y p e"
    and "checked_ok y p"
  using assms by (auto simp: vinv_def)

lemma seeks_step:
  "rd_step a p c = Some c' \<Longrightarrow> seeks (rc_pc c' p) v \<Longrightarrow> seeks (rc_pc c p) v \<or> rc_pc c p = Out \<and> a = A_inc v"
  by (cases "rc_pc c p") (auto simp: rd_act_defs Let_def split: rd_act.splits if_splits)

lemma nested_own:
  assumes step: "rd_step a p c = Some c'" and n: "nested c p" and odd: "odd p"
    and out: "\<And>v. rc_pc c p = Out \<Longrightarrow> a = A_inc v \<Longrightarrow> rc_pc c (p - 1) = Reading v"
  shows "nested c' p"
proof -
  have o: "rc_pc c' (p - 1) = rc_pc c (p - 1)" using odd by (intro rd_others [OF step]) (cases p; simp)
  show ?thesis
    unfolding nested_def o
    using step n out unfolding nested_def
    by (cases "rc_pc c p") (auto simp: rd_act_defs Let_def split: rd_act.splits if_splits)
qed

lemma nested_other:
  assumes inv: "rd_inv c" and le: "rc_next c \<le> 2 ^ 32" and step: "rd_step a q c = Some c'" and n: "nested c p"
    and "p \<noteq> q" and quiet: "q = p - 1 \<Longrightarrow> \<exists>v. rc_pc c q = Reading v \<Longrightarrow> rc_pc c p = Out"
  shows "nested c' p"
  unfolding nested_def
proof (intro allI impI)
  fix v assume s: "seeks (rc_pc c' p) v"
  have p: "rc_pc c' p = rc_pc c p" using step assms(5) by (rule rd_others)
  have r: "rc_pc c (p - 1) = Reading v" "bl_version (rc_bl c) = v \<or> (\<exists>cur. rc_pc c p = Inc_loaded v cur)"
    using n s unfolding nested_def p by blast+
  have "q \<noteq> p - 1" using quiet r(1) s p by auto
  then have "rc_pc c' (p - 1) = Reading v" using rd_others [OF step, of "p - 1"] r(1) by simp
  moreover have "bl_version (rc_bl c') = v" if "bl_version (rc_bl c) = v"
    using held_version [OF inv le step, of "p - 1"] r(1) that by simp
  ultimately show "rc_pc c' (p - 1) = Reading v \<and> (bl_version (rc_bl c') = v \<or> (\<exists>cur. rc_pc c' p = Inc_loaded v cur))"
    using r(2) p by auto
qed

section \<open>Every step keeps the invariant\<close>

lemma copied_later:
  assumes "copied val ofs y p e" and "vc_pub y \<subseteq> rc_seen (vc_c y)" and "vc_pub y \<subseteq> vc_pub y'"
    and "bl_version (rc_bl (vc_c y')) = bl_version (rc_bl (vc_c y)) \<or> bl_version (rc_bl (vc_c y')) \<notin> rc_seen (vc_c y)"
  shows "copied val ofs y' p e"
  using assms by (auto simp: copied_def)

lemma vc_rd_simps [simp]: "vc_c (vc_rd ofs a p y c) = c" "vc_data (vc_rd ofs a p y c) = vc_data y"
  "vc_got (vc_rd ofs a p y c) = vc_got y" "vc_chk (vc_rd ofs a p y c) = (vc_chk y)(p := False)"
  by (simp_all add: vc_rd_def)

lemma vc_pub_rd: "vc_pub (vc_rd ofs a p y c) =
  (case rc_pc (vc_c y) p of Alloc_done ver \<Rightarrow> if a = A_go then insert ver (vc_pub y) else vc_pub y | _ \<Rightarrow> vc_pub y)"
  by (simp add: vc_rd_def split: rd_pc.split rd_act.split)

lemma vc_left_rd: "vc_left (vc_rd ofs a p y c) =
  (case a of A_take n \<Rightarrow> if rc_pc (vc_c y) p = Out then ofs (of_nat n) else vc_left y | _ \<Rightarrow> vc_left y)"
  by (simp add: vc_rd_def split: rd_pc.split rd_act.split)

text \<open>The process that allocates, and everyone else.\<close>

lemma written_own:
  assumes "rd_step a p (vc_c y) = Some c" and "written val ofs y (rc_pc (vc_c y) p)"
  shows "written val ofs (vc_rd ofs a p y c) (rc_pc c p)"
  using assms
  by (cases "rc_pc (vc_c y) p")
     (auto simp: rd_act_defs Let_def vc_left_rd split: rd_act.splits if_splits)

lemma written_left: "written val ofs y pc \<Longrightarrow> vc_left y' = vc_left y \<Longrightarrow> vc_data y' = vc_data y \<Longrightarrow> written val ofs y' pc"
  by (cases pc) auto

lemma written_idle: "\<not> allocs pc \<Longrightarrow> written val ofs y pc"
  by (cases pc) auto

lemma written_other:
  assumes inv: "rd_inv (vc_c y)" and step: "rd_step a q (vc_c y) = Some c" and "p \<noteq> q"
    and w: "written val ofs y (rc_pc (vc_c y) p)"
  shows "written val ofs (vc_rd ofs a q y c) (rc_pc c p)"
proof (cases "\<exists>n. a = A_take n \<and> rc_pc (vc_c y) q = Out")
  case True
  then have "rc_owner (vc_c y) = Free_list" using step by (auto simp: rd_act_defs split: if_splits)
  then have "\<not> allocs (rc_pc (vc_c y) p)" using no_excl [OF inv] by auto
  then show ?thesis using rd_others [OF step assms(3)] by (simp add: written_idle)
next
  case False
  then have "vc_left (vc_rd ofs a q y c) = vc_left y" by (auto simp: vc_left_rd split: rd_act.split)
  then show ?thesis using w rd_others [OF step assms(3)] by (auto intro: written_left)
qed

lemma pub_rd_cases:
  obtains "vc_pub (vc_rd ofs a p y c) = vc_pub y"
  | ver where "rc_pc (vc_c y) p = Alloc_done ver" "a = A_go" "vc_pub (vc_rd ofs a p y c) = insert ver (vc_pub y)"
  by (cases "rc_pc (vc_c y) p"; cases "a = A_go") (auto simp: vc_pub_rd)

lemma data_rd:
  assumes inv: "rd_inv (vc_c y)" and le: "rc_next (vc_c y) \<le> 2 ^ 32" and v: "vinv val ofs y"
    and guard: "vc_guard a p y" and step: "rd_step a p (vc_c y) = Some c"
    and pub: "bl_version (rc_bl c) \<in> vc_pub (vc_rd ofs a p y c)" and i: "i \<in> ofs (bl_version (rc_bl c))"
  shows "vc_data y i = val (bl_version (rc_bl c)) i"
proof (cases rule: pub_rd_cases [of ofs a p y c])
  case 1
  then have "bl_version (rc_bl c) \<in> vc_pub y" using pub by simp
  moreover have "bl_version (rc_bl c) = bl_version (rc_bl (vc_c y))"
    using version_step [OF inv le step] calculation vinvD(1) [OF v] by auto
  ultimately show ?thesis using vinvD(4) [OF v] i by simp
next
  case (2 ver)
  have "bl_version (rc_bl c) = bl_version (rc_bl (vc_c y))" using step 2 by (auto simp: rd_step_def)
  moreover have "bl_version (rc_bl (vc_c y)) = ver" using rd_invD(2) [OF inv, of p] 2 by simp
  moreover have "vc_left y = {}" using guard 2 by (simp add: vc_guard_def)
  ultimately show ?thesis using vinvD(5) [OF v, of p] 2 i by simp
qed

lemma vinv_rd:
  assumes inv: "rd_inv (vc_c y)" and le: "rc_next (vc_c y) \<le> 2 ^ 32" and v: "vinv val ofs y"
    and guard: "vc_guard a p y" and step: "rd_step a p (vc_c y) = Some c"
  shows "vinv val ofs (vc_rd ofs a p y c)" (is "vinv val ofs ?y")
proof -
  have mono: "vc_pub y \<subseteq> vc_pub ?y" by (cases rule: pub_rd_cases [of ofs a p y c]) auto
  have "vc_pub ?y \<subseteq> rc_seen c"
  proof (cases rule: pub_rd_cases [of ofs a p y c])
    case 1
    then show ?thesis using vinvD(1) [OF v] rd_seen [OF step] by auto
  next
    case (2 ver)
    then show ?thesis using vinvD(1) [OF v] step by (auto simp: rd_step_def)
  qed
  moreover have "w \<in> vc_pub ?y" if "seeks (rc_pc c q) w" for q w
  proof (cases "q = p")
    case True
    with that have "seeks (rc_pc (vc_c y) p) w \<or> rc_pc (vc_c y) p = Out \<and> a = A_inc w" using seeks_step [OF step] by simp
    then have "w \<in> vc_pub y" using vinvD(2) [OF v] guard by (elim disjE) (simp_all add: vc_guard_def)
    then show ?thesis using mono by blast
  next
    case False
    then show ?thesis using vinvD(2) [OF v, of q w] that rd_others [OF step False] mono by auto
  qed
  moreover have "nested c q" if odd: "odd q" for q
  proof (cases "q = p")
    case True
    then show ?thesis
      using vinvD(3) [OF v odd] odd guard unfolding True
      by (intro nested_own [OF step]) (auto simp: vc_guard_def)
  next
    case False
    have "rc_pc (vc_c y) q = Out" if "p = q - 1" "\<exists>w. rc_pc (vc_c y) p = Reading w"
      using guard that odd by (auto simp: vc_guard_def)
    then show ?thesis using nested_other [OF inv le step vinvD(3) [OF v odd] False] by blast
  qed
  moreover have "written val ofs ?y (rc_pc c q)" for q
    using written_own [OF step vinvD(5) [OF v]] written_other [OF inv step _ vinvD(5) [OF v]] by (cases "q = p") auto
  moreover have "copied val ofs ?y q e" if "e \<in> set (vc_got y q)" for q e
    using vinvD(6) [OF v that] vinvD(1) [OF v] mono by (rule copied_later) (simp add: version_step [OF inv le step])
  moreover have "checked_ok ?y q" for q
  proof (cases "q = p")
    case False
    show ?thesis
      using vinvD(7) [OF v, of q] held_version [OF inv le step, of q] rd_others [OF step False] False
      by (auto simp: checked_ok_def)
  qed (simp add: checked_ok_def)
  ultimately show ?thesis using data_rd [OF inv le v guard step] by (simp add: vinv_def)
qed

text \<open>Steps that change nothing of the record.\<close>

lemma vinv_frame:
  assumes v: "vinv val ofs y" and "vc_c y' = vc_c y" and "vc_pub y' = vc_pub y" and "vc_got y' = vc_got y"
    and "\<And>q. checked_ok y' q" and "\<And>q. written val ofs y' (rc_pc (vc_c y) q)"
    and "\<And>i. bl_version (rc_bl (vc_c y)) \<in> vc_pub y \<Longrightarrow> i \<in> ofs (bl_version (rc_bl (vc_c y))) \<Longrightarrow> vc_data y' i = vc_data y i"
  shows "vinv val ofs y'"
proof -
  have "copied val ofs y' q e" if "e \<in> set (vc_got y q)" for q e
    using vinvD(6) [OF v that] assms(2,3) by (simp add: copied_def)
  with v assms(2-) show ?thesis by (simp add: vinv_def)
qed

lemma alloc_not_pub:
  assumes inv: "rd_inv (vc_c y)" and le: "rc_next (vc_c y) \<le> 2 ^ 32" and v: "vinv val ofs y" and pc: "allocs (rc_pc (vc_c y) p)"
  shows "bl_version (rc_bl (vc_c y)) \<notin> vc_pub y"
  using rd_invD(2) [OF inv, of p] pc vinvD(1) [OF v] zero_not_seen [OF inv le]
  by (cases "rc_pc (vc_c y) p") (auto simp: fresh_def)

lemma others_written:
  assumes inv: "rd_inv (vc_c y)" and "allocs (rc_pc (vc_c y) p)" and "written val ofs y' (rc_pc (vc_c y) p)"
  shows "written val ofs y' (rc_pc (vc_c y) q)"
proof (cases "q = p")
  case False
  then have "\<not> allocs (rc_pc (vc_c y) q)" using excl_others [OF inv, of p q] assms(2) by simp
  then show ?thesis by (rule written_idle)
qed (simp add: assms(3))

lemma vinv_write:
  assumes inv: "rd_inv (vc_c y)" and le: "rc_next (vc_c y) \<le> 2 ^ 32" and v: "vinv val ofs y" and pc: "rc_pc (vc_c y) p = Alloc_done ver"
  shows "vinv val ofs (y\<lparr>vc_data := (vc_data y)(i := val ver i), vc_left := vc_left y - {i}\<rparr>)" (is "vinv val ofs ?y")
proof (rule vinv_frame [OF v])
  have "written val ofs ?y (rc_pc (vc_c y) p)" using vinvD(5) [OF v, of p] pc by auto
  then show "written val ofs ?y (rc_pc (vc_c y) q)" for q using others_written [OF inv, of p] pc by simp
  show "checked_ok ?y q" for q using vinvD(7) [OF v, of q] by (simp add: checked_ok_def)
qed (use alloc_not_pub [OF inv le v, of p] pc in simp_all)

lemma vinv_blocks:
  assumes inv: "rd_inv (vc_c y)" and le: "rc_next (vc_c y) \<le> 2 ^ 32" and v: "vinv val ofs y" and pc: "rc_pc (vc_c y) p = Alloc_taken ver"
  shows "vinv val ofs (y\<lparr>vc_data := d\<rparr>)" (is "vinv val ofs ?y")
proof (rule vinv_frame [OF v])
  have "written val ofs ?y (rc_pc (vc_c y) p)" using vinvD(5) [OF v, of p] pc by auto
  then show "written val ofs ?y (rc_pc (vc_c y) q)" for q using others_written [OF inv, of p] pc by simp
  show "checked_ok ?y q" for q using vinvD(7) [OF v, of q] by (simp add: checked_ok_def)
qed (use alloc_not_pub [OF inv le v, of p] pc in simp_all)

lemma vinv_next:
  assumes v: "vinv val ofs y" and pc: "rc_pc (vc_c y) p = Reading (bl_version (rc_bl (vc_c y)))"
  shows "vinv val ofs (y\<lparr>vc_chk := (vc_chk y)(p := True)\<rparr>)" (is "vinv val ofs ?y")
proof (rule vinv_frame [OF v])
  show "checked_ok ?y q" for q using vinvD(7) [OF v, of q] pc by (simp add: checked_ok_def)
  show "written val ofs ?y (rc_pc (vc_c y) q)" for q using vinvD(5) [OF v, of q] by (rule written_left) simp_all
qed simp_all

lemma vinv_read:
  assumes v: "vinv val ofs y" and pc: "rc_pc (vc_c y) p = Reading w"
  shows "vinv val ofs (y\<lparr>vc_got := (vc_got y)(p := (w, i, vc_data y i, vc_chk y p) # vc_got y p)\<rparr>)" (is "vinv val ofs ?y")
proof -
  have w: "w \<in> vc_pub y" using vinvD(2) [OF v, of p w] pc by simp
  have "bl_version (rc_bl (vc_c y)) = w" if "odd p" using vinvD(3) [OF v that] pc by (auto simp: nested_def)
  moreover have "bl_version (rc_bl (vc_c y)) = w" if "vc_chk y p" using vinvD(7) [OF v, of p] that pc by (simp add: checked_ok_def)
  ultimately have "copied val ofs ?y p (w, i, vc_data y i, vc_chk y p)"
    using w vinvD(4) [OF v _ w] by (auto simp: copied_def)
  moreover have "copied val ofs ?y q e" if "e \<in> set (vc_got y q)" for q e
    using vinvD(6) [OF v that] by (simp add: copied_def)
  moreover have "written val ofs ?y (rc_pc (vc_c y) q)" for q
    using vinvD(5) [OF v, of q] by (rule written_left) simp_all
  moreover have "checked_ok ?y q" for q using vinvD(7) [OF v, of q] by (simp add: checked_ok_def)
  ultimately show ?thesis using v by (auto simp: vinv_def)
qed

section \<open>Reachable states\<close>

lemma vc_step_cases:
  assumes "vc_step bs val ofs x p y = Some y'"
  obtains a c where "vc_guard a p y" "rd_step a p (vc_c y) = Some c" "y' = vc_rd ofs a p y c"
  | ver d where "rc_pc (vc_c y) p = Alloc_taken ver" "y' = y\<lparr>vc_data := d\<rparr>"
  | ver i where "rc_pc (vc_c y) p = Alloc_done ver"
      "y' = y\<lparr>vc_data := (vc_data y)(i := val ver i), vc_left := vc_left y - {i}\<rparr>"
  | "rc_pc (vc_c y) p = Reading (bl_version (rc_bl (vc_c y)))" "y' = y\<lparr>vc_chk := (vc_chk y)(p := True)\<rparr>"
  | w i where "rc_pc (vc_c y) p = Reading w" "y' = y\<lparr>vc_got := (vc_got y)(p := (w, i, vc_data y i, vc_chk y p) # vc_got y p)\<rparr>"
  | "y' = y"
proof (cases x)
  case (V_rd a)
  then show ?thesis using assms that(1) by (auto simp: vc_step_def split: if_splits option.splits)
next
  case (V_blocks d)
  then show ?thesis using assms that(2) by (cases "rc_pc (vc_c y) p") (auto simp: vc_step_def split: if_splits)
next
  case (V_write i)
  then show ?thesis using assms that(3) by (cases "rc_pc (vc_c y) p") (auto simp: vc_step_def split: if_splits)
next
  case V_next
  then show ?thesis using assms that(4,6) by (cases "rc_pc (vc_c y) p") (auto simp: vc_step_def split: if_splits)
next
  case (V_read i)
  then show ?thesis using assms that(5) by (cases "rc_pc (vc_c y) p") (auto simp: vc_step_def split: if_splits)
qed

lemma vc_start_inv: "vinv val ofs (vc_start d)"
  by (simp add: vinv_def vc_start_def rd_start_def nested_def checked_ok_def)

lemma vc_reach_rd: "vc_reach bs val ofs y \<Longrightarrow> rd_reach (vc_c y)"
proof (induction rule: vc_reach.induct)
  case vc_init
  show ?case by (simp add: vc_start_def rd_init)
next
  case (vc_next y x p y')
  from vc_next.hyps(2) show ?case
    by (cases rule: vc_step_cases) (use vc_next.IH in \<open>auto intro: rd_next\<close>)
qed

lemma vc_reach_inv: "vc_reach bs val ofs y \<Longrightarrow> rc_next (vc_c y) \<le> 2 ^ 32 \<Longrightarrow> vinv val ofs y"
proof (induction rule: vc_reach.induct)
  case vc_init
  show ?case by (rule vc_start_inv)
next
  case (vc_next y x p y')
  have le: "rc_next (vc_c y) \<le> 2 ^ 32"
    using vc_next.hyps(2) by (cases rule: vc_step_cases) (use vc_next.prems in \<open>auto dest!: next_mono\<close>)
  then have inv: "rd_inv (vc_c y)" "vinv val ofs y"
    using reach_inv [OF vc_reach_rd] vc_next.hyps(1) vc_next.IH by blast+
  from vc_next.hyps(2) show ?case
    by (cases rule: vc_step_cases) (use inv le vinv_rd vinv_write vinv_blocks vinv_next vinv_read in auto)
qed

section \<open>Properties\<close>

text \<open>C3. No value, of whatever number of blocks, is read torn while it is replaced, freed and its blocks reused,
  in every interleaving of these steps in which fewer than \<open>2 ^ 32\<close> versions have been given and the
  blocks of a chain are handed out only after they were returned. A byte that \<open>get\<close> or \<open>getKey\<close> copies
  by \<open>readBlock\<close> of the first block, or from any block after \<open>nxtBlock\<close> found the version in the first
  record, is the byte that the \<open>put\<close> of the version asked for wrote; and the bytes of the first block
  that \<open>memcmpBlk\<close> compared are those of the version asked for whenever the check of its decrement finds
  that version, without which it does not report a match.\<close>

theorem conc_reads_one_value:
  assumes "vc_reach bs val ofs y" and "rc_next (vc_c y) \<le> 2 ^ 32" and "(v, i, b, checked) \<in> set (vc_got y p)" and "i \<in> ofs v"
    and "odd p \<or> checked \<or> (\<exists>cur. rc_pc (vc_c y) p = Dec_checked False v cur)"
  shows "b = val v i"
proof -
  have "copied val ofs y p (v, i, b, checked)" using vinvD(6) [OF vc_reach_inv [OF assms(1,2)] assms(3)] .
  moreover have "bl_version (rc_bl (vc_c y)) = v" if "rc_pc (vc_c y) p = Dec_checked False v cur" for cur
    using rd_invD(2) [OF reach_inv [OF vc_reach_rd [OF assms(1)] assms(2)], of p] that by simp
  ultimately show ?thesis using assms(4,5) by (auto simp: copied_def)
qed

fun vc_run :: "nat \<Rightarrow> (u32 \<Rightarrow> nat \<Rightarrow> u8) \<Rightarrow> (u32 \<Rightarrow> nat set) \<Rightarrow> (nat \<times> vc_act) list \<Rightarrow> val_conc \<Rightarrow> val_conc option" where
  "vc_run bs val ofs [] y = Some y"
| "vc_run bs val ofs ((p, x) # xs) y = do { y \<leftarrow> vc_step bs val ofs x p y; vc_run bs val ofs xs y }"

lemma vc_reach_run: "vc_reach bs val ofs y \<Longrightarrow> vc_run bs val ofs xs y = Some z \<Longrightarrow> vc_reach bs val ofs z"
proof (induction xs arbitrary: y)
  case Nil
  then show ?case by simp
next
  case (Cons x xs)
  then show ?case by (cases x; cases "vc_step bs val ofs (snd x) (fst x) y") (auto intro: vc_next)
qed

lemmas vc_eval = rd_eval vc_step_def vc_guard_def vc_rd_def vc_start_def

text \<open>A value of two blocks of one byte: a reader copies its first byte by \<open>readBlock\<close> and its second after
  the check, the latter while the value is deleted.\<close>

theorem conc_reads_one_value_witness:
  "\<exists>y. vc_reach 1 (\<lambda>v i. if v = 1 then 65 else 66) (\<lambda>v. {0, 1}) y \<and> kr_isDeleted (bl_kr (rc_bl (vc_c y))) \<and>
     (1, 0, 65, False) \<in> set (vc_got y 3) \<and> (1, 1, 65, True) \<in> set (vc_got y 2) \<and>
     (\<forall>b c. (1, 0, b, c) \<in> set (vc_got y 3) \<longrightarrow> b = 65) \<and> (\<forall>i b. (1, 1, b, True) \<in> set (vc_got y 2) \<longrightarrow> b = 65)"
proof -
  let ?val = "\<lambda>v i. if v = 1 then 65 else 66" and ?ofs = "\<lambda>v. {0, 1}"
  let ?put = "(0, V_rd (A_take 1)) # (0, V_blocks (\<lambda>i. 7)) # replicate 6 (0, V_rd A_go) @ [(0, V_write 0), (0, V_write 1), (0, V_rd A_go)]"
  let ?get = "[(2, V_rd (A_inc 1)), (2, V_rd A_go), (2, V_rd A_go), (3, V_rd (A_inc 1)), (3, V_rd A_go), (3, V_rd A_go),
    (3, V_read 0), (3, V_rd A_go), (3, V_rd A_go), (3, V_rd A_go), (2, V_next),
    (0, V_rd A_del), (0, V_rd A_go), (0, V_rd A_go), (2, V_read 1)]"
  have "\<exists>y. vc_run 1 ?val ?ofs (?put @ ?get) (vc_start (\<lambda>i. 0)) = Some y \<and> kr_isDeleted (bl_kr (rc_bl (vc_c y))) \<and>
      rc_next (vc_c y) = 2 \<and> (1, 0, 65, False) \<in> set (vc_got y 3) \<and> (1, 1, 65, True) \<in> set (vc_got y 2)"
    by (simp add: vc_eval)
  then obtain y where y: "vc_run 1 ?val ?ofs (?put @ ?get) (vc_start (\<lambda>i. 0)) = Some y"
    "kr_isDeleted (bl_kr (rc_bl (vc_c y)))" "rc_next (vc_c y) = 2" "(1, 0, 65, False) \<in> set (vc_got y 3)"
    "(1, 1, 65, True) \<in> set (vc_got y 2)"
    by (elim exE conjE)
  have r: "vc_reach 1 ?val ?ofs y" by (rule vc_reach_run [OF vc_init y(1)])
  have "b = 65" if "(1, 0, b, c) \<in> set (vc_got y 3)" for b c
    using conc_reads_one_value [OF r _ that] y(3) by simp
  moreover have "b = 65" if "(1, 1, b, True) \<in> set (vc_got y 2)" for b
    using conc_reads_one_value [OF r _ that] y(3) by simp
  ultimately show ?thesis using r y by blast
qed

end
