(* ===== verification/Shm_Layout.thy ===== *)
theory Shm_Layout
  imports Prelude
begin

text \<open>
  Where the parts of a database lie in its shared memory: the \<open>sizeBytes\<close> functions and offsets of
  \<open>shm_lib/simdb.hpp\<close> and the addresses its constructors compute. Sizes are in the widths of the
  code; the block bytes are a 32-bit product.
\<close>

section \<open>Sizes\<close>

text \<open>\<open>lava_vec<T>::sizeBytes\<close> for elements of \<open>tsize\<close> bytes: 4 for \<open>u32\<close>, 8 for \<open>VerIdx\<close>, 24 for \<open>BlkLst\<close>.\<close>

definition lava_sizeBytes :: "u64 \<Rightarrow> u64 \<Rightarrow> u64" where "lava_sizeBytes tsize cnt = 8 + cnt * tsize"

definition lst_sizeBytes :: "u32 \<Rightarrow> u64" where "lst_sizeBytes sz = lava_sizeBytes 4 (ucast sz) + 128"

definition BlockListsOfst :: u64 where "BlockListsOfst = 8"
definition CListOfst :: "u32 \<Rightarrow> u64" where "CListOfst blockCount = BlockListsOfst + lava_sizeBytes 24 (ucast blockCount)"
definition BlksOfst :: "u32 \<Rightarrow> u64" where "BlksOfst blockCount = CListOfst blockCount + lst_sizeBytes blockCount"

definition str_sizeBytes :: "u32 \<Rightarrow> u32 \<Rightarrow> u64" where
  "str_sizeBytes blockSize blockCount = BlksOfst blockCount + ucast (blockSize * blockCount)"

definition hsh_sizeBytes :: "u32 \<Rightarrow> u64" where "hsh_sizeBytes sz = lava_sizeBytes 8 (ucast sz) + 16"

definition OffsetBytes :: u64 where "OffsetBytes = 24"

definition MemSize :: "u64 \<Rightarrow> u64 \<Rightarrow> u64" where
  "MemSize blockSize blockCount =
    hsh_sizeBytes (ucast blockCount) + str_sizeBytes (ucast blockSize) (ucast blockCount) + OffsetBytes"

section \<open>\<open>lava_vec\<close>\<close>

text \<open>An array in memory read in 64-bit words: the object is the address of its first element. The first
  constructor puts the size in front of it, the second, which the program does not use, takes an
  address that is 8 bytes off; \<open>sizeBytes()\<close> reads the first element instead of the size.\<close>

type_synonym mem64 = "u64 \<Rightarrow> u64"

definition lava_vec :: "u64 \<Rightarrow> u64 \<Rightarrow> u64 \<Rightarrow> bool \<Rightarrow> mem64 \<Rightarrow> u64 \<times> mem64" where
  "lava_vec tsize addr cnt owner mem =
     (let p = addr + 8 in (p, if owner then mem(p - 8 := lava_sizeBytes tsize cnt) else mem))"

definition lava_vec_at :: "u64 \<Rightarrow> u64" where "lava_vec_at addr = addr + 16"

definition lava_vec_sizeBytes :: "mem64 \<Rightarrow> u64 \<Rightarrow> u64" where "lava_vec_sizeBytes mem p = mem p"

definition lava_vec_elem :: "u64 \<Rightarrow> u64 \<Rightarrow> u64 \<Rightarrow> u64" where "lava_vec_elem tsize p i = p + i * tsize"

lemma lava_vec_sizeBytes_first_elem:
  "lava_vec tsize addr cnt owner mem = (p, mem') \<Longrightarrow> lava_vec_sizeBytes mem' p = mem (lava_vec_elem tsize p 0)"
  by (auto simp: lava_vec_def lava_vec_sizeBytes_def lava_vec_elem_def Let_def split: if_splits)

lemma lava_vec_at_misplaced: "lava_vec_at addr = fst (lava_vec tsize addr cnt owner mem) + 8"
  by (simp add: lava_vec_def lava_vec_at_def Let_def)

section \<open>Addresses\<close>

text \<open>The constructors of \<open>CncrHsh\<close> (with an offset in 8 bits) and \<open>CncrLst\<close> move their address to a boundary.\<close>

definition hsh_algnMem :: "u64 \<Rightarrow> u64" where
  "hsh_algnMem paddr = (let rem = (ucast (16 - paddr mod 16) :: u8); ofst = 16 - rem in paddr + ucast ofst)"

definition lst_alignAddr :: "u64 \<Rightarrow> u64" where
  "lst_alignAddr addr = (let addrRem = addr mod 64 in addr + (64 - addrRem))"

definition lst_listAddr :: "u64 \<Rightarrow> u64" where "lst_listAddr addr = lst_alignAddr addr + 64"

record region =
  rg_start :: u64
  rg_len :: nat

definition rg_end :: "region \<Rightarrow> nat" where "rg_end r = unat (rg_start r) + rg_len r"

text \<open>What the code uses of a mapping at \<open>base\<close>, in the order of the addresses: the three header words, the
  slots with their size word, the version, the block records, the head, the list, the blocks.\<close>

definition db_regions :: "u64 \<Rightarrow> u32 \<Rightarrow> u32 \<Rightarrow> region list" where
  "db_regions base bs cnt =
    (let hsh = base + OffsetBytes; str = base + hsh_sizeBytes cnt + OffsetBytes; lst = str + CListOfst cnt; n = unat cnt in
     [\<lparr>rg_start = base, rg_len = 24\<rparr>,
      \<lparr>rg_start = hsh_algnMem hsh, rg_len = 8 + 8 * n\<rparr>,
      \<lparr>rg_start = str, rg_len = 8\<rparr>,
      \<lparr>rg_start = str + BlockListsOfst, rg_len = 8 + 24 * n\<rparr>,
      \<lparr>rg_start = lst_alignAddr lst, rg_len = 8\<rparr>,
      \<lparr>rg_start = lst_listAddr lst, rg_len = 8 + 4 * n\<rparr>,
      \<lparr>rg_start = str + BlksOfst cnt, rg_len = unat bs * n\<rparr>])"

section \<open>As natural numbers\<close>

text \<open>Nothing but the product of block size and count can leave its width.\<close>

lemma unat_sizes:
  shows "unat (hsh_sizeBytes cnt) = 24 + 8 * unat cnt" and "unat (CListOfst cnt) = 16 + 24 * unat cnt"
    and "unat (lst_sizeBytes cnt) = 136 + 4 * unat cnt" and "unat (BlksOfst cnt) = 152 + 28 * unat cnt"
    and "unat (str_sizeBytes bs cnt) = 152 + 28 * unat cnt + unat bs * unat cnt mod 2 ^ 32"
proof -
  define n where "n = unat cnt"
  have n: "n < 4294967296" by (simp add: n_def)
  have u: "unat (ucast x :: u64) = unat x" for x :: u32 by (rule unat_ucast_u64)
  have s: "unat (hsh_sizeBytes cnt) = 24 + 8 * n" "unat (CListOfst cnt) = 16 + 24 * n" "unat (lst_sizeBytes cnt) = 136 + 4 * n"
    using n by (simp_all add: hsh_sizeBytes_def lava_sizeBytes_def CListOfst_def BlockListsOfst_def lst_sizeBytes_def unat_word_ariths u flip: n_def)
  then show "unat (hsh_sizeBytes cnt) = 24 + 8 * unat cnt" "unat (CListOfst cnt) = 16 + 24 * unat cnt"
    "unat (lst_sizeBytes cnt) = 136 + 4 * unat cnt" by (simp_all add: n_def)
  have b: "unat (BlksOfst cnt) = 152 + 28 * n"
    using n s by (simp add: BlksOfst_def unat_word_ariths)
  then show "unat (BlksOfst cnt) = 152 + 28 * unat cnt" by (simp add: n_def)
  define k where "k = unat (bs * cnt)"
  have k: "k < 4294967296" by (simp add: k_def)
  have "unat (str_sizeBytes bs cnt) = 152 + 28 * n + k"
    unfolding str_sizeBytes_def unat_word_ariths(1) u b k_def [symmetric] using n k by simp
  then show "unat (str_sizeBytes bs cnt) = 152 + 28 * unat cnt + unat bs * unat cnt mod 2 ^ 32"
    by (simp add: n_def k_def unat_word_ariths)
qed

lemma ucast_back: "(ucast (ucast (x :: u32) :: u64) :: u32) = x"
  unfolding word_unat_eq_iff by (subst unsigned_ucast_eq) (simp add: unat_ucast_u64 take_bit_nat_eq_self)

lemma unat_u64_add: "unat a + unat b < 2 ^ 64 \<Longrightarrow> unat (a + b :: u64) = unat a + unat b"
  by (simp add: unat_word_ariths)

lemma unat_mod_u64: "unat (a mod b :: u64) = unat a mod unat b"
  by (simp add: unat_mod)

lemma unat_hsh_algnMem: "unat a mod 16 = 8 \<Longrightarrow> unat a + 8 < 2 ^ 64 \<Longrightarrow> unat (hsh_algnMem a) = unat a + 8"
proof -
  assume a: "unat a mod 16 = 8" "unat a + 8 < 2 ^ 64"
  then have "a mod 16 = 8" by (simp add: word_unat_eq_iff unat_mod_u64)
  then have "hsh_algnMem a = a + 8" by (simp add: hsh_algnMem_def Let_def)
  with a(2) show ?thesis by (simp add: unat_u64_add)
qed

lemma unat_lst_alignAddr: "unat a + 64 < 2 ^ 64 \<Longrightarrow> unat (lst_alignAddr a) = unat a + (64 - unat a mod 64)"
proof -
  assume a: "unat a + 64 < 2 ^ 64"
  have "unat (a mod 64) < 64" by (simp add: unat_mod_u64)
  then have "unat (64 - a mod 64) = 64 - unat a mod 64" by (simp add: unat_sub word_le_nat_alt unat_mod_u64)
  then show ?thesis using a by (simp add: lst_alignAddr_def Let_def unat_u64_add)
qed

section \<open>Property\<close>

text \<open>The addresses of the parts, as distances from the base; \<open>d\<close> bytes are skipped to align the list's head.\<close>

lemma round_up_64: "(x + (64 - x mod 64)) mod 64 = (0 :: nat)"
proof -
  have *: "a * 64 + r + (64 - r) = 64 * (a + 1)" if "r < 64" for a r :: nat using that by simp
  have "x + (64 - x mod 64) = 64 * (x div 64 + 1)"
    using * [of "x mod 64" "x div 64"] unfolding div_mult_mod_eq by simp
  then show ?thesis by simp
qed

lemma db_addresses:
  assumes "base mod 64 = 0" and "unat base < 2 ^ 47" and b: "b = unat base" and n: "n = unat cnt"
    and str: "str = base + hsh_sizeBytes cnt + OffsetBytes"
  obtains d where "0 < d" and "d \<le> 64" and "(b + 64 + 32 * n + d) mod 64 = 0" and "(b + 32) mod 16 = 0"
    and "unat (hsh_algnMem (base + OffsetBytes)) = b + 32" and "unat str = b + 48 + 8 * n"
    and "unat (lst_alignAddr (str + CListOfst cnt)) = b + 64 + 32 * n + d"
    and "unat (lst_listAddr (str + CListOfst cnt)) = b + 128 + 32 * n + d"
    and "unat (str + BlockListsOfst) = b + 56 + 8 * n" and "unat (str + BlksOfst cnt) = b + 200 + 36 * n"
proof -
  have bound: "n < 4294967296" "b < 140737488355328" "b mod 64 = 0"
    using assms(1,2) unat_mod_u64 [of base 64] by (simp_all add: n b)
  note sizes = unat_sizes [of cnt, folded n]
  have hsh: "unat (base + OffsetBytes) = b + 24" using bound by (simp add: unat_u64_add OffsetBytes_def flip: b)
  obtain q where q: "b = 64 * q" using bound(3) by (auto simp: mod_eq_0_iff_dvd dvd_def)
  have q16: "b + 24 = 8 + 16 * (4 * q + 1)" "b + 32 = 16 * (4 * q + 2)" by (simp_all add: q)
  have "unat (base + OffsetBytes) mod 16 = 8" unfolding hsh q16(1) mod_mult_self2 by simp
  then have algn: "unat (hsh_algnMem (base + OffsetBytes)) = b + 32" using bound hsh by (simp add: unat_hsh_algnMem)
  have strb: "unat str = b + 48 + 8 * n"
    using bound by (simp add: str unat_u64_add OffsetBytes_def sizes(1) flip: b)
  have lst: "unat (str + CListOfst cnt) = b + 64 + 32 * n" using bound strb by (simp add: unat_u64_add sizes(2))
  define d where "d = 64 - (b + 64 + 32 * n) mod 64"
  have d: "0 < d" "d \<le> 64" "(b + 64 + 32 * n + d) mod 64 = 0" unfolding d_def by (simp, simp, rule round_up_64)
  have align: "unat (lst_alignAddr (str + CListOfst cnt)) = b + 64 + 32 * n + d"
    using bound lst by (simp add: unat_lst_alignAddr d_def)
  have list: "unat (lst_listAddr (str + CListOfst cnt)) = b + 128 + 32 * n + d"
    using bound d align by (simp add: lst_listAddr_def unat_u64_add)
  have recs: "unat (str + BlockListsOfst) = b + 56 + 8 * n"
    using bound strb by (simp add: BlockListsOfst_def unat_u64_add)
  have blks: "unat (str + BlksOfst cnt) = b + 200 + 36 * n" using bound strb by (simp add: unat_u64_add sizes(4))
  have "(b + 32) mod 16 = 0" unfolding q16(2) by simp
  from that [OF d this algn strb align list recs blks] show thesis .
qed

lemma unat_MemSize: "unat (MemSize (ucast (bs :: u32)) (ucast (cnt :: u32))) = 200 + 36 * unat cnt + unat bs * unat cnt mod 2 ^ 32"
proof -
  define n k where "n = unat cnt" and "k = unat bs * n"
  have "k mod 2 ^ 32 < 2 ^ 32" "n < 4294967296" by (simp_all add: n_def)
  then have "unat (MemSize (ucast bs) (ucast cnt)) = 200 + 36 * n + k mod 2 ^ 32"
    by (simp add: MemSize_def ucast_back unat_u64_add unat_sizes(1) unat_sizes(5) OffsetBytes_def k_def flip: n_def)
  then show ?thesis by (simp add: n_def k_def)
qed

text \<open>C16. In a page-aligned mapping of \<open>MemSize\<close> bytes the parts of the database follow one another without
  overlap and at the boundaries the constructors assert, and all of it is inside the mapping exactly
  when the bytes of the blocks are less than 4 GB: the size of the blocks is computed in 32 bits.\<close>

theorem layout_fits:
  assumes "base mod 64 = 0" and "unat base < 2 ^ 47" and "bs \<noteq> 0" and "cnt \<noteq> 0"
  shows "sorted_wrt (\<lambda>r s. rg_end r \<le> unat (rg_start s)) (db_regions base bs cnt) \<and>
    hsh_algnMem (base + OffsetBytes) mod 16 = 0 \<and> lst_alignAddr (base + hsh_sizeBytes cnt + OffsetBytes + CListOfst cnt) mod 64 = 0 \<and>
    ((\<forall>r \<in> set (db_regions base bs cnt). rg_end r \<le> unat base + unat (MemSize (ucast bs) (ucast cnt))) \<longleftrightarrow>
      unat bs * unat cnt < 2 ^ 32)"
proof -
  define n b k M where "n = unat cnt" and "b = unat base" and "k = unat bs * n" and "M = unat (MemSize (ucast bs) (ucast cnt))"
  obtain d where d: "0 < d" "d \<le> 64" "(b + 64 + 32 * n + d) mod 64 = 0" and b32: "(b + 32) mod 16 = 0"
    and at: "unat (hsh_algnMem (base + OffsetBytes)) = b + 32" "unat (base + hsh_sizeBytes cnt + OffsetBytes) = b + 48 + 8 * n"
      "unat (lst_alignAddr (base + hsh_sizeBytes cnt + OffsetBytes + CListOfst cnt)) = b + 64 + 32 * n + d"
      "unat (lst_listAddr (base + hsh_sizeBytes cnt + OffsetBytes + CListOfst cnt)) = b + 128 + 32 * n + d"
      "unat (base + hsh_sizeBytes cnt + OffsetBytes + BlockListsOfst) = b + 56 + 8 * n"
      "unat (base + hsh_sizeBytes cnt + OffsetBytes + BlksOfst cnt) = b + 200 + 36 * n"
    using db_addresses [OF assms(1,2) b_def n_def refl] by blast
  have mem: "M = 200 + 36 * n + k mod 2 ^ 32" by (simp add: M_def unat_MemSize n_def k_def)
  have "k \<le> k mod 2 ^ 32 \<longleftrightarrow> k < 2 ^ 32"
    using mod_less_divisor [of "2 ^ 32" k] by (cases "k < 2 ^ 32") simp_all
  then have inside: "200 + 36 * n + k \<le> M \<longleftrightarrow> k < 2 ^ 32" "200 + 36 * n \<le> M" unfolding mem by simp_all
  have tr: "transp (\<lambda>r s. rg_end r \<le> unat (rg_start s))" by (auto simp: transp_def rg_end_def)
  have "sorted_wrt (\<lambda>r s. rg_end r \<le> unat (rg_start s)) (db_regions base bs cnt)"
    unfolding db_regions_def Let_def
    unfolding sorted_wrt2 [OF tr] sorted_wrt1
    unfolding rg_end_def region.select_convs
    unfolding at b_def [symmetric] n_def [symmetric] using d by simp
  moreover have "hsh_algnMem (base + OffsetBytes) mod 16 = 0"
    unfolding word_unat_eq_iff unat_mod_u64 at using b32 by simp
  moreover have "lst_alignAddr (base + hsh_sizeBytes cnt + OffsetBytes + CListOfst cnt) mod 64 = 0"
    unfolding word_unat_eq_iff unat_mod_u64 at using d(3) by simp
  moreover have "(\<forall>r \<in> set (db_regions base bs cnt). rg_end r \<le> b + M) \<longleftrightarrow> k < 2 ^ 32"
    unfolding db_regions_def Let_def list.set ball_simps
    unfolding rg_end_def region.select_convs
    unfolding at b_def [symmetric] n_def [symmetric] k_def [symmetric]
    using d inside by auto
  ultimately show ?thesis unfolding M_def k_def n_def b_def by blast
qed

text \<open>The databases of the co-simulation, at an address \<open>mmap\<close> may return.\<close>

theorem layout_fits_witness:
  "list_all (\<lambda>r. rg_end r \<le> 0x7f0000000000 + unat (MemSize 1024 1024)) (db_regions 0x7f0000000000 1024 1024)"
proof -
  have "(ucast (1024 :: u32) :: u64) = 1024" by simp
  with layout_fits [of "0x7f0000000000" 1024 1024] show ?thesis by (simp add: list_all_iff)
qed

end
