(* ===== verification/Simdb_Life.thy ===== *)
theory Simdb_Life
  imports Simdb Shm_Layout
begin

text \<open>
  Opening and closing a database: \<open>SharedMem\<close> and the constructor, \<open>close\<close> and destructor of \<open>simdb\<close>,
  the branches for Linux. A world holds the directory and the files; a file's content is its header
  words and the arrays behind them, \<open>None\<close> while they are still the zeros of a new file. Whether the
  system calls succeed is an argument; what a handle cannot do without undefined behaviour or a
  failing \<open>assert\<close> is \<open>None\<close>.
\<close>

section \<open>The world\<close>

datatype simdb_error = NO_ERRORS | DIR_NOT_FOUND | DIR_ENTRY_ERROR | COULD_NOT_OPEN_MAP_FILE |
  COULD_NOT_MEMORY_MAP_FILE | SHARED_MEMORY_ERROR | FTRUNCATE_FAILURE | FLOCK_FAILURE | PATH_TOO_LONG

record shm_file =
  sf_flags :: u32
  sf_cnt :: u32
  sf_blockSize :: u64
  sf_blockCount :: u64
  sf_len :: u64
  sf_data :: "(cncr_str \<times> u64 list) option"

record shm_world =
  w_dir :: "string \<Rightarrow> nat option"
  w_files :: "nat \<Rightarrow> shm_file"
  w_next :: nat

definition new_file :: shm_file where
  "new_file = \<lparr>sf_flags = 0, sf_cnt = 0, sf_blockSize = 0, sf_blockCount = 0, sf_len = 0, sf_data = None\<rparr>"

text \<open>\<open>oc_open\<close>: the first \<open>open\<close> finds the file if it is there (another process may create it just after).\<close>

record os_calls =
  oc_open :: bool
  oc_create :: bool
  oc_truncate :: bool
  oc_unlock :: bool
  oc_map :: bool

section \<open>\<open>SharedMem\<close>\<close>

text \<open>A pointer is null, never written, \<open>MAP_FAILED\<close>, or the mapping of a file.\<close>

datatype shm_ptr = Null_ptr | Wild_ptr | Map_failed | Mapped nat

record shared_mem =
  sm_hndlPtr :: shm_ptr
  sm_ptr :: shm_ptr
  sm_size :: u64
  sm_owner :: bool
  sm_path :: string

definition sm_clear :: "shared_mem \<Rightarrow> shared_mem" where
  "sm_clear m = m\<lparr>sm_hndlPtr := Null_ptr, sm_ptr := Null_ptr, sm_size := 0, sm_owner := False\<rparr>"

text \<open>The mapping goes away with \<open>munmap\<close>; what others see is that the name is removed.\<close>

definition FreeAnon :: "shared_mem \<Rightarrow> shm_world \<Rightarrow> shared_mem \<times> shm_world" where
  "FreeAnon m w = (sm_clear m, w\<lparr>w_dir := (w_dir w)(sm_path m := None)\<rparr>)"

definition shm_path :: "string \<Rightarrow> string" where "shm_path name = ''/tmp/simdb_'' @ name"

definition AllocAnon :: "os_calls \<Rightarrow> string \<Rightarrow> u64 \<Rightarrow> shm_world \<Rightarrow> (shared_mem \<times> simdb_error) \<times> shm_world" where
  "AllocAnon c name sizeBytes w =
    (if length (shm_path name) > 255
     then ((\<lparr>sm_hndlPtr = Null_ptr, sm_ptr = Wild_ptr, sm_size = sizeBytes, sm_owner = False, sm_path = shm_path []\<rparr>,
            PATH_TOO_LONG), w)
     else
       (let path = shm_path name;
            found = (if oc_open c then w_dir w path else None);
            owner = (found = None);
            (fd, e, w) =
              (case found of
                 Some f \<Rightarrow> (Some f, NO_ERRORS, w)
               | None \<Rightarrow>
                   if \<not> oc_create c then (None, COULD_NOT_OPEN_MAP_FILE, w)
                   else (case w_dir w path of
                       Some f \<Rightarrow> (Some f, NO_ERRORS, w)
                     | None \<Rightarrow> (Some (w_next w), NO_ERRORS, w\<lparr>w_dir := (w_dir w)(path \<mapsto> w_next w),
                         w_files := (w_files w)(w_next w := new_file), w_next := Suc (w_next w)\<rparr>)));
            (e, w) =
              (if \<not> owner then (e, w)
               else
                 (let (e, w) = (case fd of
                         Some f \<Rightarrow> if oc_truncate c
                           then (e, w\<lparr>w_files := (w_files w)(f := (w_files w f)\<lparr>sf_len := sizeBytes\<rparr>)\<rparr>)
                           else (FTRUNCATE_FAILURE, w)
                       | None \<Rightarrow> (FTRUNCATE_FAILURE, w))
                  in (if fd \<noteq> None \<and> oc_unlock c then e else FLOCK_FAILURE, w)));
            ptr = (case fd of Some f \<Rightarrow> if oc_map c then Mapped f else Map_failed | None \<Rightarrow> Map_failed);
            e = (if ptr = Map_failed then COULD_NOT_MEMORY_MAP_FILE else e)
        in ((\<lparr>sm_hndlPtr = ptr, sm_ptr = ptr, sm_size = sizeBytes, sm_owner = owner, sm_path = path\<rparr>, e), w)))"

text \<open>The destructor.\<close>

definition SharedMem_destroy :: "shared_mem \<Rightarrow> shm_world \<Rightarrow> shm_world option" where
  "SharedMem_destroy m w = (case sm_ptr m of
     Null_ptr \<Rightarrow> Some w
   | Mapped f \<Rightarrow>
       (let cnt = sf_cnt (w_files w f);
            w = (if cnt > 0 then w\<lparr>w_files := (w_files w)(f := (w_files w f)\<lparr>sf_cnt := cnt - 1\<rparr>)\<rparr> else w)
        in Some (if cnt = 1 then snd (FreeAnon m w) else w))
   | _ \<Rightarrow> None)"

section \<open>\<open>simdb\<close>\<close>

text \<open>\<open>dh_hdr\<close> stands for the pointers into the mapping: \<open>s_flags\<close>, \<open>s_cnt\<close>, the sizes and the arrays.\<close>

record db_handle =
  dh_hdr :: shm_ptr
  dh_mem :: shared_mem
  dh_error :: simdb_error
  dh_isOpen :: bool
  dh_sz :: u32
  dh_nxtChIdx :: u32
  dh_blkCnt :: u64

text \<open>The arrays of a file for the constructors: what it holds, or zeros.\<close>

definition file_arrays :: "shm_file \<Rightarrow> u32 \<Rightarrow> u32 \<Rightarrow> u32 list \<times> bytes \<times> u64 list" where
  "file_arrays f bs cnt = (case sf_data f of
     Some (cs, vis) \<Rightarrow> (cl_lv (cs_cl cs), cs_blks cs, vis)
   | None \<Rightarrow> (replicate (unat cnt) 0, replicate (unat cnt * unat bs) 0, replicate (unat cnt) 0))"

definition failed_handle :: "shared_mem \<Rightarrow> simdb_error \<Rightarrow> db_handle" where
  "failed_handle m e = \<lparr>dh_hdr = Wild_ptr, dh_mem = m, dh_error = e, dh_isOpen = False, dh_sz = 0, dh_nxtChIdx = 0, dh_blkCnt = 0\<rparr>"

text \<open>The constructor. A process that is not the owner takes the sizes in the header; when its own mapping
  is too small for them, or the owner has not written them yet, it is undefined.\<close>

definition simdb_open :: "os_calls \<Rightarrow> string \<Rightarrow> u32 \<Rightarrow> u32 \<Rightarrow> shm_world \<Rightarrow> (db_handle \<times> shm_world) option" where
  "simdb_open c name blockSize blockCount w =
    (let ((m, e), w) = AllocAnon c name (MemSize (ucast blockSize) (ucast blockCount)) w in
     if e \<noteq> NO_ERRORS then Some (failed_handle m e, w)
     else case sm_ptr m of
       Mapped f \<Rightarrow>
         (let file = w_files w f;
              file = (if sm_owner m
                then file\<lparr>sf_blockCount := ucast blockCount, sf_blockSize := ucast blockSize, sf_cnt := 1\<rparr>
                else file\<lparr>sf_cnt := sf_cnt file + 1\<rparr>);
              need = MemSize (sf_blockSize file) (sf_blockCount file);
              bs = ucast (sf_blockSize file); cnt = ucast (sf_blockCount file)
          in if sm_size m < need then None
             else do {
               ch \<leftarrow> (if sm_owner m then
                   (case file_arrays file bs cnt of (lmem, bmem, vmem) \<Rightarrow>
                      do { db \<leftarrow> simdb_init bs cnt lmem bmem vmem; Some (sd_ch db) })
                 else (case sf_data file of None \<Rightarrow> None | Some (cs, vis) \<Rightarrow> CncrHsh_init cnt vis cs False));
               let file = file\<lparr>sf_data := Some (ch_cs ch, ch_vis ch),
                 sf_flags := (if sm_owner m then 1 else sf_flags file)\<rparr>;
               Some (\<lparr>dh_hdr = Mapped f, dh_mem = m\<lparr>sm_size := need\<rparr>, dh_error = NO_ERRORS, dh_isOpen = True, dh_sz = ch_sz ch,
                   dh_nxtChIdx = 0, dh_blkCnt = sf_blockCount file\<rparr>,
                 w\<lparr>w_files := (w_files w)(f := file)\<rparr>) })
     | _ \<Rightarrow> Some (failed_handle m SHARED_MEMORY_ERROR, w))"

text \<open>\<open>close\<close> counts down the flags, which the owner set to 1 and no opener counts up.\<close>

definition simdb_close :: "db_handle \<Rightarrow> shm_world \<Rightarrow> (bool \<times> db_handle \<times> shm_world) option" where
  "simdb_close h w =
    (if \<not> dh_isOpen h then Some (False, h, w)
     else case dh_hdr h of
       Mapped f \<Rightarrow>
         (let h = h\<lparr>dh_isOpen := False\<rparr>;
              prev = sf_flags (w_files w f);
              w = w\<lparr>w_files := (w_files w)(f := (w_files w f)\<lparr>sf_flags := prev - 1\<rparr>)\<rparr>
          in if prev = 1 then (let (m, w) = FreeAnon (dh_mem h) w in Some (True, h\<lparr>dh_mem := m\<rparr>, w))
             else Some (False, h, w))
     | _ \<Rightarrow> None)"

definition simdb_destroy :: "db_handle \<Rightarrow> shm_world \<Rightarrow> shm_world option" where
  "simdb_destroy h w = do { (_, h, w) \<leftarrow> simdb_close h w; SharedMem_destroy (dh_mem h) w }"

text \<open>Moving: the source's mapping is cleared, its other fields are copied and stay.\<close>

definition SharedMem_mv :: "shared_mem \<Rightarrow> shared_mem \<times> shared_mem" where
  "SharedMem_mv rval = (rval, sm_clear rval)"

definition simdb_mv :: "db_handle \<Rightarrow> db_handle \<times> db_handle" where
  "simdb_mv rval = (let (m, rm) = SharedMem_mv (dh_mem rval) in (rval\<lparr>dh_mem := m\<rparr>, rval\<lparr>dh_mem := rm\<rparr>))"

text \<open>An operation through a handle: on the arrays of the file, with the handle's own sizes.\<close>

definition db_of :: "db_handle \<Rightarrow> shm_world \<Rightarrow> simdb option" where
  "db_of h w = (case dh_hdr h of
     Mapped f \<Rightarrow> (case sf_data (w_files w f) of
         Some (cs, vis) \<Rightarrow> Some \<lparr>sd_ch = \<lparr>ch_sz = dh_sz h, ch_vis = vis, ch_cs = cs\<rparr>,
           sd_nxtChIdx = dh_nxtChIdx h, sd_blkCnt = dh_blkCnt h\<rparr>
       | None \<Rightarrow> None)
   | _ \<Rightarrow> None)"

definition db_store :: "db_handle \<Rightarrow> simdb \<Rightarrow> shm_world \<Rightarrow> db_handle \<times> shm_world" where
  "db_store h db w = (case dh_hdr h of
     Mapped f \<Rightarrow> (h\<lparr>dh_nxtChIdx := sd_nxtChIdx db\<rparr>,
       w\<lparr>w_files := (w_files w)(f := (w_files w f)\<lparr>sf_data := Some (ch_cs (sd_ch db), ch_vis (sd_ch db))\<rparr>)\<rparr>)
   | _ \<Rightarrow> (h, w))"

definition via :: "(simdb \<Rightarrow> ('a \<times> simdb) option) \<Rightarrow> db_handle \<Rightarrow> shm_world \<Rightarrow> ('a \<times> db_handle \<times> shm_world) option" where
  "via f h w = do { db \<leftarrow> db_of h w; (r, db) \<leftarrow> f db; let (h, w) = db_store h db w; Some (r, h, w) }"

end
