(* ===== verification/Simdb_Life_Spec.thy ===== *)
theory Simdb_Life_Spec
  imports Simdb_Life
begin

text \<open>
  What opening and closing promise: a process that opens the name of an open database shares it, and
  what goes wrong when the first of them closes it or when the mapping fails.
\<close>

definition calls_ok :: os_calls where
  "calls_ok = \<lparr>oc_open = True, oc_create = True, oc_truncate = True, oc_unlock = True, oc_map = True\<rparr>"

definition short_name :: "string \<Rightarrow> bool" where
  "short_name name \<longleftrightarrow> length (shm_path name) \<le> 255"

definition owner_mem :: "nat \<Rightarrow> u64 \<Rightarrow> string \<Rightarrow> bool \<Rightarrow> shared_mem" where
  "owner_mem f sz name owner = \<lparr>sm_hndlPtr = Mapped f, sm_ptr = Mapped f, sm_size = sz, sm_owner = owner, sm_path = shm_path name\<rparr>"

text \<open>The world after a new file of \<open>sz\<close> bytes was made.\<close>

definition with_new_file :: "string \<Rightarrow> u64 \<Rightarrow> shm_world \<Rightarrow> shm_world" where
  "with_new_file name sz w = w\<lparr>w_dir := (w_dir w)(shm_path name \<mapsto> w_next w),
     w_files := (w_files w)(w_next w := new_file\<lparr>sf_len := sz\<rparr>), w_next := Suc (w_next w)\<rparr>"

lemma AllocAnon_new: "short_name name \<Longrightarrow> w_dir w (shm_path name) = None \<Longrightarrow>
  AllocAnon calls_ok name sz w = ((owner_mem (w_next w) sz name True, NO_ERRORS), with_new_file name sz w)"
  by (simp add: AllocAnon_def calls_ok_def short_name_def owner_mem_def with_new_file_def Let_def)

lemma AllocAnon_found: "short_name name \<Longrightarrow> w_dir w (shm_path name) = Some f \<Longrightarrow>
  AllocAnon calls_ok name sz w = ((owner_mem f sz name False, NO_ERRORS), w)"
  by (simp add: AllocAnon_def calls_ok_def short_name_def owner_mem_def Let_def)

text \<open>An open database: its file has the name, the header and the arrays it should have.\<close>

definition db_at :: "shm_world \<Rightarrow> string \<Rightarrow> nat \<Rightarrow> u32 \<Rightarrow> u32 \<Rightarrow> bool" where
  "db_at w name f bs cnt \<longleftrightarrow> w_dir w (shm_path name) = Some f \<and>
     sf_blockSize (w_files w f) = ucast bs \<and> sf_blockCount (w_files w f) = ucast cnt \<and> sf_data (w_files w f) \<noteq> None"

definition handle_of :: "nat \<Rightarrow> string \<Rightarrow> u32 \<Rightarrow> u32 \<Rightarrow> bool \<Rightarrow> u32 \<Rightarrow> db_handle" where
  "handle_of f name bs cnt owner sz = \<lparr>dh_hdr = Mapped f, dh_mem = owner_mem f (MemSize (ucast bs) (ucast cnt)) name owner, dh_error = NO_ERRORS,
     dh_isOpen = True, dh_sz = sz, dh_nxtChIdx = 0, dh_blkCnt = ucast cnt\<rparr>"

lemma rep_of_table: "db_rep P db m n \<Longrightarrow> sd_ch db' = sd_ch db \<Longrightarrow> db_rep P db' m n"
  by (simp add: db_rep_def)

lemma rep_size: "db_rep P db m n \<Longrightarrow> ch_sz (sd_ch db) = dp_sz P"
  by (auto simp: db_rep_def Let_def)

lemma open_new:
  assumes "short_name name" and "w_dir w (shm_path name) = None" and "4 < bs" and "0 < unat cnt" and "unat cnt * unat bs < 2 ^ 32"
    and "dp_sz P = cnt" and "dp_bs P = bs"
  shows "\<exists>w' db. simdb_open calls_ok name bs cnt w = Some (handle_of (w_next w) name bs cnt True cnt, w') \<and>
    db_at w' name (w_next w) bs cnt \<and> sf_flags (w_files w' (w_next w)) = 1 \<and> sf_cnt (w_files w' (w_next w)) = 1 \<and>
    w_next w' = Suc (w_next w) \<and>
    db_of (handle_of (w_next w) name bs cnt True cnt) w' = Some db \<and> db_rep P db Map.empty (2 ^ 32 - 1)"
proof -
  let ?w = "with_new_file name (MemSize (ucast bs) (ucast cnt)) w"
  obtain db where db: "simdb_init bs cnt (replicate (unat cnt) 0) (replicate (unat cnt * unat bs) 0) (replicate (unat cnt) 0) = Some db"
    "db_rep P db Map.empty (2 ^ 32 - 1)"
    using simdb_init_rep [OF assms(3,4) _ _ assms(5) _ assms(6,7)] by (metis length_replicate order_refl)
  have sz: "ch_sz (sd_ch db) = cnt" using rep_size [OF db(2)] assms(6) by simp
  let ?db = "\<lparr>sd_ch = \<lparr>ch_sz = cnt, ch_vis = ch_vis (sd_ch db), ch_cs = ch_cs (sd_ch db)\<rparr>, sd_nxtChIdx = 0, sd_blkCnt = ucast cnt\<rparr>"
  have "sd_ch ?db = sd_ch db" by (simp flip: sz)
  from rep_of_table [OF db(2) this] show ?thesis
    using AllocAnon_new [OF assms(1,2), of "MemSize (ucast bs) (ucast cnt)"] db(1) sz
    by (simp add: simdb_open_def with_new_file_def owner_mem_def new_file_def ucast_back file_arrays_def handle_of_def db_at_def db_of_def Let_def)
qed

lemma open_found:
  assumes "short_name name" and "db_at w name f bs cnt" and "4 < bs" and "MemSize (ucast bs) (ucast cnt) \<le> MemSize (ucast bs2) (ucast cnt2)"
  shows "\<exists>w'. simdb_open calls_ok name bs2 cnt2 w = Some (handle_of f name bs cnt False (nextPowerOf2 cnt), w') \<and>
    db_at w' name f bs cnt \<and> sf_cnt (w_files w' f) = sf_cnt (w_files w f) + 1 \<and>
    sf_flags (w_files w' f) = sf_flags (w_files w f) \<and> sf_data (w_files w' f) = sf_data (w_files w f) \<and> w_dir w' = w_dir w \<and>
    w_next w' = w_next w"
  using AllocAnon_found [OF assms(1), of w f "MemSize (ucast bs2) (ucast cnt2)"] assms(2-4)
  by (auto simp: simdb_open_def db_at_def owner_mem_def ucast_back handle_of_def Let_def CncrHsh_init_def not_less)

text \<open>Two processes open a name that is not there yet.\<close>

definition life_params :: "string \<Rightarrow> u32 \<Rightarrow> u32 \<Rightarrow> u32 \<Rightarrow> u32 \<Rightarrow> bool" where
  "life_params name bs cnt bs2 cnt2 \<longleftrightarrow> short_name name \<and> 4 < bs \<and> 0 < unat cnt \<and> unat cnt * unat bs < 2 ^ 32 \<and>
     nextPowerOf2 cnt = cnt \<and> MemSize (ucast bs) (ucast cnt) \<le> MemSize (ucast bs2) (ucast cnt2)"

lemma open_both:
  assumes "life_params name bs cnt bs2 cnt2" and "w_dir w (shm_path name) = None" and "dp_sz P = cnt" and "dp_bs P = bs"
  shows "\<exists>w1 w2 db. let f = w_next w; h1 = handle_of f name bs cnt True cnt; h2 = handle_of f name bs cnt False cnt in
    simdb_open calls_ok name bs cnt w = Some (h1, w1) \<and> simdb_open calls_ok name bs2 cnt2 w1 = Some (h2, w2) \<and>
    db_at w2 name f bs cnt \<and> sf_flags (w_files w2 f) = 1 \<and> sf_cnt (w_files w2 f) = 2 \<and>
    w_next w2 = Suc f \<and> db_of h1 w2 = Some db \<and> db_of h2 w2 = Some db \<and> db_rep P db Map.empty (2 ^ 32 - 1)"
proof -
  note p = assms(1) [unfolded life_params_def]
  let ?f = "w_next w"
  from open_new [OF p [THEN conjunct1] assms(2) _ _ _ assms(3,4)] p obtain w1 db where
    1: "simdb_open calls_ok name bs cnt w = Some (handle_of ?f name bs cnt True cnt, w1)" "db_at w1 name ?f bs cnt"
      "sf_flags (w_files w1 ?f) = 1" "sf_cnt (w_files w1 ?f) = 1" "w_next w1 = Suc ?f"
      "db_of (handle_of ?f name bs cnt True cnt) w1 = Some db" "db_rep P db Map.empty (2 ^ 32 - 1)" by auto
  from open_found [OF p [THEN conjunct1] 1(2)] p obtain w2 where
    2: "simdb_open calls_ok name bs2 cnt2 w1 = Some (handle_of ?f name bs cnt False cnt, w2)" "db_at w2 name ?f bs cnt"
      "sf_cnt (w_files w2 ?f) = sf_cnt (w_files w1 ?f) + 1" "sf_flags (w_files w2 ?f) = sf_flags (w_files w1 ?f)"
      "sf_data (w_files w2 ?f) = sf_data (w_files w1 ?f)" "w_next w2 = w_next w1" by fastforce
  have "db_of (handle_of ?f name bs cnt o' cnt) w2 = Some db" for o'
    using 1(6) 2(5) by (auto simp: db_of_def handle_of_def owner_mem_def split: option.splits)
  with 1 2 show ?thesis by (auto simp: Let_def)
qed

section \<open>Properties\<close>

text \<open>C17. Two processes that open the same name share the database: the second one takes the sizes of the
  first from the header, and what either puts, the other gets.\<close>

theorem life_put_seen_by_other:
  assumes "life_params name bs cnt bs2 cnt2" and "w_dir w (shm_path name) = None" and "dp_sz P = cnt" and "dp_bs P = bs"
    and "db_fits P k v"
  shows "\<exists>h1 w1 h2 w2. simdb_open calls_ok name bs cnt w = Some (h1, w1) \<and> simdb_open calls_ok name bs2 cnt2 w1 = Some (h2, w2) \<and>
    (\<forall>(h, h') \<in> {(h1, h2), (h2, h1)}. \<exists>w3 x. via (\<lambda>db. sd_put db k v) h w2 = Some (True, h, w3) \<and>
       via (\<lambda>db. sd_get_vec 16 db k) h' w3 = Some (x, h', w3) \<and> take (length v) x = v)"
proof -
  let ?f = "w_next w"
  let ?h = "\<lambda>owner. handle_of ?f name bs cnt owner cnt"
  obtain w1 w2 db where o: "simdb_open calls_ok name bs cnt w = Some (?h True, w1)"
      "simdb_open calls_ok name bs2 cnt2 w1 = Some (?h False, w2)" "db_of (?h True) w2 = Some db" "db_of (?h False) w2 = Some db"
    and rep: "db_rep P db Map.empty (Suc (2 ^ 32 - 2))"
    using open_both [OF assms(1-4)] by (auto simp: Let_def)
  obtain db' where put: "sd_put db k v = Some (True, db')" and rep': "db_rep P db' (Map.empty(k \<mapsto> v)) (2 ^ 32 - 2)"
    using db16.put_ok [OF rep assms(5)] by (elim exE conjE)
  obtain x where x: "sd_get_vec 16 db' k = Some (x, db')" "take (length v) x = v"
    using db16.get_Some [OF rep', of k v] db16.fits_key [OF assms(5)] by auto
  have sz: "ch_sz (sd_ch db') = cnt" "ch_sz (sd_ch db) = cnt" using rep_size [OF rep'] rep_size [OF rep] assms(3) by simp_all
  have same: "sd_nxtChIdx db' = sd_nxtChIdx db" "sd_blkCnt db' = sd_blkCnt db"
    using put by (auto simp: sd_put_def split: bind_splits)
  have loc: "sd_nxtChIdx db = 0" "sd_blkCnt db = ucast cnt"
    using o(3) by (auto simp: db_of_def handle_of_def split: shm_ptr.splits option.splits)
  let ?w3 = "w2\<lparr>w_files := (w_files w2)(?f := (w_files w2 ?f)\<lparr>sf_data := Some (ch_cs (sd_ch db'), ch_vis (sd_ch db'))\<rparr>)\<rparr>"
  have store: "db_store (?h b) db' w2 = (?h b, ?w3)" for b
    using same loc by (simp add: db_store_def handle_of_def owner_mem_def)
  have "db_of (?h b) ?w3 = Some db'" for b
    using same loc by (simp add: db_of_def handle_of_def owner_mem_def flip: sz(1))
  then have get: "via (\<lambda>db. sd_get_vec 16 db k) (?h b) ?w3 = Some (x, ?h b, ?w3)" for b
    using x(1) same loc by (simp add: via_def db_store_def handle_of_def owner_mem_def)
  have "via (\<lambda>db. sd_put db k v) (?h b) w2 = Some (True, ?h b, ?w3)" for b
    using o(3,4) put store by (cases b) (simp_all add: via_def)
  with get x(2) have "\<forall>(h, h') \<in> {(?h True, ?h False), (?h False, ?h True)}. \<exists>w3 x. via (\<lambda>db. sd_put db k v) h w2 = Some (True, h, w3) \<and>
       via (\<lambda>db. sd_get_vec 16 db k) h' w3 = Some (x, h', w3) \<and> take (length v) x = v" by blast
  with o show ?thesis by blast
qed

lemma cosim_life: "life_params name 1024 1024 1024 1024 \<longleftrightarrow> short_name name"
  by (simp add: life_params_def nextPowerOf2_def)

definition empty_world :: shm_world where
  "empty_world = \<lparr>w_dir = (\<lambda>s. None), w_files = (\<lambda>f. new_file), w_next = 0\<rparr>"

definition life_db :: db_params where
  "life_db = \<lparr>dp_keys = {[97]}, dp_chain = 1, dp_sz = 1024, dp_bs = 1024\<rparr>"

lemma life_db_fits: "db_fits life_db [97] [1, 2]"
  by (simp add: db_fits_def db_key_ok_def params_ok_def life_db_def ceil_div_def inj_on_def)

lemma cosim_name: "short_name (''ram_ipc_db_42'')"
  by (simp add: short_name_def shm_path_def)

theorem life_put_seen_by_other_witness:
  "\<exists>h1 w1 h2 w2 w3 x. simdb_open calls_ok ''ram_ipc_db_42'' 1024 1024 empty_world = Some (h1, w1) \<and>
    simdb_open calls_ok ''ram_ipc_db_42'' 1024 1024 w1 = Some (h2, w2) \<and>
    via (\<lambda>db. sd_put db [97] [1, 2]) h2 w2 = Some (True, h2, w3) \<and>
    via (\<lambda>db. sd_get_vec 16 db [97]) h1 w3 = Some (x, h1, w3) \<and> take 2 x = [1, 2]"
proof -
  have "life_params ''ram_ipc_db_42'' 1024 1024 1024 1024" using cosim_name by (simp add: cosim_life)
  from life_put_seen_by_other [OF this, of empty_world life_db, OF _ _ _ life_db_fits]
  show ?thesis by (simp add: empty_world_def life_db_def numeral_2_eq_2) blast
qed

text \<open>C34. The database does not live until its last user closes it: the first of two processes that closes it
  removes its name, whichever it is, while the other still uses it. A process that opens the name then
  gets a new database, and when the other one closes, it is not told that it was the last.\<close>

theorem life_first_close_removes:
  assumes "life_params name bs cnt bs2 cnt2" and "w_dir w (shm_path name) = None"
  shows "\<exists>h1 w1 h2 w2. simdb_open calls_ok name bs cnt w = Some (h1, w1) \<and> simdb_open calls_ok name bs2 cnt2 w1 = Some (h2, w2) \<and>
    (\<forall>(h, h') \<in> {(h1, h2), (h2, h1)}. \<exists>g w3. simdb_close h w2 = Some (True, g, w3) \<and> w_dir w3 (shm_path name) = None \<and>
       db_of h' w3 \<noteq> None \<and> (\<exists>g' w4. simdb_close h' w3 = Some (False, g', w4)) \<and>
       (\<exists>h3 w4. simdb_open calls_ok name bs cnt w3 = Some (h3, w4) \<and> sm_ptr (dh_mem h3) \<noteq> sm_ptr (dh_mem h')))"
proof -
  note p = assms(1) [unfolded life_params_def]
  let ?f = "w_next w"
  let ?h = "\<lambda>owner. handle_of ?f name bs cnt owner cnt"
  let ?P = "\<lparr>dp_keys = {}, dp_chain = 1, dp_sz = cnt, dp_bs = bs\<rparr>"
  obtain w1 w2 db where o: "simdb_open calls_ok name bs cnt w = Some (?h True, w1)"
      "simdb_open calls_ok name bs2 cnt2 w1 = Some (?h False, w2)" "db_of (?h True) w2 = Some db" "db_of (?h False) w2 = Some db"
    and at: "sf_flags (w_files w2 ?f) = 1" "w_next w2 = Suc ?f"
    using open_both [OF assms, of ?P] by (auto simp: Let_def)
  let ?w3 = "w2\<lparr>w_files := (w_files w2)(?f := (w_files w2 ?f)\<lparr>sf_flags := 0\<rparr>), w_dir := (w_dir w2)(shm_path name := None)\<rparr>"
  have c: "\<exists>g. simdb_close (?h b) w2 = Some (True, g, ?w3)" for b
    using at by (simp add: simdb_close_def handle_of_def owner_mem_def FreeAnon_def)
  have c': "\<exists>g' w4. simdb_close (?h b) ?w3 = Some (False, g', w4)" for b
    by (simp add: simdb_close_def handle_of_def owner_mem_def Let_def)
  have d: "db_of (?h b) ?w3 \<noteq> None" for b
    using o(3) by (auto simp: db_of_def handle_of_def owner_mem_def split: option.splits)
  have "\<exists>w4. simdb_open calls_ok name bs cnt ?w3 = Some (handle_of (Suc ?f) name bs cnt True cnt, w4)"
    using open_new [OF p [THEN conjunct1], of ?w3 bs cnt ?P] p at by auto
  then have n: "\<exists>h3 w4. simdb_open calls_ok name bs cnt ?w3 = Some (h3, w4) \<and> sm_ptr (dh_mem h3) \<noteq> sm_ptr (dh_mem (?h b))" for b
    by (auto simp: handle_of_def owner_mem_def)
  have "\<exists>g w3. simdb_close (?h b) w2 = Some (True, g, w3) \<and> w_dir w3 (shm_path name) = None \<and>
      db_of (?h b') w3 \<noteq> None \<and> (\<exists>g' w4. simdb_close (?h b') w3 = Some (False, g', w4)) \<and>
      (\<exists>h3 w4. simdb_open calls_ok name bs cnt w3 = Some (h3, w4) \<and> sm_ptr (dh_mem h3) \<noteq> sm_ptr (dh_mem (?h b')))" for b b'
  proof -
    obtain g where "simdb_close (?h b) w2 = Some (True, g, ?w3)" using c by blast
    then show ?thesis using c' [of b'] d [of b'] n [of b'] by (intro exI [of _ g] exI [of _ ?w3]) simp
  qed
  with o(1,2) show ?thesis by blast
qed

theorem life_first_close_removes_witness:
  "\<exists>h1 w1 h2 w2 g w3. simdb_open calls_ok ''ram_ipc_db_42'' 1024 1024 empty_world = Some (h1, w1) \<and>
    simdb_open calls_ok ''ram_ipc_db_42'' 1024 1024 w1 = Some (h2, w2) \<and>
    simdb_close h1 w2 = Some (True, g, w3) \<and> w_dir w3 ''/tmp/simdb_ram_ipc_db_42'' = None \<and> db_of h2 w3 \<noteq> None"
proof -
  have "life_params ''ram_ipc_db_42'' 1024 1024 1024 1024" using cosim_name by (simp add: cosim_life)
  from life_first_close_removes [OF this, of empty_world] show ?thesis
    by (simp add: empty_world_def shm_path_def) blast
qed

lemma case_const: "\<not> b \<Longrightarrow> (case x of None \<Rightarrow> c | Some y \<Rightarrow> if b then g y else c) = c"
  by (cases x) simp_all

lemma alloc_failed:
  "\<not> short_name name \<Longrightarrow> snd (fst (AllocAnon c name sz w)) = PATH_TOO_LONG \<and> sm_ptr (fst (fst (AllocAnon c name sz w))) = Wild_ptr"
  "short_name name \<Longrightarrow> \<not> oc_map c \<Longrightarrow> snd (fst (AllocAnon c name sz w)) = COULD_NOT_MEMORY_MAP_FILE \<and>
    sm_ptr (fst (fst (AllocAnon c name sz w))) = Map_failed"
  by (simp_all add: AllocAnon_def short_name_def Let_def case_prod_beta case_const)

text \<open>C35. When the mapping fails the handle says so and is not open, but it keeps the pointer \<open>MAP_FAILED\<close>:
  destroying it reads through that pointer. The same happens with a name that is too long.\<close>

theorem life_failed_open_not_destroyable:
  assumes "(short_name name \<and> \<not> oc_map c \<and> e = COULD_NOT_MEMORY_MAP_FILE) \<or> (\<not> short_name name \<and> e = PATH_TOO_LONG)"
  shows "\<exists>h w'. simdb_open c name bs cnt w = Some (h, w') \<and> dh_error h = e \<and> \<not> dh_isOpen h \<and> simdb_destroy h w' = None"
proof -
  let ?r = "AllocAnon c name (MemSize (ucast bs) (ucast cnt)) w"
  have "snd (fst ?r) = e \<and> sm_ptr (fst (fst ?r)) \<in> {Map_failed, Wild_ptr}"
    using assms alloc_failed [of name c _ w] by auto
  then obtain m w' where "?r = ((m, e), w')" "sm_ptr m = Map_failed \<or> sm_ptr m = Wild_ptr" by (cases ?r) auto
  moreover have "e \<noteq> NO_ERRORS" using assms by auto
  ultimately show ?thesis
    by (auto simp: simdb_open_def failed_handle_def simdb_destroy_def simdb_close_def SharedMem_destroy_def split: shm_ptr.splits)
qed

theorem life_failed_open_not_destroyable_witness:
  "\<exists>h w'. simdb_open (calls_ok\<lparr>oc_map := False\<rparr>) ''ram_ipc_db_42'' 1024 1024 empty_world = Some (h, w') \<and>
    dh_error h = COULD_NOT_MEMORY_MAP_FILE \<and> \<not> dh_isOpen h \<and> simdb_destroy h w' = None"
  by (rule life_failed_open_not_destroyable) (simp add: cosim_name calls_ok_def)

text \<open>A database that was moved from still counts as open: destroying it removes the name of the one that
  was moved to.\<close>

theorem life_moved_from_closes:
  assumes "short_name name" and "w_dir w (shm_path name) = None" and "4 < bs" and "0 < unat cnt" and "unat cnt * unat bs < 2 ^ 32"
  shows "\<exists>h w' h' rval w''. simdb_open calls_ok name bs cnt w = Some (h, w') \<and> simdb_mv h = (h', rval) \<and>
    simdb_destroy rval w' = Some w'' \<and> dh_isOpen h' \<and> w_dir w' (shm_path name) \<noteq> None \<and> w_dir w'' (shm_path name) = None"
proof -
  let ?P = "\<lparr>dp_keys = {}, dp_chain = 1, dp_sz = cnt, dp_bs = bs\<rparr>" and ?h = "handle_of (w_next w) name bs cnt True cnt"
  obtain w' where w': "simdb_open calls_ok name bs cnt w = Some (?h, w')" "db_at w' name (w_next w) bs cnt"
      "sf_flags (w_files w' (w_next w)) = 1"
    using open_new [OF assms, of ?P] by auto
  let ?rval = "?h\<lparr>dh_mem := sm_clear (dh_mem ?h)\<rparr>"
  have "simdb_mv ?h = (?h, ?rval)" by (simp add: simdb_mv_def SharedMem_mv_def)
  moreover have "\<exists>w''. simdb_destroy ?rval w' = Some w'' \<and> w_dir w'' (shm_path name) = None"
    using w'(3) by (simp add: simdb_destroy_def simdb_close_def SharedMem_destroy_def handle_of_def owner_mem_def sm_clear_def FreeAnon_def)
  moreover have "dh_isOpen ?h" "w_dir w' (shm_path name) \<noteq> None" using w'(2) by (simp_all add: handle_of_def db_at_def)
  ultimately show ?thesis using w'(1) by blast
qed

end
