(* ===== verification/Guest_Bdma.thy ===== *)
theory Guest_Bdma
  imports Prelude
begin

text \<open>
  The guest program \<open>tests/nvdla_bdma_mmio\<close>: it maps the memory and the NVDLA registers, fills a
  buffer, programs a copy and compares. The register offsets come from the NVDLA headers and are an
  argument, as are the results of the system calls and the two devices: \<open>b_st\<close> and \<open>b_ld\<close> access a
  32-bit word at a byte offset of a mapping and may change the state of the device. An access outside
  the mapping is \<open>None\<close>. The messages are left out.
\<close>

section \<open>Mappings\<close>

datatype nv_device = DEVICE_MEM | DEVICE_DLA | DEVICE_NUM

definition MEMORY_BASE :: u32 where "MEMORY_BASE = 0xC0000000"
definition MEMORY_SIZE :: nat where "MEMORY_SIZE = 0x800 * 4"
definition NVDLA_MMIO_BASE :: u32 where "NVDLA_MMIO_BASE = 0x10200000"
definition NVDLA_MMIO_SIZE :: nat where "NVDLA_MMIO_SIZE = 0x10220000 - 0x10200000"

primrec map_args :: "nv_device \<Rightarrow> (nat \<times> u32) option" where
  "map_args DEVICE_DLA = Some (NVDLA_MMIO_SIZE, NVDLA_MMIO_BASE)"
| "map_args DEVICE_MEM = Some (MEMORY_SIZE, MEMORY_BASE)"
| "map_args DEVICE_NUM = None"

definition map_size :: "nv_device \<Rightarrow> nat" where
  "map_size dev = (case map_args dev of None \<Rightarrow> 0 | Some (sz, offset) \<Rightarrow> sz)"

text \<open>The results of \<open>open\<close> and \<open>mmap\<close>; a failed \<open>close\<close> or \<open>munmap\<close> is a message only. \<open>Inl\<close> is the
  exit code.\<close>

record os_calls =
  os_open :: "nv_device \<Rightarrow> int"
  os_mmap :: "nv_device \<Rightarrow> nat \<Rightarrow> u32 \<Rightarrow> u64"

definition MAP_FAILED :: u64 where "MAP_FAILED = - 1"

definition mmap_device :: "os_calls \<Rightarrow> nv_device \<Rightarrow> int + u64" where
  "mmap_device os dev = (case map_args dev of
     None \<Rightarrow> Inl 1
   | Some (sz, offset) \<Rightarrow>
       if os_open os dev < 0 then Inl 1
       else if os_mmap os dev sz offset = MAP_FAILED then Inl 1
       else Inr (os_mmap os dev sz offset))"

definition munmap_device :: "nv_device \<Rightarrow> int option" where
  "munmap_device dev = (case map_args dev of None \<Rightarrow> Some 1 | Some _ \<Rightarrow> None)"

record 'd guest_bus =
  b_st :: "nv_device \<Rightarrow> int \<Rightarrow> u32 \<Rightarrow> 'd \<Rightarrow> 'd"
  b_ld :: "nv_device \<Rightarrow> int \<Rightarrow> 'd \<Rightarrow> u32 \<times> 'd"

definition in_map :: "nv_device \<Rightarrow> int \<Rightarrow> bool" where
  "in_map dev off \<longleftrightarrow> 0 \<le> off \<and> off + 4 \<le> int (map_size dev)"

definition st32 :: "'d guest_bus \<Rightarrow> nv_device \<Rightarrow> int \<Rightarrow> u32 \<Rightarrow> 'd \<Rightarrow> 'd option" where
  "st32 b dev off v d = (if in_map dev off then Some (b_st b dev off v d) else None)"

definition ld32 :: "'d guest_bus \<Rightarrow> nv_device \<Rightarrow> int \<Rightarrow> 'd \<Rightarrow> (u32 \<times> 'd) option" where
  "ld32 b dev off d = (if in_map dev off then Some (b_ld b dev off d) else None)"

section \<open>The test\<close>

record tensor =
  tn_dims :: u32
  tn_size :: "u32 list"
  tn_bits :: u32
  tn_base :: u64

text \<open>The loop over the words of a buffer, from word \<open>i\<close> on, \<open>n\<close> of them.\<close>

primrec fill_loop :: "'d guest_bus \<Rightarrow> int \<Rightarrow> nat \<Rightarrow> nat \<Rightarrow> 'd \<Rightarrow> 'd option" where
  "fill_loop b mem i 0 d = Some d"
| "fill_loop b mem i (Suc n) d = do {
     d \<leftarrow> st32 b DEVICE_MEM (mem + 4 * int i) (0xABCD0000 + of_nat i) d;
     fill_loop b mem (Suc i) n d
   }"

definition buf_ofs :: "tensor \<Rightarrow> int" where
  "buf_ofs t = uint (tn_base t - ucast MEMORY_BASE)"

definition test_data :: "'d guest_bus \<Rightarrow> u64 \<Rightarrow> 'd \<Rightarrow> (int + tensor \<times> tensor \<times> 'd) option" where
  "test_data b mem_mm d =
     (if mem_mm = 0 then Some (Inl 1)
      else let tin = \<lparr>tn_dims = 2, tn_size = [0x100, 8], tn_bits = 1, tn_base = ucast MEMORY_BASE\<rparr>;
        tout = \<lparr>tn_dims = 2, tn_size = [0x100, 8], tn_bits = 1,
          tn_base = ucast (MEMORY_BASE + of_nat MEMORY_SIZE - 8 * 0x100 - 64)\<rparr>
      in do {
        d \<leftarrow> fill_loop b (buf_ofs tin) 0 (8 * 0x100 div 4) d;
        Some (Inr (tin, tout, d))
      })"

datatype bdma_reg = SRC_ADDR_HIGH | SRC_ADDR_LOW | DST_ADDR_HIGH | DST_ADDR_LOW | DST_SURF | DST_LINE
  | SRC_SURF | SRC_LINE | SURF_REPEAT | LINE_REPEAT | LINE_SIZE | CMD | OP | LAUNCH0

definition HIGH32 :: "u64 \<Rightarrow> u32" where "HIGH32 addr = ucast (drop_bit 32 addr AND 0xffffffff)"
definition LOW32 :: "u64 \<Rightarrow> u32" where "LOW32 addr = ucast (addr AND 0xffffffff)"

definition test_program :: "(bdma_reg \<Rightarrow> u32) \<Rightarrow> tensor \<Rightarrow> tensor \<Rightarrow> (u32 \<times> u32) list" where
  "test_program reg tin tout =
    [(reg SRC_ADDR_HIGH, HIGH32 (tn_base tin)), (reg SRC_ADDR_LOW, LOW32 (tn_base tin)),
     (reg DST_ADDR_HIGH, HIGH32 (tn_base tout)), (reg DST_ADDR_LOW, LOW32 (tn_base tout)),
     (reg DST_SURF, 0x800), (reg DST_LINE, 0x100), (reg SRC_SURF, 0x800), (reg SRC_LINE, 0x100),
     (reg SURF_REPEAT, 0), (reg LINE_REPEAT, 7), (reg LINE_SIZE, 7), (reg CMD, 3), (reg OP, 1),
     (reg LAUNCH0, 1), (- 1, 0)]"

primrec run_program :: "'d guest_bus \<Rightarrow> (u32 \<times> u32) list \<Rightarrow> 'd \<Rightarrow> 'd option" where
  "run_program b [] d = None"
| "run_program b (p # ps) d = (case p of (offset, value) \<Rightarrow>
     if offset = - 1 then Some d
     else do { d \<leftarrow> st32 b DEVICE_DLA (sint offset) value d; run_program b ps d })"

text \<open>\<open>test_check\<close>: the polling loop, with \<open>loop\<close> as in the source, and the comparison.\<close>

definition bdma_done :: "nat \<Rightarrow> u32 \<Rightarrow> bool" where
  "bdma_done shift s \<longleftrightarrow> drop_bit shift s AND 1 \<noteq> 0"

primrec poll_loop :: "'d guest_bus \<Rightarrow> int \<Rightarrow> nat \<Rightarrow> nat \<Rightarrow> 'd \<Rightarrow> (bool \<times> 'd) option" where
  "poll_loop b status shift 0 d = do {
     (s, d) \<leftarrow> ld32 b DEVICE_DLA status d;
     Some (bdma_done shift s, d)
   }"
| "poll_loop b status shift (Suc loop) d = do {
     (s, d) \<leftarrow> ld32 b DEVICE_DLA status d;
     if bdma_done shift s then Some (True, d) else poll_loop b status shift loop d
   }"

primrec check_loop :: "'d guest_bus \<Rightarrow> int \<Rightarrow> nat \<Rightarrow> nat \<Rightarrow> 'd \<Rightarrow> (int \<times> 'd) option" where
  "check_loop b mem i 0 d = Some (0, d)"
| "check_loop b mem i (Suc n) d = do {
     (w, d) \<leftarrow> ld32 b DEVICE_MEM (mem + 4 * int i) d;
     if w \<noteq> 0xABCD0000 + of_nat i then Some (- 1, d) else check_loop b mem (Suc i) n d
   }"

definition test_check :: "'d guest_bus \<Rightarrow> int \<Rightarrow> nat \<Rightarrow> tensor \<Rightarrow> 'd \<Rightarrow> (int \<times> 'd) option" where
  "test_check b status shift tout d = do {
     (got, d) \<leftarrow> poll_loop b status shift 100000 d;
     if \<not> got then Some (- 1, d) else check_loop b (buf_ofs tout) 0 (8 * 0x100 div 4) d
   }"

definition bdma_main :: "os_calls \<Rightarrow> 'd guest_bus \<Rightarrow> (bdma_reg \<Rightarrow> u32) \<Rightarrow> int \<Rightarrow> nat \<Rightarrow> 'd \<Rightarrow> (int \<times> 'd) option" where
  "bdma_main os b reg status shift d =
     (case mmap_device os DEVICE_MEM of Inl code \<Rightarrow> Some (code, d)
      | Inr mem_mm \<Rightarrow> (case mmap_device os DEVICE_DLA of Inl code \<Rightarrow> Some (code, d)
      | Inr dla_mm \<Rightarrow> do {
          r \<leftarrow> test_data b mem_mm d;
          (case r of Inl code \<Rightarrow> Some (code, d)
           | Inr (tin, tout, d) \<Rightarrow> do {
               d \<leftarrow> run_program b (test_program reg tin tout) d;
               (result, d) \<leftarrow> test_check b status shift tout d;
               (case (munmap_device DEVICE_MEM, munmap_device DEVICE_DLA) of
                  (None, None) \<Rightarrow> Some (if result < 0 then 1 else 0, d)
                | _ \<Rightarrow> Some (1, d))
             })
        }))"

section \<open>What the loops do\<close>

text \<open>Memory behind the mapping: a load gives the word last stored at its offset.\<close>

definition is_memory :: "'d guest_bus \<Rightarrow> ('d \<Rightarrow> int \<Rightarrow> u32) \<Rightarrow> bool" where
  "is_memory b word \<longleftrightarrow> (\<forall>ofs d. b_ld b DEVICE_MEM ofs d = (word d ofs, d)) \<and>
     (\<forall>ofs v d. word (b_st b DEVICE_MEM ofs v d) = (word d)(ofs := v))"

lemma is_memoryD:
  assumes "is_memory b word"
  shows "b_ld b DEVICE_MEM ofs d = (word d ofs, d)" and "word (b_st b DEVICE_MEM ofs v d) = (word d)(ofs := v)"
  using assms by (simp_all add: is_memory_def)

abbreviation pattern_word :: "nat \<Rightarrow> u32" where
  "pattern_word k \<equiv> 0xABCD0000 + of_nat k"

lemma map_sizes [simp]: "map_size DEVICE_MEM = 0x2000" "map_size DEVICE_DLA = 0x20000"
  by (simp_all add: map_size_def MEMORY_SIZE_def NVDLA_MMIO_SIZE_def)

lemma fill_loop_keeps: "is_memory b word \<Longrightarrow> fill_loop b mem i n d = Some d' \<Longrightarrow> ofs < mem + 4 * int i \<Longrightarrow>
  word d' ofs = word d ofs"
proof (induction n arbitrary: i d)
  case (Suc n)
  then show ?case by (auto simp: bind_eq_Some_conv st32_def is_memoryD split: if_splits)
qed simp

lemma fill_loop_ok:
  assumes "is_memory b word" and "0 \<le> mem" and "mem + 4 * int (i + n) \<le> 0x2000"
  shows "\<exists>d'. fill_loop b mem i n d = Some d' \<and> (\<forall>k. i \<le> k \<longrightarrow> k < i + n \<longrightarrow> word d' (mem + 4 * int k) = pattern_word k)"
  using assms(3)
proof (induction n arbitrary: i d)
  case (Suc n)
  let ?d = "b_st b DEVICE_MEM (mem + 4 * int i) (pattern_word i) d"
  obtain d' where d': "fill_loop b mem (Suc i) n ?d = Some d'"
    "\<forall>k. Suc i \<le> k \<longrightarrow> k < Suc i + n \<longrightarrow> word d' (mem + 4 * int k) = pattern_word k"
    using Suc.IH [of "Suc i" ?d] Suc.prems by auto
  have "word d' (mem + 4 * int i) = pattern_word i"
    using fill_loop_keeps [OF assms(1) d'(1), of "mem + 4 * int i"] by (simp add: is_memoryD [OF assms(1)])
  moreover have "in_map DEVICE_MEM (mem + 4 * int i)" using Suc.prems assms(2) by (simp add: in_map_def)
  moreover have "word d' (mem + 4 * int k) = pattern_word k" if "i \<le> k" "k < i + Suc n" for k
    using that d'(2) calculation(1) by (cases "k = i") auto
  ultimately show ?case using d'(1) by (intro exI [of _ d']) (simp add: st32_def)
qed simp

definition regs_fit :: "(bdma_reg \<Rightarrow> u32) \<Rightarrow> bool" where
  "regs_fit reg \<longleftrightarrow> (\<forall>r. in_map DEVICE_DLA (sint (reg r)))"

lemma run_program_fits:
  "\<forall>x \<in> set ps. in_map DEVICE_DLA (sint (fst x)) \<Longrightarrow>
   run_program b (ps @ [(- 1, 0)]) d = Some (fold (\<lambda>(offset, value). b_st b DEVICE_DLA (sint offset) value) ps d)"
proof (induction ps arbitrary: d)
  case (Cons x ps)
  then have "fst x \<noteq> - 1" by (auto simp: in_map_def)
  then show ?case using Cons by (auto simp: st32_def split: prod.split)
qed simp

lemma run_program_ok: "regs_fit reg \<Longrightarrow> run_program b (test_program reg tin tout) d =
  Some (fold (\<lambda>(offset, value). b_st b DEVICE_DLA (sint offset) value) (butlast (test_program reg tin tout)) d)"
  using run_program_fits [of "butlast (test_program reg tin tout)" b d] by (simp add: test_program_def regs_fit_def)

text \<open>The status register on its own: the device after \<open>n\<close> loads of it, and the value load number \<open>n\<close>
  (from 0) returns.\<close>

definition after_loads :: "'d guest_bus \<Rightarrow> int \<Rightarrow> nat \<Rightarrow> 'd \<Rightarrow> 'd" where
  "after_loads b status n = (\<lambda>d. snd (b_ld b DEVICE_DLA status d)) ^^ n"

definition nth_status :: "'d guest_bus \<Rightarrow> int \<Rightarrow> 'd \<Rightarrow> nat \<Rightarrow> u32" where
  "nth_status b status d n = fst (b_ld b DEVICE_DLA status (after_loads b status n d))"

lemma after_loads_0: "after_loads b status 0 d = d"
  and after_loads_Suc: "after_loads b status (Suc n) d = after_loads b status n (snd (b_ld b DEVICE_DLA status d))"
  by (simp_all add: after_loads_def funpow_Suc_right del: funpow.simps(2))

lemma nth_status_0: "nth_status b status d 0 = fst (b_ld b DEVICE_DLA status d)"
  and nth_status_Suc: "nth_status b status d (Suc n) = nth_status b status (snd (b_ld b DEVICE_DLA status d)) n"
  by (simp_all add: nth_status_def after_loads_0 after_loads_Suc)

lemma poll_loop_reads:
  assumes "in_map DEVICE_DLA status"
  shows "\<exists>n \<le> loop. poll_loop b status shift loop d =
      Some (bdma_done shift (nth_status b status d n), after_loads b status (Suc n) d) \<and>
    (\<forall>k < n. \<not> bdma_done shift (nth_status b status d k)) \<and> (n = loop \<or> bdma_done shift (nth_status b status d n))"
proof (induction loop arbitrary: d)
  case 0
  then show ?case using assms by (auto simp: ld32_def nth_status_0 after_loads_Suc after_loads_0 split: prod.split)
next
  case (Suc loop)
  obtain s d' where ld: "b_ld b DEVICE_DLA status d = (s, d')" by (cases "b_ld b DEVICE_DLA status d")
  show ?case
  proof (cases "bdma_done shift s")
    case True
    with ld assms show ?thesis
      by (intro exI [of _ 0]) (simp add: ld32_def nth_status_0 after_loads_Suc after_loads_0)
  next
    case False
    obtain n where "n \<le> loop" "poll_loop b status shift loop d' =
        Some (bdma_done shift (nth_status b status d' n), after_loads b status (Suc n) d')"
      "\<forall>k < n. \<not> bdma_done shift (nth_status b status d' k)" "n = loop \<or> bdma_done shift (nth_status b status d' n)"
      using Suc.IH [of d'] by blast
    with ld assms False show ?thesis
      by (intro exI [of _ "Suc n"])
        (auto simp: ld32_def nth_status_0 nth_status_Suc after_loads_Suc [of b status "Suc n"] less_Suc_eq_0_disj)
  qed
qed

lemma check_loop_ok:
  assumes "is_memory b word" and "0 \<le> mem" and "mem + 4 * int (i + n) \<le> 0x2000"
  shows "check_loop b mem i n d =
    Some (if \<forall>k. i \<le> k \<longrightarrow> k < i + n \<longrightarrow> word d (mem + 4 * int k) = pattern_word k then 0 else - 1, d)"
  using assms(3)
proof (induction n arbitrary: i)
  case (Suc n)
  have "in_map DEVICE_MEM (mem + 4 * int i)" using Suc.prems assms(2) by (simp add: in_map_def)
  moreover have "check_loop b mem (Suc i) n d =
      Some (if \<forall>k. Suc i \<le> k \<longrightarrow> k < Suc i + n \<longrightarrow> word d (mem + 4 * int k) = pattern_word k then 0 else - 1, d)"
    using Suc.prems by (intro Suc.IH) simp
  moreover have "(\<forall>k. i \<le> k \<longrightarrow> k < i + Suc n \<longrightarrow> word d (mem + 4 * int k) = pattern_word k) \<longleftrightarrow>
      word d (mem + 4 * int i) = pattern_word i \<and>
      (\<forall>k. Suc i \<le> k \<longrightarrow> k < Suc i + n \<longrightarrow> word d (mem + 4 * int k) = pattern_word k)" (is "?all \<longleftrightarrow> ?one \<and> ?rest")
  proof
    assume "?one \<and> ?rest"
    then show ?all by (metis add_Suc_shift le_antisym not_less_eq_eq)
  qed auto
  ultimately show ?case by (simp add: ld32_def is_memoryD [OF assms(1)])
qed simp

text \<open>The words of a buffer, by line and word of the line.\<close>

lemma all_lines: "(\<forall>k < 512. P k) \<longleftrightarrow> (\<forall>l < 8. \<forall>j < 64. P (64 * l + j))" for P :: "nat \<Rightarrow> bool"
proof
  assume l: "\<forall>l < 8. \<forall>j < 64. P (64 * l + j)"
  show "\<forall>k < 512. P k"
  proof (intro allI impI)
    fix k :: nat assume "k < 512"
    then have "k div 64 < 8" "k mod 64 < 64" by simp_all
    then have "P (64 * (k div 64) + k mod 64)" using l by blast
    then show "P k" by (simp only: mult_div_mod_eq)
  qed
qed auto

lemma test_data_ok:
  assumes "is_memory b word" and "mem_mm \<noteq> 0"
  shows "\<exists>tin tout d1. test_data b mem_mm d = Some (Inr (tin, tout, d1)) \<and> buf_ofs tin = 0 \<and> buf_ofs tout = 0x17C0 \<and>
    (\<forall>k < 512. word d1 (4 * int k) = pattern_word k)"
  using fill_loop_ok [OF assms(1), of 0 0 512 d] assms(2)
  by (auto simp: test_data_def buf_ofs_def MEMORY_BASE_def MEMORY_SIZE_def)

lemma test_check_ok:
  assumes "is_memory b word" and "buf_ofs tout = 0x17C0" and "poll_loop b status shift 100000 d = Some (got, d')"
  shows "test_check b status shift tout d =
    Some (if got \<and> (\<forall>k < 512. word d' (0x17C0 + 4 * int k) = pattern_word k) then 0 else - 1, d')"
  using check_loop_ok [OF assms(1), of "0x17C0" 0 512 d'] assms(2,3) by (simp add: test_check_def)

section \<open>The copy that was programmed\<close>

text \<open>What the registers ask for, in the terms of the comments of \<open>test_program\<close>: an address has a high and
  a low half, a repeat count and the line size hold one less than their value, and the line size counts
  units of 32 bytes. Register \<open>r\<close> holds the value the program stores at its offset.\<close>

definition programmed :: "(bdma_reg \<Rightarrow> u32) \<Rightarrow> (u32 \<times> u32) list \<Rightarrow> bdma_reg \<Rightarrow> nat" where
  "programmed reg ps r = (case map_of (rev ps) (reg r) of None \<Rightarrow> 0 | Some v \<Rightarrow> unat v)"

definition mem_ofs :: "nat \<Rightarrow> nat \<Rightarrow> int" where
  "mem_ofs hi lo = int (hi * 2 ^ 32 + lo) - uint MEMORY_BASE"

definition copy_made :: "(bdma_reg \<Rightarrow> nat) \<Rightarrow> (int \<Rightarrow> u32) \<Rightarrow> (int \<Rightarrow> u32) \<Rightarrow> bool" where
  "copy_made R before after \<longleftrightarrow>
     (\<forall>f \<le> R SURF_REPEAT. \<forall>l \<le> R LINE_REPEAT. \<forall>j < (R LINE_SIZE + 1) * 32 div 4.
        after (mem_ofs (R DST_ADDR_HIGH) (R DST_ADDR_LOW) + int (f * R DST_SURF + l * R DST_LINE + 4 * j)) =
        before (mem_ofs (R SRC_ADDR_HIGH) (R SRC_ADDR_LOW) + int (f * R SRC_SURF + l * R SRC_LINE + 4 * j)))"

lemma programmed_test:
  assumes "inj reg" and "regs_fit reg" and "test_data b mem_mm d = Some (Inr (tin, tout, d1))"
  shows "copy_made (programmed reg (test_program reg tin tout)) before after \<longleftrightarrow>
    (\<forall>k < 512. after (0x17C0 + 4 * int k) = before (4 * int k))"
proof -
  have t: "tn_base tin = 0xC0000000" "tn_base tout = 0xC00017C0"
    using assms(3) by (auto simp: test_data_def Let_def bind_eq_Some_conv MEMORY_BASE_def MEMORY_SIZE_def split: if_splits)
  have "in_map DEVICE_DLA (sint (reg r))" for r using assms(2) by (simp add: regs_fit_def)
  then have "reg r \<noteq> - 1" for r by (metis in_map_def not_one_le_zero neg_0_le_iff_le signed_minus_1)
  then have "programmed reg (test_program reg tin tout) = (\<lambda>r. case r of
      SRC_ADDR_HIGH \<Rightarrow> 0 | SRC_ADDR_LOW \<Rightarrow> 0xC0000000 | DST_ADDR_HIGH \<Rightarrow> 0 | DST_ADDR_LOW \<Rightarrow> 0xC00017C0
    | DST_SURF \<Rightarrow> 0x800 | DST_LINE \<Rightarrow> 0x100 | SRC_SURF \<Rightarrow> 0x800 | SRC_LINE \<Rightarrow> 0x100 | SURF_REPEAT \<Rightarrow> 0
    | LINE_REPEAT \<Rightarrow> 7 | LINE_SIZE \<Rightarrow> 7 | CMD \<Rightarrow> 3 | OP \<Rightarrow> 1 | LAUNCH0 \<Rightarrow> 1)"
    by (intro ext) (simp add: programmed_def test_program_def inj_eq [OF assms(1)] HIGH32_def LOW32_def t
        split: bdma_reg.split)
  moreover have base: "mem_ofs 0 0xC0000000 = 0" "mem_ofs 0 0xC00017C0 = 0x17C0" by (simp_all add: mem_ofs_def MEMORY_BASE_def)
  moreover have eight: "l \<le> 7 \<longleftrightarrow> l < 8" for l :: nat by auto
  ultimately have "copy_made (programmed reg (test_program reg tin tout)) before after \<longleftrightarrow>
      (\<forall>l < 8. \<forall>j < 64. after (0x17C0 + 4 * int (64 * l + j)) = before (4 * int (64 * l + j)))"
    by (simp add: copy_made_def base eight algebra_simps)
  then show ?thesis unfolding all_lines .
qed

section \<open>Properties\<close>

text \<open>C39. When the mappings succeed and the registers lie in the window at offsets of their own, the test
  touches nothing outside its mappings. It stores its program in order, ending with the launch, and then
  reads the status register at most 100001 times: \<open>n + 1\<close> times, where no read before the last has the
  done bit and, unless the last one has it, \<open>n\<close> is 100000. It exits with 0 exactly when the last read has
  the done bit and the copy that the stored values ask for has been made by then: every word of every
  line from the programmed source, as it was when the program was stored, is at the programmed
  destination.\<close>

theorem bdma_test_exit:
  assumes mem: "is_memory b word" and maps: "mmap_device os DEVICE_MEM = Inr mem_mm" "mmap_device os DEVICE_DLA = Inr dla_mm"
    and "mem_mm \<noteq> 0" and regs: "regs_fit reg" "inj reg" "in_map DEVICE_DLA status"
  shows "\<exists>tin tout d1 d2. \<exists>n \<le> 100000.
    test_data b mem_mm d = Some (Inr (tin, tout, d1)) \<and>
    d2 = fold (\<lambda>(offset, value). b_st b DEVICE_DLA (sint offset) value) (butlast (test_program reg tin tout)) d1 \<and>
    last (butlast (test_program reg tin tout)) = (reg LAUNCH0, 1) \<and>
    (\<forall>k < n. \<not> bdma_done shift (nth_status b status d2 k)) \<and>
    (n = 100000 \<or> bdma_done shift (nth_status b status d2 n)) \<and>
    bdma_main os b reg status shift d = Some
      (if bdma_done shift (nth_status b status d2 n) \<and>
          copy_made (programmed reg (test_program reg tin tout)) (word d1) (word (after_loads b status (Suc n) d2))
       then 0 else 1, after_loads b status (Suc n) d2)"
proof -
  obtain tin tout d1 where t: "test_data b mem_mm d = Some (Inr (tin, tout, d1))" "buf_ofs tin = 0" "buf_ofs tout = 0x17C0"
    "\<forall>k < 512. word d1 (4 * int k) = pattern_word k"
    using test_data_ok [OF mem assms(4), of d] by blast
  define d2 where "d2 = fold (\<lambda>(offset, value). b_st b DEVICE_DLA (sint offset) value) (butlast (test_program reg tin tout)) d1"
  obtain n where n: "n \<le> 100000" "poll_loop b status shift 100000 d2 =
      Some (bdma_done shift (nth_status b status d2 n), after_loads b status (Suc n) d2)"
    "\<forall>k < n. \<not> bdma_done shift (nth_status b status d2 k)" "n = 100000 \<or> bdma_done shift (nth_status b status d2 n)"
    using poll_loop_reads [OF regs(3), of 100000 b shift d2] by blast
  let ?d3 = "after_loads b status (Suc n) d2"
  have "copy_made (programmed reg (test_program reg tin tout)) (word d1) (word ?d3) \<longleftrightarrow>
      (\<forall>k < 512. word ?d3 (0x17C0 + 4 * int k) = pattern_word k)"
    using t(4) by (simp add: programmed_test [OF regs(2,1) t(1)])
  then have "bdma_main os b reg status shift d = Some (if bdma_done shift (nth_status b status d2 n) \<and>
      copy_made (programmed reg (test_program reg tin tout)) (word d1) (word ?d3) then 0 else 1, ?d3)"
    by (simp add: bdma_main_def maps t(1) run_program_ok [OF regs(1)] d2_def [symmetric]
        test_check_ok [OF mem t(3) n(2)] munmap_device_def)
  moreover have "last (butlast (test_program reg tin tout)) = (reg LAUNCH0, 1)" by (simp add: test_program_def)
  ultimately show ?thesis using t(1) n d2_def by blast
qed

text \<open>A device that copies the buffer when \<open>LAUNCH0\<close> is written and then reports the copy as done.\<close>

definition copier :: "((int \<Rightarrow> u32) \<times> bool) guest_bus" where
  "copier = \<lparr>b_st = (\<lambda>dev ofs v (m, fin). if dev = DEVICE_MEM then (m(ofs := v), fin)
       else if ofs = 64 then (\<lambda>a. if 0x17C0 \<le> a \<and> a < 0x1FC0 then m (a - 0x17C0) else m a, True) else (m, fin)),
     b_ld = (\<lambda>dev ofs (m, fin). (if dev = DEVICE_MEM then m ofs else if fin then 1 else 0, (m, fin)))\<rparr>"

primrec copier_reg :: "bdma_reg \<Rightarrow> u32" where
  "copier_reg SRC_ADDR_HIGH = 4" | "copier_reg SRC_ADDR_LOW = 8" | "copier_reg DST_ADDR_HIGH = 12"
| "copier_reg DST_ADDR_LOW = 16" | "copier_reg DST_SURF = 20" | "copier_reg DST_LINE = 24"
| "copier_reg SRC_SURF = 28" | "copier_reg SRC_LINE = 32" | "copier_reg SURF_REPEAT = 36"
| "copier_reg LINE_REPEAT = 40" | "copier_reg LINE_SIZE = 44" | "copier_reg CMD = 48" | "copier_reg OP = 52"
| "copier_reg LAUNCH0 = 64"

lemma copier_run: "fold (\<lambda>(offset, value). b_st copier DEVICE_DLA (sint offset) value)
    (butlast (test_program copier_reg tin tout)) (m, fin) =
  (\<lambda>a. if 0x17C0 \<le> a \<and> a < 0x1FC0 then m (a - 0x17C0) else m a, True)"
  by (simp add: test_program_def copier_def)

lemma copier_loads: "after_loads copier status n (m, True) = (m, True)"
  by (induction n) (simp_all add: after_loads_0 after_loads_Suc copier_def)

lemma copier_status: "nth_status copier 0 (m, True) n = 1"
proof -
  have "b_ld copier DEVICE_DLA 0 (m, True) = (1, (m, True))" by (simp add: copier_def)
  then show ?thesis by (simp add: nth_status_def copier_loads)
qed

theorem bdma_test_exit_witness:
  "\<exists>os d3. bdma_main os copier copier_reg 0 0 (\<lambda>a. 0, False) = Some (0, d3)"
proof -
  define os where "os = \<lparr>os_open = (\<lambda>dev. 3), os_mmap = (\<lambda>dev sz offset. ucast offset)\<rparr>"
  have mem: "is_memory copier fst" by (simp add: is_memory_def copier_def split: prod.split)
  have maps: "mmap_device os DEVICE_MEM = Inr (ucast MEMORY_BASE)" "mmap_device os DEVICE_DLA = Inr (ucast NVDLA_MMIO_BASE)"
    by (simp_all add: mmap_device_def os_def MAP_FAILED_def MEMORY_BASE_def NVDLA_MMIO_BASE_def)
  have fit: "regs_fit copier_reg" unfolding regs_fit_def
  proof
    show "in_map DEVICE_DLA (sint (copier_reg r))" for r by (cases r) (simp_all add: in_map_def)
  qed
  have inj: "inj copier_reg"
  proof (rule injI)
    show "copier_reg r = copier_reg r' \<Longrightarrow> r = r'" for r r' by (cases r; cases r'; simp)
  qed
  have regs: "in_map DEVICE_DLA 0" "(ucast MEMORY_BASE :: u64) \<noteq> 0" by (simp_all add: in_map_def MEMORY_BASE_def)
  from bdma_test_exit [OF mem maps regs(2) fit inj regs(1), where shift = 0 and d = "(\<lambda>a. 0, False)"]
  obtain tin tout d1 d2 n where t: "test_data copier (ucast MEMORY_BASE) (\<lambda>a. 0, False) = Some (Inr (tin, tout, d1))"
    "d2 = fold (\<lambda>(offset, value). b_st copier DEVICE_DLA (sint offset) value) (butlast (test_program copier_reg tin tout)) d1"
    "bdma_main os copier copier_reg 0 0 (\<lambda>a. 0, False) = Some
      (if bdma_done 0 (nth_status copier 0 d2 n) \<and> copy_made (programmed copier_reg (test_program copier_reg tin tout))
          (fst d1) (fst (after_loads copier 0 (Suc n) d2)) then 0 else 1, after_loads copier 0 (Suc n) d2)"
    by blast
  obtain m fin where d1: "d1 = (m, fin)" by (cases d1)
  have "bdma_main os copier copier_reg 0 0 (\<lambda>a. 0, False) = Some (0, after_loads copier 0 (Suc n) d2)"
    using t(3) by (simp add: programmed_test [OF inj fit t(1)] t(2) d1 copier_run copier_loads copier_status bdma_done_def)
  then show ?thesis by blast
qed

end
