(* ===== verification/Guest_Socket.thy ===== *)
theory Guest_Socket
  imports Prelude
begin

text \<open>
  The guest programs \<open>tests/socket/server.c\<close> and \<open>client.c\<close>, over the results of the socket calls. A call
  of \<open>accept\<close> that has not returned yet is not in \<open>sv_accept\<close>. The messages about failed calls are
  left out.
\<close>

definition MAXLINE :: nat where "MAXLINE = 4096"

definition NUL :: char where "NUL = CHR 0x00"

record server_calls =
  sv_socket :: int
  sv_bind :: int
  sv_listen :: int
  sv_accept :: "int list"
  sv_recv :: "string option"

text \<open>\<open>Undefined\<close> is a write outside the buffer; \<open>Done\<close> carries the exit code and what was received.\<close>

datatype server_end = Waiting | Undefined | Done int "string option"

primrec accept_loop :: "int list \<Rightarrow> int option" where
  "accept_loop [] = None"
| "accept_loop (connfd # cs) = (if connfd = - 1 then accept_loop cs else Some connfd)"

text \<open>The result of \<open>recv(connfd, buff, len, 0)\<close> and the buffer after it, where \<open>r\<close> is what the
  connection has to give, \<open>None\<close> for an error: at most \<open>len\<close> bytes of it are taken. Then \<open>buff[n] = 0\<close>.\<close>

definition recv_into :: "string option \<Rightarrow> nat \<Rightarrow> string \<Rightarrow> int \<times> string" where
  "recv_into r len buff = (case r of None \<Rightarrow> (- 1, buff)
     | Some bs \<Rightarrow> (int (length (take len bs)), take len bs @ drop (length (take len bs)) buff))"

definition terminate_at :: "int \<Rightarrow> string \<Rightarrow> string option" where
  "terminate_at n buff = (if 0 \<le> n \<and> n < int (length buff) then Some (buff[nat n := NUL]) else None)"

definition c_str :: "string \<Rightarrow> string" where "c_str = takeWhile (\<lambda>c. c \<noteq> NUL)"

definition server_main :: "server_calls \<Rightarrow> string \<Rightarrow> server_end" where
  "server_main sv buff =
     (if sv_socket sv < 0 then Done (- 1) None
      else if sv_bind sv = - 1 then Done 0 None
      else if sv_listen sv = - 1 then Done 0 None
      else case accept_loop (sv_accept sv) of None \<Rightarrow> Waiting
      | Some connfd \<Rightarrow> (case recv_into (sv_recv sv) MAXLINE buff of (n, buff) \<Rightarrow>
          (case terminate_at n buff of None \<Rightarrow> Undefined | Some buff \<Rightarrow> Done 0 (Some (c_str buff)))))"

record client_calls =
  cl_socket :: int
  cl_pton :: int
  cl_connect :: int
  cl_send :: int

text \<open>The client's exit code and what it sends.\<close>

definition client_main :: "int \<Rightarrow> client_calls \<Rightarrow> int \<times> string option" where
  "client_main argc cl =
     (if argc \<noteq> 2 then (0, None)
      else if cl_socket cl < 0 then (0, None)
      else if cl_pton cl \<le> 0 then (0, None)
      else if cl_connect cl < 0 then (0, None)
      else if cl_send cl < 0 then (0, None)
      else (0, Some ''Hello QEMU''))"

text \<open>C40. Once a connection is accepted, however many attempts failed before, the server prints the message up
  to its first zero byte and exits with 0, unless the receive fails or fills the buffer, as it does for
  every message of \<open>MAXLINE\<close> bytes or more: then it writes the terminator outside the buffer.\<close>

theorem server_terminator:
  assumes "0 \<le> sv_socket sv" "sv_bind sv \<noteq> - 1" "sv_listen sv \<noteq> - 1" "c \<in> set (sv_accept sv)" "c \<noteq> - 1"
    and "length buff = MAXLINE"
  shows "server_main sv buff = (case sv_recv sv of None \<Rightarrow> Undefined
    | Some bs \<Rightarrow> if MAXLINE \<le> length bs then Undefined else Done 0 (Some (c_str bs)))"
proof -
  have "accept_loop cs \<noteq> None" if "c \<in> set cs" for cs using that assms(5) by (induction cs) auto
  then obtain d where d: "accept_loop (sv_accept sv) = Some d" using assms(4) by blast
  have "(bs @ drop (length bs) buff)[length bs := NUL] = bs @ NUL # drop (Suc (length bs)) buff"
    if "length bs < MAXLINE" for bs
    using that assms(6) by (simp add: list_update_append Cons_nth_drop_Suc [symmetric])
  moreover have "c_str (bs @ NUL # cs) = c_str bs" for bs cs
    by (induction bs) (simp_all add: c_str_def)
  ultimately show ?thesis
    using assms(1-3,6) d by (cases "sv_recv sv") (auto simp: server_main_def recv_into_def terminate_at_def)
qed

theorem server_terminator_witness:
  "server_main \<lparr>sv_socket = 3, sv_bind = 0, sv_listen = 0, sv_accept = [- 1, 4], sv_recv = Some (replicate 4096 CHR ''a'')\<rparr>
     (replicate 4096 NUL) = Undefined \<and>
   server_main \<lparr>sv_socket = 3, sv_bind = 0, sv_listen = 0, sv_accept = [- 1, 4],
     sv_recv = snd (client_main 2 \<lparr>cl_socket = 3, cl_pton = 1, cl_connect = 0, cl_send = 10\<rparr>)\<rparr>
     (replicate 4096 NUL) = Done 0 (Some ''Hello QEMU'')"
  using server_terminator [of "\<lparr>sv_socket = 3, sv_bind = 0, sv_listen = 0, sv_accept = [- 1, 4], sv_recv = Some (replicate 4096 CHR ''a'')\<rparr>" 4 "replicate 4096 NUL"]
    server_terminator [of "\<lparr>sv_socket = 3, sv_bind = 0, sv_listen = 0, sv_accept = [- 1, 4], sv_recv = Some ''Hello QEMU''\<rparr>" 4 "replicate 4096 NUL"]
  by (simp add: MAXLINE_def client_main_def c_str_def NUL_def)

end
