(* ===== verification/Spec2Isabelle.thy ===== *)
theory Spec2Isabelle
  imports Shm_Store_Spec Simdb_Spec Sc_Main_Spec Cosim_Irq Cosim_Start Fpga_Spec Fpga_Msi Shm_List_Conc Shm_Readers_Conc
    Shm_Slots_Conc Shm_Value_Conc Simdb_Life_Spec Guest_Bdma Guest_Socket
begin

text \<open>
  Verification of the NVDLA virtual platform: the SystemC platform of \<open>src/src/aarch64_toplevel.cpp\<close> with
  its NVDLA model, and the two ways to put real hardware in the model's place, a simulator reached through
  a shared-memory database and an AWS FPGA.

  \<^bold>\<open>The program.\<close> \<open>sc_main\<close> reads the command line and the log control string, builds a CPU, a memory, the
  NVDLA and a router, and starts the simulation. Memory and NVDLA are either local models or, with
  \<open>--cosim\<close> or \<open>--fpga\<close>, wrappers whose transactors turn a bus access into a request to the other side:
  \<open>Gsgp2cosim\<close> and \<open>irq2gss\<close> put keys and values into the database \<open>simdb\<close>, which the RTL simulator's
  process opens too; \<open>Gsgp2fpga\<close> and \<open>Msi2gss\<close> use the registers and interrupts of the card.

  \<^bold>\<open>Theories and sources.\<close>
  \<^item> \<open>Prelude\<close>: arrays indexed by 32-bit words, bytes and little-endian words, rules for \<open>unat\<close>; the
    collections \<open>arr_simps\<close> and \<open>u32_arith\<close>.
  \<^item> \<open>shm_lib/simdb.hpp\<close>, from the bottom up: \<open>Shm_List\<close> (\<open>CncrLst\<close>, the free list), \<open>Shm_Store\<close>
    (\<open>CncrStr\<close>, chains of blocks with reader counts), \<open>Shm_Hash\<close> (\<open>CncrHsh\<close>, the table of slots, and the
    hash function), \<open>Simdb\<close> (the class \<open>simdb\<close>), \<open>Shm_Layout\<close> (\<open>lava_vec\<close>, sizes and offsets in the
    mapping), \<open>Simdb_Life\<close> (\<open>SharedMem\<close>, opening, closing, moving and destroying a database).
  \<^item> \<open>Shm_Store_Inv\<close>, \<open>Shm_Store_Read\<close>, \<open>Shm_Store_Write\<close>, \<open>Shm_Store_Spec\<close>: the invariant \<open>str_inv s F L\<close> (the
    free list is \<open>F\<close>, the blobs \<open>L\<close> lie in disjoint chains) and what reading, writing, allocating and
    freeing do to it. \<open>Shm_Hash_Inv\<close>, \<open>Shm_Db\<close>, \<open>Simdb_Spec\<close>: the table as a map from keys to values.
  \<^item> \<open>Kv_Store\<close>: the contract between the database and its clients as the locale \<open>kv_store\<close>, and
    \<open>kv_map\<close>, which adds that \<open>get\<close> is exact; both interpreted on the database in \<open>Simdb\<close>. \<open>Block_Pool\<close>:
    the contract of the free list, interpreted in \<open>Shm_List\<close>.
  \<^item> \<open>Shm_List_Conc\<close>, \<open>Shm_Readers_Conc\<close>, \<open>Shm_Slots_Conc\<close>: the free list, the reader counts and the slots of
    the table as steps of interleaved processes, one memory access at a time. Each takes from the
    next what it relies on: the slots hand a version index to one process only, that process frees it
    once, and the counts keep the block until the last reader, who returns it to the list.
    \<open>Shm_Value_Conc\<close> adds the bytes of the chain to the steps of \<open>Shm_Readers_Conc\<close>.
  \<^item> \<open>Cosim\<close>, \<open>Cosim_Spec\<close>, \<open>Cosim_Irq\<close>, \<open>Cosim_Start\<close>: \<open>cosim_sc_wrapper\<close> (\<open>gsgp2cosim.cpp\<close>,
    \<open>irq2gss.cpp\<close> and the wrappers). The transactors' lemmas are proved in \<open>kv_store\<close>.
  \<^item> \<open>Fpga\<close>, \<open>Fpga_Spec\<close>, \<open>Fpga_Msi\<close>: \<open>fpga_sc_wrapper\<close> (\<open>gsgp2fpga.cpp\<close>, \<open>msi2gss.cpp\<close>,
    \<open>thread_safe_event.cpp\<close> and the wrappers).
  \<^item> \<open>Sc_Log\<close>: \<open>libs/log/src/log.cpp\<close>. \<open>Cli_Args\<close>, \<open>Cli_Args_Spec\<close>: the option parsers. \<open>Aws_Fpga\<close>: the
    bring-up of the card. \<open>Sc_Main\<close>, \<open>Sc_Main_Spec\<close>: \<open>sc_main\<close>, \<open>exec_simv\<close> and the building of the platform.
  \<^item> \<open>Gp_Str\<close>, \<open>Nvdla_Adaptors\<close>: \<open>models/nvdla\<close> (\<open>gp2str.cpp\<close>, \<open>gsgp2tlm.cpp\<close>, \<open>tlm2gsgp.cpp\<close>,
    \<open>nvdla_top.cpp\<close>).
  \<^item> \<open>Guest_Bdma\<close>, \<open>Guest_Socket\<close>: the programs of \<open>tests\<close> that run on the simulated machine.

  \<^bold>\<open>How the code is rendered.\<close> A class is a record, an operation takes the state and returns it with its
  result, a 32- or 64-bit integer is a word of that width. \<open>None\<close> stands for undefined behaviour of the
  source, such as an access outside an array, and for a loop that does not end (these are
  \<open>partial_function (option)\<close>); that the operations return is part of each property that says so. Errors
  the code reports are values of a sum type or lists of messages. Libraries are parameters: the RTL
  process is any function that runs while the transactor waits and keeps to the protocol, the AWS calls,
  the environment and the other SystemC modules are arguments.

  \<^bold>\<open>What the theorems show.\<close>
  \<^item> Concurrency, each statement about its own part and under the conditions named here. The free list,
    with single blocks and chains freed: as long as each process frees blocks it holds, a chain
    only while the array links it from end to end, and fewer than \<open>2 ^ 32 - 1\<close> changes of the head have been made, no block is handed out
    twice or lost (\<open>conc_no_double_allocation\<close>), and a process alone finishes in four accesses. One record,
    which is handed out only after it was returned and is taken out of the table by one process, and
    fewer than \<open>2 ^ 32\<close> versions: it is not returned while a process holds a count on its version
    (\<open>conc_reader_protects\<close>), and a value is not read torn (\<open>conc_reads_one_value\<close>). The slots: no version
    index is taken out twice, and one is lost only by the put that finds its whole probe run in use
    (\<open>conc_slots_conserve\<close>). The sequential operations are runs of these steps
    (\<open>conc_alone_is_sequential\<close>, \<open>conc_calls_are_runs\<close>).
  \<^item> Where the code does not keep these conditions: a chain whose allocation was interleaved is freed
    with blocks of others, which are then handed out twice (\<open>interleaved_chain_double_allocation\<close>), and a
    reader that was overtaken leaves a count that keeps its block for ever
    (\<open>conc_overtaken_reader_leaks\<close>).
  \<^item> The database: a put of the table is a map update, a get a map lookup, and a whole run of requests
    answers as a map (\<open>db_is_a_map\<close>) when the keys in use have different homes in the table and lengths
    that are no multiples of the block size, each value takes at most its share of the blocks, and fewer
    than \<open>2 ^ 32\<close> values are put. The layout fits exactly below 4 GB of blocks. Outside
    these conditions: deleting can bring an old value back or miss the last slot, short reads leak a reader, the first close
    removes the database under the others, failed opens cannot be destroyed.
  \<^item> The bridges: a co-simulation access ends with the word or with a timeout, a word written is read
    back, from the constructor on (\<open>cosim_from_start\<close>), no interrupt is lost, doubled or reordered;
    an FPGA write pokes each word once and is read back. An interrupt message is followed by a reading
    that is sent when it comes while the interrupt thread waits for it or is between two waits, as long
    as its socket does not block (\<open>msi_no_message_lost\<close>); before the first wait, or inside a call that
    blocks, it can be lost (\<open>msi_message_lost_before_wait\<close>).
  \<^item> The platform: every parser reads back the options it documents, the log control string performs
    its settings in order, a co-simulation starts with the options given, the FPGA is released as it was taken, the
    NVDLA bridges pass an access on unchanged but for its byte enables, and leave by an exception with the
    DMI mutex locked when an error is reported. The BDMA test passes exactly when the done bit was seen
    in time and the copy it programs was made; the socket server overruns its buffer on a full message.

  \<^bold>\<open>Bounds.\<close> The count of waits of a transactor is its timeout, a 32-bit word, and the loop over it is
  structural. A database accepts \<open>2 ^ 32 - 1\<close> puts before the version of a value becomes 0, which
  readers take for a freed block; \<open>db_rep\<close> counts them down. The polling loop of the BDMA test carries the
  count of its source, 100000. No other fuel is used.

  \<^bold>\<open>Not modelled.\<close> The Windows branches of \<open>simdb.hpp\<close> and its commented-out \<open>simdb_listDBs\<close>; the operating
  system's file mapping (an argument of \<open>Simdb_Life\<close>); weak memory: the steps of the
  interleaving theories are sequentially consistent; the reader counts of the records of later blocks of a
  chain, and comparisons of keys in later blocks, under interleaving; the composition of the free
  list, the record and the slots into one system of processes, each of the three taking from the next
  only what is said above; debug output under \<open>DEBUG_LOG\<close>; accessors that
  return a field or a pointer; the NVDLA core, the CPU, the router, SystemC, GreenSocs and the AWS library,
  which are other projects; build files, the docker image and scripts.
\<close>

end
